(* ===== verification/KMonad.thy ===== *)
theory KMonad
  imports Prelude
begin

text \<open>
  The kernel as a state transformer. A kernel function is a map from the state to an outcome:
  it returns a value and a new state, it calls \<^verbatim>\<open>panic\<close> (\<^verbatim>\<open>src/xv6/console.c\<close>), it gives
  the CPU away (\<^verbatim>\<open>sched\<close> of \<^verbatim>\<open>src/xv6/proc.c\<close>, with the state it leaves to the scheduler),
  it spins for ever, or it does something C leaves undefined (an access outside an array, a null
  pointer). Sequencing stops at the first outcome that is not a return, as the C code does.

  Two predicate transformers carry the proofs: \<open>wp\<close> (the call returns, and the result satisfies
  the postcondition: total correctness) and \<open>keeps\<close> (an invariant holds in the state a call
  returns with or goes to sleep with). Their rules are collected in \<open>kwp\<close> and \<open>keeps_rules\<close>.
\<close>

named_theorems kwp
named_theorems keeps_rules
named_theorems kexec \<comment> \<open>equations that run a kernel function on a state\<close>

datatype ('a, 's) outcome =
    Ret 'a 's
  | Panic string
  | Switch 's
  | Hang
  | Undef

type_synonym ('s, 'a) kern = "'s \<Rightarrow> ('a, 's) outcome"

section \<open>Primitives\<close>

definition kret :: "'a \<Rightarrow> ('s, 'a) kern" where
  "kret x = (\<lambda>s. Ret x s)"

definition kbind :: "('s, 'a) kern \<Rightarrow> ('a \<Rightarrow> ('s, 'b) kern) \<Rightarrow> ('s, 'b) kern" where
  "kbind f g = (\<lambda>s. case f s of
      Ret a s' \<Rightarrow> g a s'
    | Panic m \<Rightarrow> Panic m
    | Switch s' \<Rightarrow> Switch s'
    | Hang \<Rightarrow> Hang
    | Undef \<Rightarrow> Undef)"

definition kseq :: "('s, 'a) kern \<Rightarrow> ('s, 'b) kern \<Rightarrow> ('s, 'b) kern" where
  "kseq f g = kbind f (\<lambda>_. g)"

definition kget :: "('s \<Rightarrow> 'a) \<Rightarrow> ('s, 'a) kern" where
  "kget f = (\<lambda>s. Ret (f s) s)"

definition kmod :: "('s \<Rightarrow> 's) \<Rightarrow> ('s, unit) kern" where
  "kmod f = (\<lambda>s. Ret () (f s))"

definition kpanic :: "string \<Rightarrow> ('s, 'a) kern" where
  "kpanic m = (\<lambda>s. Panic m)"

definition kundef :: "('s, 'a) kern" where
  "kundef = (\<lambda>s. Undef)"

definition khang :: "('s, 'a) kern" where
  "khang = (\<lambda>s. Hang)"

definition kwhen :: "bool \<Rightarrow> ('s, unit) kern \<Rightarrow> ('s, unit) kern" where
  "kwhen b f = (if b then f else kret ())"

text \<open>\<open>if(cond) panic(msg);\<close> as one statement.\<close>

definition panic_if :: "bool \<Rightarrow> string \<Rightarrow> ('s, unit) kern" where
  "panic_if b m = (if b then kpanic m else kret ())"

text \<open>A \<open>for\<close> loop whose body returns nothing.\<close>

fun kfor :: "'x list \<Rightarrow> ('x \<Rightarrow> ('s, unit) kern) \<Rightarrow> ('s, unit) kern" where
  "kfor [] body = kret ()"
| "kfor (x # xs) body = kseq (body x) (kfor xs body)"

lemmas kprims = kret_def kbind_def kseq_def kget_def kmod_def kpanic_def kundef_def khang_def
  kwhen_def panic_if_def

section \<open>Running a function on a state\<close>

lemma kret_run [kexec]: "kret x s = Ret x s"
  and kget_run [kexec]: "kget h s = Ret (h s) s"
  and kmod_run [kexec]: "kmod u s = Ret () (u s)"
  and kpanic_run [kexec]: "kpanic m s = Panic m"
  and kundef_run [kexec]: "kundef s = Undef"
  and khang_run [kexec]: "khang s = Hang"
  by (simp_all add: kprims)

lemma kbind_run [kexec]: "kbind f g s = (case f s of
      Ret a s' \<Rightarrow> g a s' | Panic m \<Rightarrow> Panic m | Switch s' \<Rightarrow> Switch s' | Hang \<Rightarrow> Hang | Undef \<Rightarrow> Undef)"
  and kseq_run [kexec]: "kseq f h s = (case f s of
      Ret a s' \<Rightarrow> h s' | Panic m \<Rightarrow> Panic m | Switch s' \<Rightarrow> Switch s' | Hang \<Rightarrow> Hang | Undef \<Rightarrow> Undef)"
  by (simp_all add: kprims)

lemma kwhen_run [kexec]: "kwhen b f s = (if b then f s else Ret () s)"
  and panic_if_run [kexec]: "panic_if b m s = (if b then Panic m else Ret () s)"
  by (simp_all add: kprims)

lemma kbind_kret [simp]: "kbind (kret x) g = g x"
  and kbind_assoc: "kbind (kbind f g) h = kbind f (\<lambda>a. kbind (g a) h)"
  and kseq_assoc: "kseq (kseq f p) q = kseq f (kseq p q)"
  by (auto simp: kprims fun_eq_iff split: outcome.splits)

lemma kseq_kret_unit [simp]: "kseq f (kret ()) = f"
  by (auto simp: kprims fun_eq_iff split: outcome.splits)

lemma kbind_Ret_conv:
  "kbind f g s = Ret b t \<longleftrightarrow> (\<exists>a s'. f s = Ret a s' \<and> g a s' = Ret b t)"
  by (auto simp: kprims split: outcome.splits)

lemma kbind_Switch_conv:
  "kbind f g s = Switch t \<longleftrightarrow> f s = Switch t \<or> (\<exists>a s'. f s = Ret a s' \<and> g a s' = Switch t)"
  by (auto simp: kprims split: outcome.splits)

lemma kseq_Ret_conv:
  "kseq f g s = Ret b t \<longleftrightarrow> (\<exists>a s'. f s = Ret a s' \<and> g s' = Ret b t)"
  by (auto simp: kprims split: outcome.splits)

lemma kfor_append: "kfor (xs @ ys) body = kseq (kfor xs body) (kfor ys body)"
  by (induction xs) (simp_all add: kseq_assoc, simp add: kseq_def)

section \<open>Total correctness\<close>

definition wp :: "('s, 'a) kern \<Rightarrow> ('a \<Rightarrow> 's \<Rightarrow> bool) \<Rightarrow> 's \<Rightarrow> bool" where
  "wp f Q s = (case f s of Ret a s' \<Rightarrow> Q a s' | _ \<Rightarrow> False)"

lemma wp_iff: "wp f Q s \<longleftrightarrow> (\<exists>a s'. f s = Ret a s' \<and> Q a s')"
  by (auto simp: wp_def split: outcome.splits)

lemma wpI: "f s = Ret a s' \<Longrightarrow> Q a s' \<Longrightarrow> wp f Q s"
  by (simp add: wp_iff)

lemma wp_kret [kwp]: "wp (kret x) Q s = Q x s"
  and wp_kget [kwp]: "wp (kget h) Q' s = Q' (h s) s"
  and wp_kmod [kwp]: "wp (kmod u) Q'' s = Q'' () (u s)"
  and wp_kpanic [kwp]: "wp (kpanic m) Q s = False"
  and wp_kundef [kwp]: "wp kundef Q s = False"
  and wp_khang [kwp]: "wp khang Q s = False"
  by (simp_all add: wp_def kprims)

lemma wp_kbind [kwp]: "wp (kbind f g) Q s = wp f (\<lambda>a. wp (g a) Q) s"
  and wp_kseq [kwp]: "wp (kseq f h) Q s = wp f (\<lambda>_. wp h Q) s"
  by (auto simp: wp_def kprims split: outcome.splits)

lemma wp_seqs: "wp (kbind f g) Q = wp f (\<lambda>a. wp (g a) Q)" "wp (kseq f' h) Q = wp f' (\<lambda>_. wp h Q)"
  by (auto simp: wp_kbind wp_kseq)

lemma wp_if [kwp]: "wp (if b then f else g) Q s = (if b then wp f Q s else wp g Q s)"
  by simp

lemma wp_kwhen [kwp]: "wp (kwhen b f) Q s = (if b then wp f Q s else Q () s)"
  and wp_panic_if [kwp]: "wp (panic_if b m) Q s = (\<not> b \<and> Q () s)"
  by (auto simp: wp_def kprims)

lemma wp_mono: "wp f Q s \<Longrightarrow> (\<And>a t. Q a t \<Longrightarrow> R a t) \<Longrightarrow> wp f R s"
  by (auto simp: wp_iff)

lemma wp_conjI: "wp f Q s \<Longrightarrow> wp f R s \<Longrightarrow> wp f (\<lambda>a t. Q a t \<and> R a t) s"
  by (auto simp: wp_iff)

lemma wp_Ret: "wp f Q s \<Longrightarrow> f s = Ret a t \<Longrightarrow> Q a t"
  by (simp add: wp_def)

text \<open>A counting loop, with \<open>P k\<close> holding after \<open>k\<close> rounds.\<close>

lemma wp_kfor_upt:
  assumes "P 0 s" "\<And>k t. k < n \<Longrightarrow> P k t \<Longrightarrow> wp (body k) (\<lambda>_. P (Suc k)) t"
    and "\<And>t. P n t \<Longrightarrow> Q () t"
  shows "wp (kfor [0..<n] body) Q s"
proof -
  have "wp (kfor [0..<m] body) (\<lambda>_. P m) s" if "m \<le> n" for m
    using that
  proof (induction m)
    case (Suc m)
    then have "wp (kfor [0..<m] body) (\<lambda>_. P m) s" by simp
    then have "wp (kfor [0..<m] body) (\<lambda>_. wp (body m) (\<lambda>_. P (Suc m))) s"
      by (rule wp_mono) (use Suc.prems assms(2) in simp)
    then show ?case by (simp add: kfor_append wp_kseq wp_kret)
  qed (simp add: wp_kret assms(1))
  from wp_mono [OF this [of n]] assms(3) show ?thesis by auto
qed

section \<open>Invariants\<close>

definition keeps :: "('s \<Rightarrow> bool) \<Rightarrow> ('s, 'a) kern \<Rightarrow> bool" where
  "keeps I f \<longleftrightarrow> (\<forall>s. I s \<longrightarrow>
     (case f s of Ret a s' \<Rightarrow> I s' | Switch s' \<Rightarrow> I s' | _ \<Rightarrow> True))"

lemma keepsI:
  assumes ret: "\<And>s a t. I s \<Longrightarrow> f s = Ret a t \<Longrightarrow> I t"
    and sw: "\<And>s t. I s \<Longrightarrow> f s = Switch t \<Longrightarrow> I t"
  shows "keeps I f"
  unfolding keeps_def
proof (intro allI impI)
  fix s assume "I s"
  from ret [OF this] sw [OF this]
  show "case f s of Ret a s' \<Rightarrow> I s' | Switch s' \<Rightarrow> I s' | _ \<Rightarrow> True"
    by (cases "f s") simp_all
qed

lemma keepsD: "keeps I f \<Longrightarrow> I s \<Longrightarrow> f s = Ret a t \<Longrightarrow> I t"
  unfolding keeps_def by (drule spec [of _ s]) simp

lemma keeps_switchD: "keeps I f \<Longrightarrow> I s \<Longrightarrow> f s = Switch t \<Longrightarrow> I t"
  unfolding keeps_def by (drule spec [of _ s]) simp

lemma keeps_kret [keeps_rules, simp]: "keeps I (kret x)"
  and keeps_kget [keeps_rules, simp]: "keeps I (kget h)"
  and keeps_kpanic [keeps_rules, simp]: "keeps I (kpanic m)"
  and keeps_kundef [keeps_rules, simp]: "keeps I kundef"
  and keeps_khang [keeps_rules, simp]: "keeps I khang"
  and keeps_panic_if [keeps_rules, simp]: "keeps I (panic_if b m)"
  by (auto simp: keeps_def kprims)

lemma keeps_kmod [keeps_rules]: "(\<And>s. I s \<Longrightarrow> I (u s)) \<Longrightarrow> keeps I (kmod u)"
  by (simp add: keeps_def kprims)

lemma keeps_kbind [keeps_rules]:
  "keeps I f \<Longrightarrow> (\<And>a. keeps I (g a)) \<Longrightarrow> keeps I (kbind f g)"
  by (rule keepsI) (simp_all add: kbind_Ret_conv kbind_Switch_conv, meson keepsD,
      meson keepsD keeps_switchD)

lemma keeps_kseq [keeps_rules]: "keeps I f \<Longrightarrow> keeps I g \<Longrightarrow> keeps I (kseq f g)"
  unfolding kseq_def by (rule keeps_kbind)

lemma keeps_if [keeps_rules]:
  "(b \<Longrightarrow> keeps I f) \<Longrightarrow> (\<not> b \<Longrightarrow> keeps I g) \<Longrightarrow> keeps I (if b then f else g)"
  by simp

lemma keeps_kwhen [keeps_rules]: "(b \<Longrightarrow> keeps I f) \<Longrightarrow> keeps I (kwhen b f)"
  by (simp add: kwhen_def)

lemma keeps_case_option [keeps_rules]:
  "keeps I f \<Longrightarrow> (\<And>x. keeps I (g x)) \<Longrightarrow> keeps I (case x of None \<Rightarrow> f | Some x \<Rightarrow> g x)"
  by (cases x) auto

lemma keeps_kfor [keeps_rules]: "(\<And>x. keeps I (body x)) \<Longrightarrow> keeps I (kfor xs body)"
  by (induction xs) (simp_all add: keeps_kseq)

end
