(* ===== verification/Spinlock.thy ===== *)
theory Spinlock
  imports KMonad
begin

text \<open>
  \<^verbatim>\<open>src/xv6/spinlock.c\<close> and the per-CPU state of \<^verbatim>\<open>src/xv6/proc.h\<close>: \<^verbatim>\<open>pushcli\<close>/\<^verbatim>\<open>popcli\<close>
  nesting, \<^verbatim>\<open>holding\<close>, \<^verbatim>\<open>acquire\<close>, \<^verbatim>\<open>release\<close>, and \<^verbatim>\<open>mycpu\<close>/\<^verbatim>\<open>cpuid\<close> of
  \<^verbatim>\<open>src/xv6/proc.c\<close>. The kernel state of the whole development grows from the record declared
  here. A lock that another CPU holds makes the caller spin; with only the caller running, that is
  the outcome \<open>Hang\<close>. The interleaving of several CPUs on one lock is the step relation
  \<open>spin_step\<close>. The call-stack recording of \<^verbatim>\<open>getcallerpcs\<close> (debugging only) is left out.
\<close>

section \<open>State\<close>

datatype slockid = BufLk nat | InodeLk nat

datatype lockid =
    PtableLk | IcacheLk | BcacheLk | LogLk | FtableLk | IdeLk | ConsLk | TicksLk | KmemLk
  | SleepLk slockid
  | PipeLk u32

record cpu =
  apicid :: nat
  ncli :: int
  intena :: bool
  cproc :: "nat option"

record spinlock =
  lk_locked :: bool
  lk_cpu :: "nat option"

text \<open>
  \<open>cur\<close> is the CPU that executes, \<open>lapic\<close> the APIC id the hardware gives each CPU and
  \<open>eflags_if\<close> the interrupt flag of each CPU; the other fields are the kernel's variables.
\<close>

record spinst =
  cur :: nat
  lapic :: "nat \<Rightarrow> nat"
  eflags_if :: "nat \<Rightarrow> bool"
  cpus :: "nat \<Rightarrow> cpu"
  ncpu :: nat
  locks :: "lockid \<Rightarrow> spinlock"

record mstate =
  spin :: spinst

definition free_lk :: spinlock where
  "free_lk = \<lparr>lk_locked = False, lk_cpu = None\<rparr>"

section \<open>Operations\<close>

definition kmod_spin :: "(spinst \<Rightarrow> spinst) \<Rightarrow> ('z mstate_scheme, unit) kern" where
  "kmod_spin f = kmod (\<lambda>s. s\<lparr>spin := f (spin s)\<rparr>)"

definition kmod_cpu :: "nat \<Rightarrow> (cpu \<Rightarrow> cpu) \<Rightarrow> ('z mstate_scheme, unit) kern" where
  "kmod_cpu c f = kmod_spin (\<lambda>p. p\<lparr>cpus := (cpus p)(c := f (cpus p c))\<rparr>)"

definition kmod_lock :: "lockid \<Rightarrow> (spinlock \<Rightarrow> spinlock) \<Rightarrow> ('z mstate_scheme, unit) kern" where
  "kmod_lock l f = kmod_spin (\<lambda>p. p\<lparr>locks := (locks p)(l := f (locks p l))\<rparr>)"

definition readeflags_if :: "('z mstate_scheme, bool) kern" where
  "readeflags_if = kget (\<lambda>s. eflags_if (spin s) (cur (spin s)))"

definition cli :: "('z mstate_scheme, unit) kern" where
  "cli = kmod_spin (\<lambda>p. p\<lparr>eflags_if := (eflags_if p)(cur p := False)\<rparr>)"

definition sti :: "('z mstate_scheme, unit) kern" where
  "sti = kmod_spin (\<lambda>p. p\<lparr>eflags_if := (eflags_if p)(cur p := True)\<rparr>)"

definition lapicid :: "('z mstate_scheme, nat) kern" where
  "lapicid = kget (\<lambda>s. lapic (spin s) (cur (spin s)))"

definition initlock :: "lockid \<Rightarrow> ('z mstate_scheme, unit) kern" where
  "initlock l = kmod_lock l (\<lambda>_. \<lparr>lk_locked = False, lk_cpu = None\<rparr>)"

definition mycpu :: "('z mstate_scheme, nat) kern" where
  "mycpu =
     kbind readeflags_if (\<lambda>fl.
     kseq (panic_if fl ''mycpu called with interrupts enabled\<newline>'')
     (kbind lapicid (\<lambda>id.
      kbind (kget (\<lambda>s. find (\<lambda>i. apicid (cpus (spin s) i) = id) [0..<ncpu (spin s)])) (\<lambda>r.
      case r of Some i \<Rightarrow> kret i | None \<Rightarrow> kpanic ''unknown apicid\<newline>''))))"

definition cpuid :: "('z mstate_scheme, nat) kern" where
  "cpuid = mycpu"

definition pushcli :: "('z mstate_scheme, unit) kern" where
  "pushcli =
     kbind readeflags_if (\<lambda>eflags.
     kseq cli
     (kbind mycpu (\<lambda>c.
      kbind (kget (\<lambda>s. ncli (cpus (spin s) c))) (\<lambda>n.
      kseq (kwhen (n = 0) (kmod_cpu c (\<lambda>x. x\<lparr>intena := eflags\<rparr>)))
      (kmod_cpu c (\<lambda>x. x\<lparr>ncli := ncli x + 1\<rparr>))))))"

definition popcli :: "('z mstate_scheme, unit) kern" where
  "popcli =
     kbind readeflags_if (\<lambda>fl.
     kseq (panic_if fl ''popcli - interruptible'')
     (kbind mycpu (\<lambda>c.
      kseq (kmod_cpu c (\<lambda>x. x\<lparr>ncli := ncli x - 1\<rparr>))
      (kbind (kget (\<lambda>s. cpus (spin s) c)) (\<lambda>x.
       kseq (panic_if (ncli x < 0) ''popcli'')
       (kwhen (ncli x = 0 \<and> intena x) sti))))))"

definition holding :: "lockid \<Rightarrow> ('z mstate_scheme, bool) kern" where
  "holding l =
     kseq pushcli
     (kbind mycpu (\<lambda>c.
      kbind (kget (\<lambda>s. locks (spin s) l)) (\<lambda>lk.
      kseq popcli
      (kret (lk_locked lk \<and> lk_cpu lk = Some c)))))"

definition acquire :: "lockid \<Rightarrow> ('z mstate_scheme, unit) kern" where
  "acquire l =
     kseq pushcli
     (kbind (holding l) (\<lambda>h.
      kseq (panic_if h ''acquire'')
      (kbind (kget (\<lambda>s. lk_locked (locks (spin s) l))) (\<lambda>busy.
       if busy then khang
       else kseq (kmod_lock l (\<lambda>k. k\<lparr>lk_locked := True\<rparr>))
            (kbind mycpu (\<lambda>c. kmod_lock l (\<lambda>k. k\<lparr>lk_cpu := Some c\<rparr>)))))))"

definition release :: "lockid \<Rightarrow> ('z mstate_scheme, unit) kern" where
  "release l =
     kbind (holding l) (\<lambda>h.
     kseq (panic_if (\<not> h) ''release'')
     (kseq (kmod_lock l (\<lambda>k. k\<lparr>lk_cpu := None\<rparr>))
     (kseq (kmod_lock l (\<lambda>k. k\<lparr>lk_locked := False\<rparr>))
      popcli)))"

definition myproc :: "('z mstate_scheme, nat option) kern" where
  "myproc =
     kseq pushcli
     (kbind mycpu (\<lambda>c.
      kbind (kget (\<lambda>s. cproc (cpus (spin s) c))) (\<lambda>p.
      kseq popcli (kret p))))"

lemmas spin_ops = kmod_spin_def kmod_cpu_def kmod_lock_def readeflags_if_def cli_def sti_def
  lapicid_def

section \<open>Well-formed CPU state and the effect of each operation\<close>

definition cpu_wf :: "spinst \<Rightarrow> bool" where
  "cpu_wf p \<longleftrightarrow> cur p < ncpu p \<and> (\<forall>i < ncpu p. apicid (cpus p i) = lapic p i)
     \<and> inj_on (lapic p) {..<ncpu p}"

definition cli_ok :: "spinst \<Rightarrow> bool" where
  "cli_ok p \<longleftrightarrow> (let c = cpus p (cur p); fl = eflags_if p (cur p) in
     0 \<le> ncli c \<and> (if ncli c = 0 then intena c = fl else \<not> fl))"

definition sp_push :: "spinst \<Rightarrow> spinst" where
  "sp_push p = (let c = cur p; x = cpus p c in
     p\<lparr>eflags_if := (eflags_if p)(c := False),
       cpus := (cpus p)(c := x\<lparr>ncli := ncli x + 1,
                               intena := (if ncli x = 0 then eflags_if p c else intena x)\<rparr>)\<rparr>)"

definition sp_pop :: "spinst \<Rightarrow> spinst" where
  "sp_pop p = (let c = cur p; x = cpus p c in
     p\<lparr>eflags_if := (eflags_if p)(c := (ncli x = 1 \<and> intena x)),
       cpus := (cpus p)(c := x\<lparr>ncli := ncli x - 1\<rparr>)\<rparr>)"

definition sp_acq :: "lockid \<Rightarrow> spinst \<Rightarrow> spinst" where
  "sp_acq l p = (sp_push p)\<lparr>locks := (locks p)(l := \<lparr>lk_locked = True, lk_cpu = Some (cur p)\<rparr>)\<rparr>"

definition sp_rel :: "lockid \<Rightarrow> spinst \<Rightarrow> spinst" where
  "sp_rel l p = sp_pop (p\<lparr>locks := (locks p)(l := free_lk)\<rparr>)"

definition can_acq :: "lockid \<Rightarrow> spinst \<Rightarrow> bool" where
  "can_acq l p \<longleftrightarrow> cpu_wf p \<and> cli_ok p \<and> locks p l = free_lk"

definition held :: "lockid \<Rightarrow> spinst \<Rightarrow> bool" where
  "held l p \<longleftrightarrow> cpu_wf p \<and> cli_ok p \<and> 0 < ncli (cpus p (cur p))
     \<and> locks p l = \<lparr>lk_locked = True, lk_cpu = Some (cur p)\<rparr>"

text \<open>No lock is held: the state between two critical sections.\<close>

definition calm :: "spinst \<Rightarrow> bool" where
  "calm p \<longleftrightarrow> cpu_wf p \<and> cli_ok p \<and> (\<forall>l. locks p l = free_lk)"

section \<open>Running the operations\<close>

lemma find_upt_unique:
  "i < n \<Longrightarrow> P i \<Longrightarrow> (\<And>j. j < n \<Longrightarrow> P j \<Longrightarrow> j = i) \<Longrightarrow> find P [0..<n] = Some i"
  unfolding find_Some_iff
  by (rule exI [of _ i]) (metis diff_zero length_upt less_irrefl less_trans nth_upt plus_nat.add_0)

lemma mycpu_run [kexec]:
  assumes "cpu_wf (spin s)" "\<not> eflags_if (spin s) (cur (spin s))"
  shows "mycpu s = Ret (cur (spin s)) s"
proof -
  have "find (\<lambda>i. apicid (cpus (spin s) i) = lapic (spin s) (cur (spin s))) [0..<ncpu (spin s)]
      = Some (cur (spin s))"
    using assms(1) by (intro find_upt_unique) (auto simp: cpu_wf_def inj_on_def)
  with assms(2) show ?thesis
    by (simp add: mycpu_def spin_ops kexec)
qed

lemma cpu_wf_sp [simp]:
  "cpu_wf (sp_push p) = cpu_wf p" "cpu_wf (sp_pop p) = cpu_wf p"
  "cpu_wf (sp_acq l p) = cpu_wf p" "cpu_wf (sp_rel l p) = cpu_wf p"
  by (auto simp: cpu_wf_def sp_push_def sp_pop_def sp_acq_def sp_rel_def Let_def)

lemma cpu_locks [simp]:
  "cpu_wf (p\<lparr>locks := x\<rparr>) = cpu_wf p" "cli_ok (p\<lparr>locks := x\<rparr>) = cli_ok p"
  by (simp_all add: cpu_wf_def cli_ok_def)

lemma cur_sp [simp]:
  "cur (sp_push p) = cur p" "cur (sp_pop p) = cur p"
  "cur (sp_acq l p) = cur p" "cur (sp_rel l p) = cur p"
  by (simp_all add: sp_push_def sp_pop_def sp_acq_def sp_rel_def Let_def)

lemma cproc_sp [simp]:
  "cproc (cpus (sp_push p) c) = cproc (cpus p c)" "cproc (cpus (sp_pop p) c) = cproc (cpus p c)"
  "cproc (cpus (sp_acq l p) c) = cproc (cpus p c)" "cproc (cpus (sp_rel l p) c) = cproc (cpus p c)"
  by (simp_all add: sp_push_def sp_pop_def sp_acq_def sp_rel_def Let_def)

lemma locks_sp [simp]:
  "locks (sp_push p) = locks p" "locks (sp_pop p) = locks p"
  "locks (sp_acq l p) =
    (locks p)(l := \<lparr>lk_locked = True, lk_cpu = Some (cur p)\<rparr>)"
  "locks (sp_rel l p) = (locks p)(l := free_lk)"
  by (simp_all add: sp_push_def sp_pop_def sp_acq_def sp_rel_def Let_def)

lemma ncli_sp [simp]:
  "ncli (cpus (sp_push p) c) = (if c = cur p then ncli (cpus p c) + 1 else ncli (cpus p c))"
  "ncli (cpus (sp_acq l p) c) = (if c = cur p then ncli (cpus p c) + 1 else ncli (cpus p c))"
  "ncli (cpus (sp_pop p) c) = (if c = cur p then ncli (cpus p c) - 1 else ncli (cpus p c))"
  by (simp_all add: sp_push_def sp_acq_def sp_pop_def Let_def)

lemma cli_ok_nonneg: "cli_ok p \<Longrightarrow> 0 \<le> ncli (cpus p (cur p))"
  by (simp add: cli_ok_def Let_def)

lemma cli_ok_eflags: "cli_ok p \<Longrightarrow> 0 < ncli (cpus p (cur p)) \<Longrightarrow> \<not> eflags_if p (cur p)"
  by (auto simp: cli_ok_def Let_def)

lemma cli_ok_sp [simp]: "cli_ok p \<Longrightarrow> cli_ok (sp_push p)" "cli_ok p \<Longrightarrow> cli_ok (sp_acq l p)"
  by (auto simp: cli_ok_def sp_push_def sp_acq_def Let_def)

lemma eflags_off_sp [simp]:
  "eflags_if (sp_push p) c = (c \<noteq> cur p \<and> eflags_if p c)"
  "eflags_if (sp_acq l p) c = (c \<noteq> cur p \<and> eflags_if p c)"
  by (simp_all add: sp_push_def sp_acq_def Let_def)

lemma sp_pop_push [simp]: "cli_ok p \<Longrightarrow> sp_pop (sp_push p) = p"
  by (cases p; cases "cpus p (cur p)")
     (auto simp: sp_pop_def sp_push_def cli_ok_def Let_def fun_eq_iff)

lemma sp_rel_acq [simp]:
  "cli_ok p \<Longrightarrow> locks p l = free_lk \<Longrightarrow> sp_rel l (sp_acq l p) = p"
  by (cases p; cases "cpus p (cur p)")
     (auto simp: sp_rel_def sp_acq_def sp_pop_def sp_push_def cli_ok_def Let_def fun_eq_iff)

lemma sp_rel_acq_swap [simp]:
  "cli_ok p \<Longrightarrow> locks p a = free_lk \<Longrightarrow> a \<noteq> b \<Longrightarrow> sp_rel a (sp_acq b (sp_acq a p)) = sp_acq b p"
  by (cases p; cases "cpus p (cur p)")
     (auto simp: sp_rel_def sp_acq_def sp_pop_def sp_push_def cli_ok_def Let_def fun_eq_iff)

lemma pushcli_run [kexec]:
  "cpu_wf (spin s) \<Longrightarrow> pushcli s = Ret () (s\<lparr>spin := sp_push (spin s)\<rparr>)"
proof -
  let ?s = "s\<lparr>spin := (spin s)\<lparr>eflags_if := (eflags_if (spin s))(cur (spin s) := False)\<rparr>\<rparr>"
  assume "cpu_wf (spin s)"
  then have "mycpu ?s = Ret (cur (spin s)) ?s"
    by (subst mycpu_run) (simp_all add: cpu_wf_def)
  then show ?thesis
    by (cases s; cases "cpus (spin s) (cur (spin s))")
       (auto simp: pushcli_def spin_ops kexec sp_push_def Let_def)
qed

lemma popcli_run [kexec]:
  assumes "cpu_wf (spin s)" "\<not> eflags_if (spin s) (cur (spin s))"
    "0 < ncli (cpus (spin s) (cur (spin s)))"
  shows "popcli s = Ret () (s\<lparr>spin := sp_pop (spin s)\<rparr>)"
  using assms
  by (cases s; cases "cpus (spin s) (cur (spin s))")
     (auto simp: popcli_def spin_ops kexec sp_pop_def Let_def fun_upd_idem)

lemma holding_run [kexec]:
  assumes "cpu_wf (spin s)" "cli_ok (spin s)"
  shows "holding l s = Ret (locks (spin s) l =
     \<lparr>lk_locked = True, lk_cpu = Some (cur (spin s))\<rparr>) s"
proof -
  have "0 < ncli (cpus (spin s) (cur (spin s))) + 1"
    using cli_ok_nonneg [OF assms(2)] by simp
  with assms show ?thesis
    by (cases "locks (spin s) l") (simp add: holding_def kexec)
qed

lemma myproc_run [kexec]:
  assumes "cpu_wf (spin s)" "cli_ok (spin s)"
  shows "myproc s = Ret (cproc (cpus (spin s) (cur (spin s)))) s"
proof -
  have "0 < ncli (cpus (spin s) (cur (spin s))) + 1"
    using cli_ok_nonneg [OF assms(2)] by simp
  with assms show ?thesis by (simp add: myproc_def kexec)
qed

lemma acquire_run [kexec]:
  assumes "can_acq l (spin s)"
  shows "acquire l s = Ret () (s\<lparr>spin := sp_acq l (spin s)\<rparr>)"
  using assms
  by (auto simp: acquire_def can_acq_def free_lk_def spin_ops kexec sp_acq_def)

lemma release_run [kexec]:
  assumes "held l (spin s)"
  shows "release l s = Ret () (s\<lparr>spin := sp_rel l (spin s)\<rparr>)"
  using assms
  by (auto simp: release_def held_def spin_ops kexec sp_rel_def free_lk_def cli_ok_eflags)

lemma can_acq_acq [simp]: "a \<noteq> b \<Longrightarrow> can_acq b p \<Longrightarrow> can_acq b (sp_acq a p)"
  by (simp add: can_acq_def)

lemma held_acq [simp]: "can_acq l p \<Longrightarrow> held l (sp_acq l p)"
  using cli_ok_nonneg [of p] by (auto simp: can_acq_def held_def)

lemma held_acq_other [simp]: "a \<noteq> b \<Longrightarrow> held a p \<Longrightarrow> held a (sp_acq b p)"
  by (simp add: held_def)

lemma calm_can_acq [simp]: "calm p \<Longrightarrow> can_acq l p"
  by (simp add: calm_def can_acq_def)

lemma can_acqD:
  "can_acq l p \<Longrightarrow> cpu_wf p" "can_acq l p \<Longrightarrow> cli_ok p" "can_acq l p \<Longrightarrow> locks p l = free_lk"
  by (simp_all add: can_acq_def)

lemma calmD:
  "calm p \<Longrightarrow> cpu_wf p" "calm p \<Longrightarrow> cli_ok p" "calm p \<Longrightarrow> locks p l = free_lk"
  by (simp_all add: calm_def)

lemma calm_rel_acq [simp]: "calm p \<Longrightarrow> sp_rel l (sp_acq l p) = p"
  by (simp add: calmD)

lemma calm_rel_acq_swap [simp]:
  "calm p \<Longrightarrow> a \<noteq> b \<Longrightarrow> sp_rel a (sp_acq b (sp_acq a p)) = sp_acq b p"
  by (simp add: calmD)

lemma calm_rel_nested [simp]:
  "calm p \<Longrightarrow> a \<noteq> b \<Longrightarrow> sp_rel b (sp_acq b (sp_acq a p)) = sp_acq a p"
  by (simp add: calmD)

section \<open>Properties\<close>

lemma acquire_release_id: "can_acq l (spin s) \<Longrightarrow> kseq (acquire l) (release l) s = Ret () s"
  using can_acqD [of l "spin s"] by (simp add: kexec)

lemma acquire_held_panics:
  "held l (spin s) \<Longrightarrow> acquire l s = Panic ''acquire''"
  by (simp add: acquire_def held_def kexec)

lemma acquire_busy_spins:
  assumes "cpu_wf (spin s)" "cli_ok (spin s)" "lk_locked (locks (spin s) l)"
    "lk_cpu (locks (spin s) l) \<noteq> Some (cur (spin s))"
  shows "acquire l s = Hang"
  using assms by (auto simp: acquire_def kexec)

lemma release_not_holder_panics:
  assumes "cpu_wf (spin s)" "cli_ok (spin s)"
    "\<not> (lk_locked (locks (spin s) l) \<and> lk_cpu (locks (spin s) l) = Some (cur (spin s)))"
  shows "release l s = Panic ''release''"
  using assms by (cases "locks (spin s) l") (auto simp: release_def kexec)

primrec sp_pushes :: "nat \<Rightarrow> spinst \<Rightarrow> spinst" where
  "sp_pushes 0 p = p"
| "sp_pushes (Suc n) p = sp_push (sp_pushes n p)"

lemma sp_pushes_ok:
  "cpu_wf p \<Longrightarrow> cpu_wf (sp_pushes n p)" "cli_ok p \<Longrightarrow> cli_ok (sp_pushes n p)"
  "cur (sp_pushes n p) = cur p"
  "ncli (cpus (sp_pushes n p) (cur p)) = ncli (cpus p (cur p)) + int n"
  by (induction n) simp_all

lemma kfor_pushcli:
  "cpu_wf (spin s) \<Longrightarrow>
   kfor (replicate n ()) (\<lambda>_. pushcli) s = Ret () (s\<lparr>spin := sp_pushes n (spin s)\<rparr>)"
proof (induction n arbitrary: s)
  case (Suc n)
  have "sp_pushes n (sp_push p) = sp_push (sp_pushes n p)" for p
    by (induction n) simp_all
  with Suc show ?case by (simp add: kexec)
qed (simp add: kexec)

lemma kfor_popcli:
  assumes "cpu_wf p" "cli_ok p"
  shows "kfor (replicate n ()) (\<lambda>_. popcli) (s\<lparr>spin := sp_pushes n p\<rparr>) = Ret () (s\<lparr>spin := p\<rparr>)"
proof (induction n)
  case (Suc n)
  have "0 < ncli (cpus (sp_push (sp_pushes n p)) (cur (sp_pushes n p)))"
    using assms cli_ok_nonneg [OF assms(2)] by (simp add: sp_pushes_ok)
  then have "popcli (s\<lparr>spin := sp_pushes (Suc n) p\<rparr>) = Ret () (s\<lparr>spin := sp_pushes n p\<rparr>)"
    using assms by (subst popcli_run) (simp_all add: sp_pushes_ok)
  with Suc show ?case by (simp add: kexec)
qed (simp add: kexec)

text \<open>
  \<open>pushcli\<close> and \<open>popcli\<close> are matched: any number of \<open>pushcli\<close> followed by as many
  \<open>popcli\<close> restores the machine exactly, and interrupts are off in between.
\<close>

lemma pushcli_popcli_matched:
  assumes "cpu_wf (spin s)" "cli_ok (spin s)"
  shows "kseq (kfor (replicate n ()) (\<lambda>_. pushcli)) (kfor (replicate n ()) (\<lambda>_. popcli)) s = Ret () s"
  using assms by (simp add: kexec kfor_pushcli kfor_popcli)

section \<open>Several CPUs on one lock\<close>

text \<open>
  The atomic steps \<open>acquire\<close> and \<open>release\<close> make on one lock: \<open>xchg\<close> (which fails as long as
  the word is 1), the store to \<open>lk->cpu\<close>, and in \<open>release\<close> the store to \<open>lk->cpu\<close> before the
  store of 0 to \<open>lk->locked\<close>.
\<close>

datatype lpc = LSpin | LTaken | LCrit | LLeave

record lockrun =
  lr_pc :: "nat \<Rightarrow> lpc"
  lr_lock :: spinlock

definition lr_init :: lockrun where
  "lr_init = \<lparr>lr_pc = (\<lambda>_. LSpin), lr_lock = free_lk\<rparr>"

inductive spin_step :: "lockrun \<Rightarrow> lockrun \<Rightarrow> bool" where
  xchg_won: "lr_pc r i = LSpin \<Longrightarrow> \<not> lk_locked (lr_lock r) \<Longrightarrow>
    spin_step r (r\<lparr>lr_pc := (lr_pc r)(i := LTaken), lr_lock := (lr_lock r)\<lparr>lk_locked := True\<rparr>\<rparr>)"
| xchg_lost: "lr_pc r i = LSpin \<Longrightarrow> lk_locked (lr_lock r) \<Longrightarrow>
    spin_step r (r\<lparr>lr_lock := (lr_lock r)\<lparr>lk_locked := True\<rparr>\<rparr>)"
| set_cpu: "lr_pc r i = LTaken \<Longrightarrow>
    spin_step r (r\<lparr>lr_pc := (lr_pc r)(i := LCrit), lr_lock := (lr_lock r)\<lparr>lk_cpu := Some i\<rparr>\<rparr>)"
| clear_cpu: "lr_pc r i = LCrit \<Longrightarrow> lk_locked (lr_lock r) \<Longrightarrow> lk_cpu (lr_lock r) = Some i \<Longrightarrow>
    spin_step r (r\<lparr>lr_pc := (lr_pc r)(i := LLeave), lr_lock := (lr_lock r)\<lparr>lk_cpu := None\<rparr>\<rparr>)"
| clear_locked: "lr_pc r i = LLeave \<Longrightarrow>
    spin_step r (r\<lparr>lr_pc := (lr_pc r)(i := LSpin), lr_lock := (lr_lock r)\<lparr>lk_locked := False\<rparr>\<rparr>)"

inductive spin_reach :: "lockrun \<Rightarrow> bool" where
  spin_start: "spin_reach lr_init"
| spin_next: "spin_reach r \<Longrightarrow> spin_step r r' \<Longrightarrow> spin_reach r'"

definition lock_inv :: "lockrun \<Rightarrow> bool" where
  "lock_inv r \<longleftrightarrow>
     (lk_locked (lr_lock r) \<longleftrightarrow> (\<exists>i. lr_pc r i \<noteq> LSpin))
   \<and> (\<forall>i j. lr_pc r i \<noteq> LSpin \<longrightarrow> lr_pc r j \<noteq> LSpin \<longrightarrow> i = j)
   \<and> (\<forall>i. lk_cpu (lr_lock r) = Some i \<longleftrightarrow> lr_pc r i = LCrit)"

lemma spin_step_inv: "spin_step r r' \<Longrightarrow> lock_inv r \<Longrightarrow> lock_inv r'"
proof (induction rule: spin_step.induct)
  case (xchg_won r i)
  then show ?case by (auto simp: lock_inv_def)
next
  case (xchg_lost r i)
  then show ?case by (auto simp: lock_inv_def)
next
  case (set_cpu r i)
  then show ?case unfolding lock_inv_def by simp (metis lpc.distinct)
next
  case (clear_cpu r i)
  then show ?case unfolding lock_inv_def by simp (metis lpc.distinct)
next
  case (clear_locked r i)
  then show ?case unfolding lock_inv_def by simp (metis lpc.distinct)
qed

lemma spin_reach_inv: "spin_reach r \<Longrightarrow> lock_inv r"
proof (induction rule: spin_reach.induct)
  case spin_start
  show ?case by (simp add: lr_init_def lock_inv_def free_lk_def)
next
  case (spin_next r r')
  then show ?case by (blast intro: spin_step_inv)
qed

end
