(* ===== verification/Proc_Table.thy ===== *)
theory Proc_Table
  imports Spinlock
begin

text \<open>
  The process table and the sleep/wakeup machinery of \<^verbatim>\<open>src/xv6/proc.c\<close>, with the data of
  \<^verbatim>\<open>src/xv6/proc.h\<close> and the trap frame of \<^verbatim>\<open>src/xv6/x86.h\<close>. A pointer into \<^verbatim>\<open>ptable.proc\<close>
  is its index; the address a process sleeps on is a value of \<open>chan\<close>, one constructor per kernel
  object whose address the kernel passes to \<^verbatim>\<open>sleep\<close>. \<^verbatim>\<open>swtch\<close> ends the outcome with
  \<open>Switch\<close>; what \<^verbatim>\<open>sleep\<close> does once the process runs again is \<open>sleep_return\<close>.
\<close>

section \<open>State\<close>

datatype procstate = UNUSED | EMBRYO | SLEEPING | RUNNABLE | RUNNING | ZOMBIE

datatype chan =
    ChanProc nat | ChanSleepLk slockid | ChanLog | ChanTicks | ChanInput | ChanBuf nat
  | ChanPipeR u32 | ChanPipeW u32

record trapframe =
  tf_edi :: u32
  tf_esi :: u32
  tf_ebp :: u32
  tf_oesp :: u32
  tf_ebx :: u32
  tf_edx :: u32
  tf_ecx :: u32
  tf_eax :: u32
  tf_gs :: u16
  tf_fs :: u16
  tf_es :: u16
  tf_ds :: u16
  tf_trapno :: u32
  tf_err :: u32
  tf_eip :: u32
  tf_cs :: u16
  tf_eflags :: u32
  tf_esp :: u32
  tf_ss :: u16

record proc =
  sz :: u32
  pgdir :: u32
  kstack :: u32
  pstate :: procstate
  pid :: int
  parent :: "nat option"
  tf :: trapframe
  pchan :: "chan option"
  killed :: bool
  ofile :: "nat option list"
  cwd :: "nat option"
  pname :: bytes

definition NPROC :: nat where "NPROC = 64"
definition NOFILE :: nat where "NOFILE = 16"

record pstate_t = mstate +
  ptable :: "nat \<Rightarrow> proc"
  nextpid :: int
  initproc :: "nat option"
  kpgdir :: u32
  cr3 :: "nat \<Rightarrow> u32"
  ts_esp0 :: "nat \<Rightarrow> u32"

text \<open>\<open>cr3\<close> and \<open>ts_esp0\<close> are per-CPU machine state: the page directory in use and the kernel
  stack the hardware switches to on a trap.\<close>

definition KERNBASE :: u32 where "KERNBASE = 0x80000000"
definition KSTACKSIZE :: u32 where "KSTACKSIZE = 4096"

definition V2P :: "u32 \<Rightarrow> u32" where "V2P a = a - KERNBASE"
definition P2V :: "u32 \<Rightarrow> u32" where "P2V a = a + KERNBASE"

section \<open>Operations\<close>

definition kmod_proc :: "nat \<Rightarrow> (proc \<Rightarrow> proc) \<Rightarrow> ('z pstate_t_scheme, unit) kern" where
  "kmod_proc i f = kmod (\<lambda>s. s\<lparr>ptable := (ptable s)(i := f (ptable s i))\<rparr>)"

definition pinit :: "('z pstate_t_scheme, unit) kern" where
  "pinit = initlock PtableLk"

definition wakeup1 :: "chan option \<Rightarrow> ('z pstate_t_scheme, unit) kern" where
  "wakeup1 ch = kfor [0..<NPROC] (\<lambda>i.
     kbind (kget (\<lambda>s. ptable s i)) (\<lambda>p.
     kwhen (pstate p = SLEEPING \<and> pchan p = ch)
       (kmod_proc i (\<lambda>p. p\<lparr>pstate := RUNNABLE\<rparr>))))"

definition wakeup :: "chan option \<Rightarrow> ('z pstate_t_scheme, unit) kern" where
  "wakeup ch = kseq (acquire PtableLk) (kseq (wakeup1 ch) (release PtableLk))"

definition swtch :: "('z pstate_t_scheme, unit) kern" where
  "swtch = (\<lambda>s. Switch s)"

text \<open>The part of \<open>sched\<close> after \<open>swtch\<close>, with the saved \<open>intena\<close> of the thread.\<close>

definition sched_return :: "bool \<Rightarrow> ('z pstate_t_scheme, unit) kern" where
  "sched_return ie = kbind mycpu (\<lambda>c. kmod_cpu c (\<lambda>x. x\<lparr>intena := ie\<rparr>))"

definition sched :: "('z pstate_t_scheme, unit) kern" where
  "sched =
     kbind myproc (\<lambda>mp.
     kbind (holding PtableLk) (\<lambda>h.
     kseq (panic_if (\<not> h) ''sched ptable.lock'')
     (kbind mycpu (\<lambda>c.
      kbind (kget (\<lambda>s. ncli (cpus (spin s) c))) (\<lambda>n.
      kseq (panic_if (n \<noteq> 1) ''sched locks'')
      (case mp of
         None \<Rightarrow> kundef
       | Some p \<Rightarrow>
           kbind (kget (\<lambda>s. pstate (ptable s p))) (\<lambda>st.
           kseq (panic_if (st = RUNNING) ''sched running'')
           (kbind readeflags_if (\<lambda>fl.
            kseq (panic_if fl ''sched interruptible'')
            (kbind (kget (\<lambda>s. intena (cpus (spin s) c))) (\<lambda>ie.
             kseq swtch (sched_return ie))))))))))))"

definition yield :: "('z pstate_t_scheme, unit) kern" where
  "yield =
     kseq (acquire PtableLk)
     (kbind myproc (\<lambda>mp. case mp of
        None \<Rightarrow> kundef
      | Some p \<Rightarrow>
          kseq (kmod_proc p (\<lambda>x. x\<lparr>pstate := RUNNABLE\<rparr>))
          (kseq sched (release PtableLk))))"

definition sleep_on :: "chan option \<Rightarrow> lockid option \<Rightarrow> ('z pstate_t_scheme, unit) kern" where
  "sleep_on ch lk =
     kbind myproc (\<lambda>mp. case mp of
       None \<Rightarrow> kpanic ''sleep''
     | Some p \<Rightarrow> (case lk of
         None \<Rightarrow> kpanic ''sleep without lk''
       | Some l \<Rightarrow>
           kseq (kwhen (l \<noteq> PtableLk) (kseq (acquire PtableLk) (release l)))
           (kseq (kmod_proc p (\<lambda>x. x\<lparr>pchan := ch\<rparr>))
           (kseq (kmod_proc p (\<lambda>x. x\<lparr>pstate := SLEEPING\<rparr>))
           (kseq sched
           (kseq (kmod_proc p (\<lambda>x. x\<lparr>pchan := None\<rparr>))
            (kwhen (l \<noteq> PtableLk) (kseq (release PtableLk) (acquire l)))))))))"

text \<open>The part of \<open>sleep\<close> after \<open>sched\<close>, run when the scheduler switches back to process \<open>p\<close>.\<close>

definition sleep_return :: "nat \<Rightarrow> lockid \<Rightarrow> ('z pstate_t_scheme, unit) kern" where
  "sleep_return p l =
     kseq (kmod_proc p (\<lambda>x. x\<lparr>pchan := None\<rparr>))
     (kwhen (l \<noteq> PtableLk) (kseq (release PtableLk) (acquire l)))"

fun kill_scan :: "nat list \<Rightarrow> int \<Rightarrow> ('z pstate_t_scheme, int) kern" where
  "kill_scan [] k = kseq (release PtableLk) (kret (- 1))"
| "kill_scan (i # is) k =
     kbind (kget (\<lambda>s. ptable s i)) (\<lambda>p.
     if pid p = k then
       kseq (kmod_proc i (\<lambda>x. x\<lparr>killed := True\<rparr>))
       (kseq (kwhen (pstate p = SLEEPING) (kmod_proc i (\<lambda>x. x\<lparr>pstate := RUNNABLE\<rparr>)))
       (kseq (release PtableLk) (kret 0)))
     else kill_scan is k)"

definition kill :: "int \<Rightarrow> ('z pstate_t_scheme, int) kern" where
  "kill k = kseq (acquire PtableLk) (kill_scan [0..<NPROC] k)"

fun pscnt_loop :: "nat list \<Rightarrow> int \<Rightarrow> ('z pstate_t_scheme, int) kern" where
  "pscnt_loop [] count = kret count"
| "pscnt_loop (i # is) count =
     kbind (kget (\<lambda>s. pstate (ptable s i))) (\<lambda>st.
     pscnt_loop is (if st \<noteq> UNUSED then count + 1 else count))"

definition sys_pscnt :: "('z pstate_t_scheme, int) kern" where
  "sys_pscnt = pscnt_loop [0..<NPROC] 0"

definition switchuvm :: "nat \<Rightarrow> ('z pstate_t_scheme, unit) kern" where
  "switchuvm p =
     kbind (kget (\<lambda>s. ptable s p)) (\<lambda>x.
     kseq (panic_if (kstack x = 0) ''switchuvm: no kstack'')
     (kseq (panic_if (pgdir x = 0) ''switchuvm: no pgdir'')
     (kseq pushcli
     (kbind mycpu (\<lambda>c.
      kseq (kmod (\<lambda>s. s\<lparr>ts_esp0 := (ts_esp0 s)(c := kstack x + KSTACKSIZE)\<rparr>))
      (kseq (kmod (\<lambda>s. s\<lparr>cr3 := (cr3 s)(c := V2P (pgdir x))\<rparr>))
       popcli))))))"

definition switchkvm :: "('z pstate_t_scheme, unit) kern" where
  "switchkvm = kmod (\<lambda>s. s\<lparr>cr3 := (cr3 s)(cur (spin s) := V2P (kpgdir s))\<rparr>)"

text \<open>
  One pass of \<open>scheduler\<close> over the table, from index \<open>i\<close> on; the call gives the CPU to the
  chosen process at \<open>swtch\<close>, and \<open>scheduler_resume c is\<close> is what follows when the process
  switches back.
\<close>

fun scheduler_pass :: "nat \<Rightarrow> nat list \<Rightarrow> ('z pstate_t_scheme, unit) kern" where
  "scheduler_pass c [] = release PtableLk"
| "scheduler_pass c (i # is) =
     kbind (kget (\<lambda>s. pstate (ptable s i))) (\<lambda>st.
     if st \<noteq> RUNNABLE then scheduler_pass c is
     else kseq (kmod_cpu c (\<lambda>x. x\<lparr>cproc := Some i\<rparr>))
          (kseq (switchuvm i)
          (kseq (kmod_proc i (\<lambda>x. x\<lparr>pstate := RUNNING\<rparr>))
          (kseq swtch
          (kseq switchkvm
          (kseq (kmod_cpu c (\<lambda>x. x\<lparr>cproc := None\<rparr>))
           (scheduler_pass c is)))))))"

definition scheduler_resume :: "nat \<Rightarrow> nat list \<Rightarrow> ('z pstate_t_scheme, unit) kern" where
  "scheduler_resume c is =
     kseq switchkvm (kseq (kmod_cpu c (\<lambda>x. x\<lparr>cproc := None\<rparr>)) (scheduler_pass c is))"

text \<open>The body of the endless loop of \<open>scheduler\<close> on CPU \<open>c\<close>.\<close>

definition scheduler_round :: "nat \<Rightarrow> ('z pstate_t_scheme, unit) kern" where
  "scheduler_round c = kseq sti (kseq (acquire PtableLk) (scheduler_pass c [0..<NPROC]))"

section \<open>Closed forms\<close>

definition wake_fun :: "chan option \<Rightarrow> (nat \<Rightarrow> proc) \<Rightarrow> nat \<Rightarrow> proc" where
  "wake_fun ch pt = (\<lambda>i. if i < NPROC \<and> pstate (pt i) = SLEEPING \<and> pchan (pt i) = ch
     then (pt i)\<lparr>pstate := RUNNABLE\<rparr> else pt i)"

lemma wakeup1_loop:
  "kfor [0..<n] (\<lambda>i. kbind (kget (\<lambda>s. ptable s i)) (\<lambda>p.
      kwhen (pstate p = SLEEPING \<and> pchan p = ch) (kmod_proc i (\<lambda>p. p\<lparr>pstate := RUNNABLE\<rparr>)))) s
   = Ret () (s\<lparr>ptable := (\<lambda>i. if i < n \<and> pstate (ptable s i) = SLEEPING \<and> pchan (ptable s i) = ch
     then (ptable s i)\<lparr>pstate := RUNNABLE\<rparr> else ptable s i)\<rparr>)"
proof (induction n)
  case (Suc n)
  then show ?case
    by (auto simp: kfor_append kexec kmod_proc_def intro!: arg_cong [where f = "\<lambda>t. s\<lparr>ptable := t\<rparr>"]
        simp: fun_eq_iff less_Suc_eq)
qed (simp add: kexec)

lemma wakeup1_run [kexec]: "wakeup1 ch s = Ret () (s\<lparr>ptable := wake_fun ch (ptable s)\<rparr>)"
  unfolding wakeup1_def wake_fun_def by (rule wakeup1_loop)

lemma wakeup_run [kexec]:
  "can_acq PtableLk (spin s) \<Longrightarrow> wakeup ch s = Ret () (s\<lparr>ptable := wake_fun ch (ptable s)\<rparr>)"
  using can_acqD [of PtableLk "spin s"] by (simp add: wakeup_def kexec)

section \<open>Giving up the CPU\<close>

lemma held_wf: "held l p \<Longrightarrow> cpu_wf p" "held l p \<Longrightarrow> cli_ok p"
  "held l p \<Longrightarrow> \<not> eflags_if p (cur p)"
  "held l p \<Longrightarrow> locks p l = \<lparr>lk_locked = True, lk_cpu = Some (cur p)\<rparr>"
  by (auto simp: held_def cli_ok_eflags)

lemma sched_run [kexec]:
  assumes "held PtableLk (spin s)" "ncli (cpus (spin s) (cur (spin s))) = 1"
    "cproc (cpus (spin s) (cur (spin s))) = Some p" "pstate (ptable s p) \<noteq> RUNNING"
  shows "sched s = Switch s"
  using assms held_wf [OF assms(1)]
  by (simp add: sched_def kexec readeflags_if_def swtch_def)

lemma sched_panics:
  assumes "cpu_wf (spin s)" "cli_ok (spin s)" "\<not> held PtableLk (spin s)"
    "0 < ncli (cpus (spin s) (cur (spin s)))"
  shows "sched s = Panic ''sched ptable.lock''"
  using assms by (simp add: sched_def kexec held_def)

definition asleep :: "nat \<Rightarrow> chan option \<Rightarrow> (nat \<Rightarrow> proc) \<Rightarrow> (nat \<Rightarrow> proc)" where
  "asleep p ch pt = pt(p := (pt p)\<lparr>pchan := ch, pstate := SLEEPING\<rparr>)"

lemma sleep_on_run:
  assumes "calm q" "ncli (cpus q (cur q)) = 0" "cproc (cpus q (cur q)) = Some p"
    "spin s = sp_acq l q" "l \<noteq> PtableLk"
  shows "sleep_on ch (Some l) s =
    Switch (s\<lparr>spin := sp_acq PtableLk q, ptable := asleep p ch (ptable s)\<rparr>)"
  using assms calmD(1,2) [OF assms(1)]
  by (simp add: sleep_on_def kexec kmod_proc_def asleep_def)

lemma sleep_on_ptable_run:
  assumes "calm q" "ncli (cpus q (cur q)) = 0" "cproc (cpus q (cur q)) = Some p"
    "spin s = sp_acq PtableLk q"
  shows "sleep_on ch (Some PtableLk) s = Switch (s\<lparr>ptable := asleep p ch (ptable s)\<rparr>)"
  using assms calmD(1,2) [OF assms(1)]
  by (simp add: sleep_on_def kexec kmod_proc_def asleep_def)

lemma sleep_return_run:
  assumes "calm q" "spin s = sp_acq PtableLk q" "l \<noteq> PtableLk"
  shows "sleep_return p l s = Ret () (s\<lparr>spin := sp_acq l q,
    ptable := (ptable s)(p := (ptable s p)\<lparr>pchan := None\<rparr>)\<rparr>)"
  using assms by (simp add: sleep_return_def kexec kmod_proc_def)

lemma yield_run:
  assumes "calm (spin s)" "ncli (cpus (spin s) (cur (spin s))) = 0"
    "cproc (cpus (spin s) (cur (spin s))) = Some p"
  shows "yield s = Switch (s\<lparr>spin := sp_acq PtableLk (spin s),
    ptable := (ptable s)(p := (ptable s p)\<lparr>pstate := RUNNABLE\<rparr>)\<rparr>)"
  using assms calmD(1,2) [OF assms(1)] by (simp add: yield_def kexec kmod_proc_def)

section \<open>wakeup, kill, sys_pscnt\<close>

lemma wake_fun_asleep:
  "p < NPROC \<Longrightarrow> pstate (wake_fun ch (asleep p ch pt) p) = RUNNABLE"
  by (simp add: wake_fun_def asleep_def)

lemma wake_fun_others:
  "pchan (pt i) \<noteq> ch \<or> pstate (pt i) \<noteq> SLEEPING \<Longrightarrow> wake_fun ch pt i = pt i"
  by (auto simp: wake_fun_def)

lemma wake_fun_idem [simp]: "wake_fun ch (wake_fun ch pt) = wake_fun ch pt"
  by (auto simp: wake_fun_def fun_eq_iff)

lemma wake_fun_keep [simp]:
  "pid (wake_fun ch pt i) = pid (pt i)" "parent (wake_fun ch pt i) = parent (pt i)"
  "kstack (wake_fun ch pt i) = kstack (pt i)" "pgdir (wake_fun ch pt i) = pgdir (pt i)"
  "killed (wake_fun ch pt i) = killed (pt i)" "ofile (wake_fun ch pt i) = ofile (pt i)"
  "cwd (wake_fun ch pt i) = cwd (pt i)" "sz (wake_fun ch pt i) = sz (pt i)"
  "tf (wake_fun ch pt i) = tf (pt i)" "pchan (wake_fun ch pt i) = pchan (pt i)"
  by (simp_all add: wake_fun_def)

definition kill_fun :: "nat \<Rightarrow> (nat \<Rightarrow> proc) \<Rightarrow> nat \<Rightarrow> proc" where
  "kill_fun i pt = pt(i := (pt i)\<lparr>killed := True,
     pstate := (if pstate (pt i) = SLEEPING then RUNNABLE else pstate (pt i))\<rparr>)"

lemma kill_scan_run:
  assumes "held PtableLk (spin s)"
  shows "kill_scan is k s = (case find (\<lambda>i. pid (ptable s i) = k) is of
      None \<Rightarrow> Ret (- 1) (s\<lparr>spin := sp_rel PtableLk (spin s)\<rparr>)
    | Some i \<Rightarrow> Ret 0 (s\<lparr>spin := sp_rel PtableLk (spin s), ptable := kill_fun i (ptable s)\<rparr>))"
  using assms
proof (induction "is")
  case (Cons i "is")
  then show ?case
    by (cases "ptable s i") (simp add: kexec kmod_proc_def kill_fun_def)
qed (simp add: kexec)

lemma kill_run [kexec]:
  assumes "calm (spin s)"
  shows "kill k s = (case find (\<lambda>i. pid (ptable s i) = k) [0..<NPROC] of
      None \<Rightarrow> Ret (- 1) s
    | Some i \<Rightarrow> Ret 0 (s\<lparr>ptable := kill_fun i (ptable s)\<rparr>))"
  using assms by (simp add: kill_def kexec kill_scan_run split: option.splits)

lemma pscnt_loop_run:
  "pscnt_loop is c s = Ret (c + int (length (filter (\<lambda>i. pstate (ptable s i) \<noteq> UNUSED) is))) s"
  by (induction "is" arbitrary: c) (simp_all add: kexec)

section \<open>The scheduler\<close>

lemma scheduler_pass_skip:
  "(\<forall>i \<in> set xs. pstate (ptable s i) \<noteq> RUNNABLE) \<Longrightarrow>
   scheduler_pass c (xs @ ys) s = scheduler_pass c ys s"
  by (induction xs) (simp_all add: kexec)

lemma switchuvm_run:
  assumes "cpu_wf (spin s)" "cli_ok (spin s)" "kstack (ptable s p) \<noteq> 0" "pgdir (ptable s p) \<noteq> 0"
  shows "switchuvm p s = Ret () (s\<lparr>ts_esp0 := (ts_esp0 s)(cur (spin s) := kstack (ptable s p) + KSTACKSIZE),
    cr3 := (cr3 s)(cur (spin s) := V2P (pgdir (ptable s p)))\<rparr>)"
  using assms cli_ok_nonneg [OF assms(2)] by (simp add: switchuvm_def kexec)

lemma cproc_wf:
  assumes "cpu_wf p" "cli_ok p"
  shows "cpu_wf (p\<lparr>cpus := (cpus p)(c := (cpus p c)\<lparr>cproc := x\<rparr>)\<rparr>)"
    "cli_ok (p\<lparr>cpus := (cpus p)(c := (cpus p c)\<lparr>cproc := x\<rparr>)\<rparr>)"
  using assms by (auto simp: cpu_wf_def cli_ok_def Let_def)

text \<open>The scheduler takes the first runnable process of the list.\<close>

lemma scheduler_pass_runs:
  assumes "cpu_wf (spin s)" "cli_ok (spin s)" "pstate (ptable s i) = RUNNABLE"
    "kstack (ptable s i) \<noteq> 0" "pgdir (ptable s i) \<noteq> 0"
  shows "scheduler_pass (cur (spin s)) (i # is) s =
    Switch (s\<lparr>spin := (spin s)\<lparr>cpus := (cpus (spin s))(cur (spin s) := (cpus (spin s) (cur (spin s)))\<lparr>cproc := Some i\<rparr>)\<rparr>,
      ptable := (ptable s)(i := (ptable s i)\<lparr>pstate := RUNNING\<rparr>),
      ts_esp0 := (ts_esp0 s)(cur (spin s) := kstack (ptable s i) + KSTACKSIZE),
      cr3 := (cr3 s)(cur (spin s) := V2P (pgdir (ptable s i)))\<rparr>)"
proof -
  let ?p = "(spin s)\<lparr>cpus := (cpus (spin s))(cur (spin s) := (cpus (spin s) (cur (spin s)))\<lparr>cproc := Some i\<rparr>)\<rparr>"
  have "switchuvm i (s\<lparr>spin := ?p\<rparr>) = Ret () (s\<lparr>spin := ?p, ts_esp0 := (ts_esp0 s)(cur (spin s) := kstack (ptable s i) + KSTACKSIZE),
    cr3 := (cr3 s)(cur (spin s) := V2P (pgdir (ptable s i)))\<rparr>)"
    using switchuvm_run [of "s\<lparr>spin := ?p\<rparr>" i] cproc_wf [OF assms(1,2)] assms by simp
  then show ?thesis using assms(3) by (simp add: kexec spin_ops swtch_def kmod_proc_def)
qed

end
