(* ===== verification/Sleeplock.thy ===== *)
theory Sleeplock
  imports Proc_Table
begin

text \<open>
  Sleep locks, \<^verbatim>\<open>src/xv6/sleeplock.c\<close>. The locks inside buffers and inodes are addressed by
  \<open>slockid\<close>. The loop of \<open>acquiresleep\<close> sleeps as long as the lock is taken: \<open>acquiresleep_try\<close>
  is the code from the loop test on, run first by \<open>acquiresleep\<close> and again by
  \<open>acquiresleep_resume\<close> each time the process wakes up.
\<close>

section \<open>State\<close>

record sleeplock =
  sl_locked :: bool
  sl_pid :: int

record slstate = pstate_t +
  slocks :: "slockid \<Rightarrow> sleeplock"

definition free_sl :: sleeplock where
  "free_sl = \<lparr>sl_locked = False, sl_pid = 0\<rparr>"

section \<open>Operations\<close>

definition kmod_slock :: "slockid \<Rightarrow> (sleeplock \<Rightarrow> sleeplock) \<Rightarrow> ('z slstate_scheme, unit) kern" where
  "kmod_slock l f = kmod (\<lambda>s. s\<lparr>slocks := (slocks s)(l := f (slocks s l))\<rparr>)"

definition mypid :: "('z slstate_scheme, int) kern" where
  "mypid = kbind myproc (\<lambda>mp. case mp of
     None \<Rightarrow> kundef | Some p \<Rightarrow> kget (\<lambda>s. pid (ptable s p)))"

definition initsleeplock :: "slockid \<Rightarrow> ('z slstate_scheme, unit) kern" where
  "initsleeplock l = kseq (initlock (SleepLk l)) (kmod_slock l (\<lambda>_. \<lparr>sl_locked = False, sl_pid = 0\<rparr>))"

definition acquiresleep_try :: "slockid \<Rightarrow> ('z slstate_scheme, unit) kern" where
  "acquiresleep_try l =
     kbind (kget (\<lambda>s. sl_locked (slocks s l))) (\<lambda>busy.
     if busy then sleep_on (Some (ChanSleepLk l)) (Some (SleepLk l))
     else kseq (kmod_slock l (\<lambda>k. k\<lparr>sl_locked := True\<rparr>))
          (kbind mypid (\<lambda>p.
           kseq (kmod_slock l (\<lambda>k. k\<lparr>sl_pid := p\<rparr>))
           (release (SleepLk l)))))"

definition acquiresleep :: "slockid \<Rightarrow> ('z slstate_scheme, unit) kern" where
  "acquiresleep l = kseq (acquire (SleepLk l)) (acquiresleep_try l)"

definition acquiresleep_resume :: "nat \<Rightarrow> slockid \<Rightarrow> ('z slstate_scheme, unit) kern" where
  "acquiresleep_resume p l = kseq (sleep_return p (SleepLk l)) (acquiresleep_try l)"

definition releasesleep :: "slockid \<Rightarrow> ('z slstate_scheme, unit) kern" where
  "releasesleep l =
     kseq (acquire (SleepLk l))
     (kseq (kmod_slock l (\<lambda>k. k\<lparr>sl_locked := False\<rparr>))
     (kseq (kmod_slock l (\<lambda>k. k\<lparr>sl_pid := 0\<rparr>))
     (kseq (wakeup (Some (ChanSleepLk l)))
      (release (SleepLk l)))))"

definition holdingsleep :: "slockid \<Rightarrow> ('z slstate_scheme, bool) kern" where
  "holdingsleep l =
     kseq (acquire (SleepLk l))
     (kbind (kget (\<lambda>s. sl_locked (slocks s l))) (\<lambda>lkd.
      kbind (if lkd then kbind (kget (\<lambda>s. sl_pid (slocks s l))) (\<lambda>k.
                         kbind mypid (\<lambda>p. kret (k = p)))
             else kret False) (\<lambda>r.
      kseq (release (SleepLk l)) (kret r))))"

section \<open>The running process\<close>

text \<open>
  \<open>ready s\<close>: no spin lock is held and a process runs on the current CPU. Every system call starts
  and ends there; \<open>curpid s\<close> is the pid of that process.
\<close>

definition ready :: "('z pstate_t_scheme) \<Rightarrow> bool" where
  "ready s \<longleftrightarrow> calm (spin s) \<and> ncli (cpus (spin s) (cur (spin s))) = 0
     \<and> cproc (cpus (spin s) (cur (spin s))) \<noteq> None"

definition curproc :: "('z pstate_t_scheme) \<Rightarrow> nat" where
  "curproc s = the (cproc (cpus (spin s) (cur (spin s))))"

definition curpid :: "('z pstate_t_scheme) \<Rightarrow> int" where
  "curpid s = pid (ptable s (curproc s))"

lemma ready_calm [simp]: "ready s \<Longrightarrow> calm (spin s)"
  by (simp add: ready_def)

lemma ready_cproc: "ready s \<Longrightarrow> cproc (cpus (spin s) (cur (spin s))) = Some (curproc s)"
  by (auto simp: ready_def curproc_def)

lemma ready_ncli: "ready s \<Longrightarrow> ncli (cpus (spin s) (cur (spin s))) = 0"
  by (simp add: ready_def)

lemma myproc_ready [kexec]: "ready s \<Longrightarrow> myproc s = Ret (Some (curproc s)) s"
  by (simp add: kexec calmD ready_cproc)

lemma mypid_ready [kexec]: "ready s \<Longrightarrow> mypid s = Ret (curpid s) s"
  by (simp add: mypid_def kexec curpid_def)

lemma mypid_acq [kexec]:
  "ready s \<Longrightarrow> mypid (s\<lparr>spin := sp_acq l (spin s), slocks := x\<rparr>)
     = Ret (curpid s) (s\<lparr>spin := sp_acq l (spin s), slocks := x\<rparr>)"
  "ready s \<Longrightarrow> mypid (s\<lparr>spin := sp_acq l (spin s)\<rparr>) = Ret (curpid s) (s\<lparr>spin := sp_acq l (spin s)\<rparr>)"
  by (simp_all add: mypid_def kexec curpid_def calmD ready_cproc)

section \<open>Effect of the operations\<close>

lemma acquiresleep_free [kexec]:
  assumes "ready s" "\<not> sl_locked (slocks s l)"
  shows "acquiresleep l s =
    Ret () (s\<lparr>slocks := (slocks s)(l := \<lparr>sl_locked = True, sl_pid = curpid s\<rparr>)\<rparr>)"
  using assms
  by (cases "slocks s l")
     (simp add: acquiresleep_def acquiresleep_try_def kexec kmod_slock_def)

lemma acquiresleep_busy:
  assumes "ready s" "sl_locked (slocks s l)"
  shows "acquiresleep l s = Switch (s\<lparr>spin := sp_acq PtableLk (spin s),
    ptable := asleep (curproc s) (Some (ChanSleepLk l)) (ptable s)\<rparr>)"
  using assms ready_cproc [OF assms(1)] ready_ncli [OF assms(1)]
  by (simp add: acquiresleep_def acquiresleep_try_def kexec sleep_on_run [of "spin s"])

lemma releasesleep_run [kexec]:
  assumes "calm (spin s)"
  shows "releasesleep l s = Ret () (s\<lparr>slocks := (slocks s)(l := free_sl),
    ptable := wake_fun (Some (ChanSleepLk l)) (ptable s)\<rparr>)"
  using assms
  by (cases "slocks s l") (simp add: releasesleep_def kexec kmod_slock_def free_sl_def)

lemma holdingsleep_run [kexec]:
  assumes "ready s"
  shows "holdingsleep l s = Ret (sl_locked (slocks s l) \<and> sl_pid (slocks s l) = curpid s) s"
  using assms
  by (simp add: holdingsleep_def kexec)

lemma acquiresleep_resume_run:
  assumes "calm q" "spin s = sp_acq PtableLk q" "\<not> sl_locked (slocks s l)"
    "cproc (cpus q (cur q)) = Some p"
  shows "acquiresleep_resume p l s = Ret () (s\<lparr>spin := q,
     ptable := (ptable s)(p := (ptable s p)\<lparr>pchan := None\<rparr>),
     slocks := (slocks s)(l := \<lparr>sl_locked = True, sl_pid = pid (ptable s p)\<rparr>)\<rparr>)"
  using assms
  by (cases "slocks s l")
     (simp add: acquiresleep_resume_def sleep_return_run acquiresleep_try_def kexec kmod_slock_def
       mypid_def calmD)

end
