(* ===== verification/Kstring.thy ===== *)
theory Kstring
  imports Prelude
begin

text \<open>
  The memory and string routines of \<^verbatim>\<open>src/xv6/string.c\<close> (kernel) and \<^verbatim>\<open>src/xv6/ulib.c\<close> (user
  library). Memory is a function from 32-bit addresses to bytes; pointer arithmetic wraps. A loop
  bounded by a counter recurses on the counter; a loop that only stops at a NUL byte is a
  \<open>partial_function\<close> whose value \<open>None\<close> is not returning.
\<close>

type_synonym mem = "u32 \<Rightarrow> u8"

section \<open>Operations\<close>

text \<open>\<open>rep stosb\<close> and \<open>rep stosl\<close> of \<^verbatim>\<open>src/xv6/x86.h\<close>.\<close>

fun stosb :: "mem \<Rightarrow> u32 \<Rightarrow> u8 \<Rightarrow> nat \<Rightarrow> mem" where
  "stosb m a c 0 = m"
| "stosb m a c (Suc n) = stosb (m(a := c)) (a + 1) c n"

definition store32 :: "mem \<Rightarrow> u32 \<Rightarrow> u32 \<Rightarrow> mem" where
  "store32 m a v = m(a := ucast v, a + 1 := ucast (drop_bit 8 v), a + 2 := ucast (drop_bit 16 v),
     a + 3 := ucast (drop_bit 24 v))"

definition load32 :: "mem \<Rightarrow> u32 \<Rightarrow> u32" where
  "load32 m a = of_le32 [m a, m (a + 1), m (a + 2), m (a + 3)]"

fun stosl :: "mem \<Rightarrow> u32 \<Rightarrow> u32 \<Rightarrow> nat \<Rightarrow> mem" where
  "stosl m a c 0 = m"
| "stosl m a c (Suc n) = stosl (store32 m a c) (a + 4) c n"

definition memset :: "mem \<Rightarrow> u32 \<Rightarrow> u32 \<Rightarrow> u32 \<Rightarrow> mem" where
  "memset m dst c n =
     (if dst mod 4 = 0 \<and> n mod 4 = 0 then
        let c = c AND 0xFF in
        stosl m dst (push_bit 24 c OR push_bit 16 c OR push_bit 8 c OR c) (unat (n div 4))
      else stosb m dst (ucast c) (unat n))"

fun memcmp :: "mem \<Rightarrow> u32 \<Rightarrow> u32 \<Rightarrow> nat \<Rightarrow> int" where
  "memcmp m s1 s2 0 = 0"
| "memcmp m s1 s2 (Suc n) =
     (if m s1 \<noteq> m s2 then uint (m s1) - uint (m s2) else memcmp m (s1 + 1) (s2 + 1) n)"

fun copy_down :: "mem \<Rightarrow> u32 \<Rightarrow> u32 \<Rightarrow> nat \<Rightarrow> mem" where
  "copy_down m d s 0 = m"
| "copy_down m d s (Suc n) = copy_down (m(d - 1 := m (s - 1))) (d - 1) (s - 1) n"

fun copy_up :: "mem \<Rightarrow> u32 \<Rightarrow> u32 \<Rightarrow> nat \<Rightarrow> mem" where
  "copy_up m d s 0 = m"
| "copy_up m d s (Suc n) = copy_up (m(d := m s)) (d + 1) (s + 1) n"

definition memmove :: "mem \<Rightarrow> u32 \<Rightarrow> u32 \<Rightarrow> u32 \<Rightarrow> mem" where
  "memmove m dst src n =
     (if src < dst \<and> src + n > dst then copy_down m (dst + n) (src + n) (unat n)
      else copy_up m dst src (unat n))"

definition memcpy :: "mem \<Rightarrow> u32 \<Rightarrow> u32 \<Rightarrow> u32 \<Rightarrow> mem" where
  "memcpy m dst src n = memmove m dst src n"

fun strncmp :: "mem \<Rightarrow> u32 \<Rightarrow> u32 \<Rightarrow> nat \<Rightarrow> int" where
  "strncmp m p q 0 = 0"
| "strncmp m p q (Suc n) =
     (if m p \<noteq> 0 \<and> m p = m q then strncmp m (p + 1) (q + 1) n else uint (m p) - uint (m q))"

fun strncpy_pad :: "mem \<Rightarrow> u32 \<Rightarrow> nat \<Rightarrow> mem" where
  "strncpy_pad m s 0 = m"
| "strncpy_pad m s (Suc n) = strncpy_pad (m(s := 0)) (s + 1) n"

fun strncpy :: "mem \<Rightarrow> u32 \<Rightarrow> u32 \<Rightarrow> nat \<Rightarrow> mem" where
  "strncpy m s t 0 = m"
| "strncpy m s t (Suc n) =
     (if m t \<noteq> 0 then strncpy (m(s := m t)) (s + 1) (t + 1) n
      else strncpy_pad (m(s := m t)) (s + 1) n)"

text \<open>The loop of \<open>safestrcpy\<close> with \<open>k = n - 1\<close> bytes still allowed.\<close>

fun safestrcpy_loop :: "mem \<Rightarrow> u32 \<Rightarrow> u32 \<Rightarrow> nat \<Rightarrow> mem" where
  "safestrcpy_loop m s t 0 = m(s := 0)"
| "safestrcpy_loop m s t (Suc k) =
     (let m' = m(s := m t) in
      if m t \<noteq> 0 then safestrcpy_loop m' (s + 1) (t + 1) k else m'(s + 1 := 0))"

definition safestrcpy :: "mem \<Rightarrow> u32 \<Rightarrow> u32 \<Rightarrow> int \<Rightarrow> mem" where
  "safestrcpy m s t n = (if n \<le> 0 then m else safestrcpy_loop m s t (nat (n - 1)))"

partial_function (option) strlen_from :: "mem \<Rightarrow> u32 \<Rightarrow> nat \<Rightarrow> nat option" where
  "strlen_from m s n = (if m (s + of_nat n) = 0 then Some n else strlen_from m s (n + 1))"

definition strlen :: "mem \<Rightarrow> u32 \<Rightarrow> nat option" where
  "strlen m s = strlen_from m s 0"

text \<open>\<^verbatim>\<open>src/xv6/ulib.c\<close>. \<open>int\<close> arithmetic of \<open>atoi\<close> is kept at 32 bits.\<close>

partial_function (option) strcpy :: "mem \<Rightarrow> u32 \<Rightarrow> u32 \<Rightarrow> mem option" where
  "strcpy m s t = (let m' = m(s := m t) in
     if m t \<noteq> 0 then strcpy m' (s + 1) (t + 1) else Some m')"

partial_function (option) strcmp :: "mem \<Rightarrow> u32 \<Rightarrow> u32 \<Rightarrow> int option" where
  "strcmp m p q = (if m p \<noteq> 0 \<and> m p = m q then strcmp m (p + 1) (q + 1)
     else Some (uint (m p) - uint (m q)))"

partial_function (option) strchr :: "mem \<Rightarrow> u32 \<Rightarrow> u8 \<Rightarrow> u32 option" where
  "strchr m s c = (if m s = 0 then Some 0 else if m s = c then Some s else strchr m (s + 1) c)"

definition isdigit8 :: "u8 \<Rightarrow> bool" where
  "isdigit8 c \<longleftrightarrow> 48 \<le> c \<and> c \<le> 57"

partial_function (option) atoi_loop :: "mem \<Rightarrow> u32 \<Rightarrow> u32 \<Rightarrow> u32 option" where
  "atoi_loop m s n = (if isdigit8 (m s) then atoi_loop m (s + 1) (n * 10 + ucast (m s) - 48)
     else Some n)"

definition atoi :: "mem \<Rightarrow> u32 \<Rightarrow> u32 option" where
  "atoi m s = atoi_loop m s 0"

definition umemset :: "mem \<Rightarrow> u32 \<Rightarrow> u32 \<Rightarrow> u32 \<Rightarrow> mem" where
  "umemset m dst c n = stosb m dst (ucast c) (unat n)"

definition umemmove :: "mem \<Rightarrow> u32 \<Rightarrow> u32 \<Rightarrow> int \<Rightarrow> mem" where
  "umemmove m dst src n = copy_up m dst src (nat n)"

section \<open>Closed forms\<close>

definition mset :: "mem \<Rightarrow> u32 \<Rightarrow> u8 \<Rightarrow> nat \<Rightarrow> mem" where
  "mset m a c n = (\<lambda>x. if unat (x - a) < n then c else m x)"

definition moved :: "mem \<Rightarrow> u32 \<Rightarrow> u32 \<Rightarrow> nat \<Rightarrow> mem" where
  "moved m d s n = (\<lambda>x. if unat (x - d) < n then m (s + (x - d)) else m x)"

text \<open>\<open>n\<close> bytes of memory from \<open>a\<close> on.\<close>

definition mread :: "mem \<Rightarrow> u32 \<Rightarrow> nat \<Rightarrow> bytes" where
  "mread m a n = map (\<lambda>i. m (a + of_nat i)) [0..<n]"

lemma length_mread [simp]: "length (mread m a n) = n"
  by (simp add:  mread_def)

lemma addr_Suc: "unat (x - a) < Suc n \<longleftrightarrow> x = a \<or> unat (x - (a + 1)) < n" for a x :: u32
proof (cases "x = a")
  case False
  then have "x - a \<noteq> 0" by simp
  then have "unat (x - a - 1) = unat (x - a) - 1" "unat (x - a) \<noteq> 0"
    by (simp_all add: unat_minus_one unat_eq_zero)
  then show ?thesis using False by (auto simp: algebra_simps)
qed simp

lemma stosb_mset: "stosb m a c n = mset m a c n"
  by (induction n arbitrary: m a) (auto simp: mset_def fun_eq_iff addr_Suc)

lemma copy_up_moved: "d = s \<or> n \<le> unat (d - s) \<Longrightarrow> copy_up m d s n = moved m d s n"
proof (induction n arbitrary: m d s)
  case (Suc n)
  have IH: "copy_up (m(d := m s)) (d + 1) (s + 1) n = moved (m(d := m s)) (d + 1) (s + 1) n"
    by (intro Suc.IH) (use Suc.prems in auto)
  have "(moved (m(d := m s)) (d + 1) (s + 1) n) x = moved m d s (Suc n) x" for x
  proof (cases "unat (x - (d + 1)) < n")
    case True
    have "s + 1 + (x - (d + 1)) = s + (x - d)" by (simp add: algebra_simps)
    moreover have "s + (x - d) = d \<longrightarrow> d = s"
    proof
      assume eq: "s + (x - d) = d"
      then have "d - s = x - d" by (simp add: algebra_simps)
      then show "d = s" using Suc.prems True eq
        by (metis addr_Suc leD)
    qed
    ultimately show ?thesis using True by (auto simp: moved_def addr_Suc)
  qed (simp add: moved_def addr_Suc)
  then show ?case using IH by auto
qed (simp add: moved_def)

lemma addr_last: "unat (x - a) < Suc n \<longleftrightarrow> x = a + of_nat n \<or> unat (x - a) < n"
  if "n < 2 ^ 32" for a x :: u32
proof -
  have "x = a + of_nat n \<longleftrightarrow> x - a = of_nat n" by (auto simp: algebra_simps)
  also have "\<dots> \<longleftrightarrow> unat (x - a) = n" using that
    by (simp add: word_unat_eq_iff unsigned_of_nat take_bit_nat_eq_self)
  finally show ?thesis by auto
qed

lemma copy_down_moved:
  assumes "n \<le> 2 ^ 32" "d = s \<or> n \<le> unat (s - d)"
  shows "copy_down m (d + of_nat n) (s + of_nat n) n = moved m d s n"
  using assms
proof (induction n arbitrary: m)
  case (Suc n)
  let ?m = "m(d + of_nat n := m (s + of_nat n))"
  have "copy_down m (d + of_nat (Suc n)) (s + of_nat (Suc n)) (Suc n)
      = copy_down ?m (d + of_nat n) (s + of_nat n) n"
    by (simp add: algebra_simps)
  also have "\<dots> = moved ?m d s n" using Suc by auto
  also have "\<dots> = moved m d s (Suc n)"
  proof
    fix x show "moved ?m d s n x = moved m d s (Suc n) x"
  proof (cases "unat (x - d) < n")
    case True
    have "s + (x - d) = d + of_nat n \<longrightarrow> d = s"
    proof
      assume eq: "s + (x - d) = d + of_nat n"
      define y where "y = x - d"
      have "s - d = of_nat n - y" using eq by (simp add: algebra_simps y_def)
      moreover have "unat y < n" using True by (simp add: y_def)
      ultimately have "unat (s - d) \<le> n"
        using Suc.prems(1) by (simp only: unat_sub_if') (simp add: unsigned_of_nat take_bit_nat_eq_self)
      then show "d = s" using Suc.prems by auto
    qed
    then show ?thesis using True Suc.prems(1) by (auto simp: moved_def addr_last)
  qed (use Suc.prems(1) in \<open>simp add: moved_def addr_last\<close>)
  qed
  finally show ?case .
qed (simp add: moved_def)

lemma memmove_moved:
  assumes "unat src + unat n < 2 ^ 32" "unat dst + unat n \<le> 2 ^ 32"
  shows "memmove m dst src n = moved m dst src (unat n)"
proof -
  have sn: "unat (src + n) = unat src + unat n"
    using assms(1) by (simp add: unat_word_ariths)
  consider (down) "src < dst" "src + n > dst" | (up) "\<not> (src < dst \<and> src + n > dst)" by blast
  then show ?thesis
  proof cases
    case down
    have "unat n \<le> unat (src - dst)" using down assms
      by (auto simp: unat_sub_if' word_less_nat_alt)
    then show ?thesis using down copy_down_moved [of "unat n" dst src m] assms
      by (simp add: memmove_def)
  next
    case up
    have "dst = src \<or> unat n \<le> unat (dst - src)" using up assms sn
      by (auto simp: unat_sub_if' word_less_nat_alt word_unat_eq_iff)
    then show ?thesis using up by (auto simp: memmove_def copy_up_moved)
  qed
qed

lemma stosb_append: "stosb m a c (i + j) = stosb (stosb m a c i) (a + of_nat i) c j"
  by (induction i arbitrary: m a) (simp_all add: algebra_simps)

definition rep4 :: "u32 \<Rightarrow> u32" where
  "rep4 c = push_bit 24 c OR push_bit 16 c OR push_bit 8 c OR c"

lemma rep4_bytes:
  fixes c :: u32
  defines "w \<equiv> rep4 (c AND 0xFF)"
  shows "ucast w = (ucast c :: u8)" "ucast (drop_bit 8 w) = (ucast c :: u8)"
    "ucast (drop_bit 16 w) = (ucast c :: u8)" "ucast (drop_bit 24 w) = (ucast c :: u8)"
proof -
  have m: "c AND 0xFF = take_bit 8 c"
    by (simp add: take_bit_eq_mask mask_eq_exp_minus_1)
  show "ucast w = (ucast c :: u8)" "ucast (drop_bit 8 w) = (ucast c :: u8)"
    "ucast (drop_bit 16 w) = (ucast c :: u8)" "ucast (drop_bit 24 w) = (ucast c :: u8)"
    unfolding w_def rep4_def m
    by (auto intro!: bit_word_eqI simp: bit_simps)
qed

lemma stosb_4: "stosb m a c 4 = m(a := c, a + 1 := c, a + 2 := c, a + 3 := c)"
  by (simp add: numeral_eq_Suc add.assoc)

lemma stosl_rep4: "stosl m a (rep4 (c AND 0xFF)) n = stosb m a (ucast c) (4 * n)"
proof (induction n arbitrary: m a)
  case (Suc n)
  have "store32 m a (rep4 (c AND 0xFF)) = stosb m a (ucast c) 4"
    by (simp add: store32_def rep4_bytes stosb_4)
  then show ?case using Suc stosb_append [of m a "ucast c" 4 "4 * n"] by simp
qed simp

lemma memset_mset: "memset m dst c n = mset m dst (ucast c) (unat n)"
proof (cases "dst mod 4 = 0 \<and> n mod 4 = 0")
  case True
  have "4 * unat (n div 4) = unat n"
  proof -
    have "unat n mod 4 = 0"
      using True unat_mod_distrib [of n 4] by simp
    then show ?thesis by (simp add: unat_div_distrib mod_eq_0_iff_dvd)
  qed
  then show ?thesis using True stosl_rep4 [of m dst c "unat (n div 4)"]
    by (simp add: memset_def Let_def rep4_def stosb_mset)
qed (auto simp: memset_def stosb_mset)

lemma addr_ne: "i \<noteq> j \<Longrightarrow> i < 2 ^ 32 \<Longrightarrow> j < 2 ^ 32 \<Longrightarrow> a + of_nat i \<noteq> (a + of_nat j :: u32)"
proof -
  assume "i \<noteq> j" "i < 2 ^ 32" "j < 2 ^ 32"
  then have "(of_nat i :: u32) \<noteq> of_nat j"
    by (simp add: word_unat_eq_iff unsigned_of_nat take_bit_nat_eq_self)
  then show ?thesis by simp
qed

lemma load32_store32 [simp]: "load32 (store32 m a v) a = v"
proof -
  have "a \<noteq> a + 1" "a \<noteq> a + 2" "a \<noteq> a + 3" "a + 1 \<noteq> a + 2" "a + 1 \<noteq> a + 3" "a + 2 \<noteq> a + 3"
    by simp_all
  then show ?thesis
    using of_le32_le32 [of v] by (simp add: load32_def store32_def le32_def)
qed

lemma load32_cong: "(\<And>i. i < 4 \<Longrightarrow> m (a + of_nat i) = m' (a + of_nat i)) \<Longrightarrow> load32 m a = load32 m' a"
proof -
  assume eq: "\<And>i. i < 4 \<Longrightarrow> m (a + of_nat i) = m' (a + of_nat i)"
  show ?thesis using eq [of 0] eq [of 1] eq [of 2] eq [of 3] by (simp add: load32_def)
qed

section \<open>Strings\<close>

text \<open>The contents of a C string held in a byte list: everything before the first NUL.\<close>

definition cstr :: "bytes \<Rightarrow> bytes" where
  "cstr xs = takeWhile (\<lambda>b. b \<noteq> 0) xs"

lemma cstr_simps [simp]:
  "cstr [] = []" "cstr (x # xs) = (if x = 0 then [] else x # cstr xs)"
  by (simp_all add: cstr_def)

lemma cstr_nonzero: "0 \<notin> set (cstr xs)"
  unfolding cstr_def using set_takeWhileD by fastforce

lemma length_cstr: "length (cstr xs) \<le> length xs"
  unfolding cstr_def by (rule length_takeWhile_le)

lemma mread_Suc: "mread m a (Suc n) = m a # mread m (a + 1) n"
  by (simp add: mread_def upt_conv_Cons map_Suc_upt [symmetric] algebra_simps
      del: upt_Suc)

lemma mread_0 [simp]: "mread m a 0 = []"
  by (simp add: mread_def)

lemma strncmp_zero_iff: "strncmp m p q n = 0 \<longleftrightarrow> cstr (mread m p n) = cstr (mread m q n)"
  by (induction n arbitrary: p q) (auto simp: mread_Suc word_uint_eq_iff)

lemma memcmp_zero_iff: "memcmp m p q n = 0 \<longleftrightarrow> mread m p n = mread m q n"
  by (induction n arbitrary: p q) (auto simp: mread_Suc word_uint_eq_iff)

lemma strncpy_pad_mset: "strncpy_pad m s n = mset m s 0 n"
  by (induction n arbitrary: m s) (auto simp: mset_def fun_eq_iff addr_Suc)

lemma mset_frame: "n \<le> unat (x - s) \<Longrightarrow> mset m s c n x = m x"
  by (simp add: mset_def)

lemma addr_frame: "Suc n \<le> unat (x - s) \<Longrightarrow> x \<noteq> s \<and> n \<le> unat (x - (s + 1))" for s x :: u32
  using addr_Suc [of x s n] by auto

lemma strncpy_frame: "n \<le> unat (x - s) \<Longrightarrow> strncpy m s t n x = m x"
proof (induction n arbitrary: m s t)
  case (Suc n)
  then show ?case using addr_frame [OF Suc.prems] by (simp add: strncpy_pad_mset mset_frame)
qed simp

lemma safestrcpy_frame: "n \<le> 0 \<or> nat n \<le> unat (x - s) \<Longrightarrow> safestrcpy m s t n x = m x"
proof -
  have "Suc k \<le> unat (x - s) \<Longrightarrow> safestrcpy_loop m s t k x = m x" for k
  proof (induction k arbitrary: m s t)
    case (Suc k)
    then show ?case using addr_frame [OF Suc.prems] addr_frame [of 0 x "s + 1"]
      by (auto simp: Let_def)
  qed (use addr_frame [of 0] in auto)
  then show "n \<le> 0 \<or> nat n \<le> unat (x - s) \<Longrightarrow> safestrcpy m s t n x = m x"
    by (auto simp: safestrcpy_def)
qed

text \<open>Source and destination do not overlap: no byte written is read later.\<close>

definition sep :: "u32 \<Rightarrow> u32 \<Rightarrow> nat \<Rightarrow> bool" where
  "sep s t n \<longleftrightarrow> (\<forall>i < n. n \<le> unat (t + of_nat i - s))"

lemma sep_Suc:
  assumes "sep s t (Suc n)"
  shows "sep (s + 1) (t + 1) n" "i < Suc n \<Longrightarrow> t + of_nat i \<noteq> s" "t \<noteq> s"
proof -
  show "sep (s + 1) (t + 1) n"
    unfolding sep_def
  proof (intro allI impI)
    fix i assume "i < n"
    then have "Suc n \<le> unat (t + of_nat i - s)"
      using assms by (simp add: sep_def)
    moreover have eq: "t + 1 + of_nat i - (s + 1) = t + of_nat i - s" by (simp add: algebra_simps)
    ultimately show "n \<le> unat (t + 1 + of_nat i - (s + 1))" unfolding eq by linarith
  qed
  show "i < Suc n \<Longrightarrow> t + of_nat i \<noteq> s" for i
    using assms by (auto simp: sep_def)
  from this [of 0] show "t \<noteq> s" by simp
qed

lemma mread_upd_out: "(\<And>i. i < n \<Longrightarrow> t + of_nat i \<noteq> s) \<Longrightarrow> mread (m(s := v)) t n = mread m t n"
  by (simp add: mread_def)

lemma mread_upd_sep: "sep s t (Suc n) \<Longrightarrow> mread (m(s := v)) (t + 1) n = mread m (t + 1) n"
  using sep_Suc(2) [of s t n "Suc i" for i] by (intro mread_upd_out) (auto simp: algebra_simps)

lemma before_frame: "n < 2 ^ 32 \<Longrightarrow> n \<le> unat (s - (s + 1))" for s :: u32
proof -
  have "s - (s + 1) = - 1" by simp
  then show "n < 2 ^ 32 \<Longrightarrow> n \<le> unat (s - (s + 1))"
    by (simp add: unsigned_minus_1_eq_mask mask_eq_exp_minus_1)
qed

lemma mread_mset: "n \<le> 2 ^ 32 \<Longrightarrow> mread (mset m s c n) s n = replicate n c"
  by (auto simp: mread_def mset_def unsigned_of_nat take_bit_nat_eq_self intro!: nth_equalityI)

lemma strncpy_first: "n < 2 ^ 32 \<Longrightarrow> strncpy m (s + 1) t n s = m s"
  by (rule strncpy_frame) (rule before_frame)

lemma mset_first: "n < 2 ^ 32 \<Longrightarrow> mset m (s + 1) c n s = m s"
  by (rule mset_frame) (rule before_frame)

lemma take_zeros: "take n (xs @ replicate (Suc n) z) = take n (xs @ replicate n z)"
  by (simp add: take_append del: replicate_Suc)

lemma strncpy_content:
  "n \<le> 2 ^ 32 \<Longrightarrow> sep s t n \<Longrightarrow>
   mread (strncpy m s t n) s n = take n (cstr (mread m t n) @ replicate n 0)"
proof (induction n arbitrary: m s t)
  case (Suc n)
  note sp = sep_Suc [OF Suc.prems(2)]
  have n: "n < 2 ^ 32" using Suc.prems by simp
  show ?case
  proof (cases "m t = 0")
    case True
    then show ?thesis using n
      by (simp add: mread_Suc strncpy_pad_mset mset_first mread_mset)
  next
    case False
    have "mread (strncpy (m(s := m t)) (s + 1) (t + 1) n) (s + 1) n
        = take n (cstr (mread m (t + 1) n) @ replicate n 0)"
      by (subst Suc.IH) (use n sp Suc.prems mread_upd_sep in simp_all)
    then show ?thesis using False n take_zeros [of n "cstr (mread m (t + 1) n)" 0]
      by (simp add: mread_Suc strncpy_first del: replicate_Suc)
  qed
qed simp

lemma sep_next: "sep s t (Suc n) \<Longrightarrow> i < n \<Longrightarrow> t + 1 + of_nat i \<noteq> s"
  using sep_Suc(2) [of s t n "Suc i"] by (simp add: algebra_simps)

lemma safestrcpy_loop_cstr:
  "k < 2 ^ 32 - 1 \<Longrightarrow> sep s t (Suc k) \<Longrightarrow>
   cstr (mread (safestrcpy_loop m s t k) s (Suc k)) = cstr (mread m t k)"
proof (induction k arbitrary: m s t)
  case (Suc k)
  note sp = sep_Suc [OF Suc.prems(2)]
  show ?case
  proof (cases "m t = 0")
    case True
    then show ?thesis by (simp add: mread_Suc)
  next
    case False
    have "Suc k \<le> unat (s - (s + 1))" using Suc.prems(1) by (intro before_frame) simp
    then have "safestrcpy_loop (m(s := m t)) (s + 1) (t + 1) k s = m t"
      using safestrcpy_frame [of "int (Suc k)" s "s + 1" "m(s := m t)" "t + 1"]
      by (simp add: safestrcpy_def)
    moreover have "cstr (mread (safestrcpy_loop (m(s := m t)) (s + 1) (t + 1) k) (s + 1) (Suc k))
        = cstr (mread m (t + 1) k)"
      by (subst Suc.IH) (use Suc.prems sp in \<open>simp_all add: mread_upd_out sep_next\<close>)
    ultimately show ?thesis using False
      by (simp add: mread_Suc [of _ s] mread_Suc [of _ t] Let_def)
  qed
qed (simp add: mread_Suc)

lemma safestrcpy_content:
  assumes "0 < n" "n < 2 ^ 32" "sep s t (nat n)"
  shows "cstr (mread (safestrcpy m s t n) s (nat n)) = cstr (mread m t (nat n - 1))"
  using assms safestrcpy_loop_cstr [of "nat (n - 1)" s t m]
  by (simp add: safestrcpy_def nat_diff_distrib Suc_diff_1 Suc_nat_eq_nat_zadd1)

lemma strlen_from_scan:
  "(\<forall>i < k. m (s + of_nat (n + i)) \<noteq> 0) \<Longrightarrow> m (s + of_nat (n + k)) = 0 \<Longrightarrow>
   strlen_from m s n = Some (n + k)"
proof (induction k arbitrary: n)
  case 0
  then show ?case by (simp add: strlen_from.simps)
next
  case (Suc k)
  have "strlen_from m s (Suc n) = Some (Suc n + k)"
    using Suc.prems by (intro Suc.IH) (auto simp del: of_nat_add of_nat_Suc
        dest: spec [of _ "Suc _"])
  then show ?case using Suc.prems(1) by (subst strlen_from.simps) (simp, metis add.right_neutral of_nat_add of_nat_0 zero_less_Suc)
qed

lemma strlen_cstr: "0 \<in> set (mread m s n) \<Longrightarrow> strlen m s = Some (length (cstr (mread m s n)))"
  unfolding strlen_def
proof (subst strlen_from_scan [of "length (cstr (mread m s n))"])
  assume z: "0 \<in> set (mread m s n)"
  let ?c = "cstr (mread m s n)"
  have "?c \<noteq> mread m s n" using z cstr_nonzero [of "mread m s n"] by metis
  then have "length ?c < n"
    by (metis cstr_def length_cstr length_mread le_neq_implies_less takeWhile_eq_take take_all_iff order_refl)
  moreover from this have "(mread m s n) ! length ?c = 0"
    using nth_length_takeWhile [of "\<lambda>b. b \<noteq> 0" "mread m s n"] by (simp add: cstr_def)
  ultimately show "m (s + of_nat (0 + length ?c)) = 0" by (simp add: mread_def)
  show "\<forall>i < length ?c. m (s + of_nat (0 + i)) \<noteq> 0"
  proof (intro allI impI)
    fix i assume i: "i < length ?c"
    then have "?c ! i = mread m s n ! i" by (simp add: cstr_def takeWhile_nth)
    moreover have "?c ! i \<noteq> 0" using i cstr_nonzero by (metis nth_mem)
    ultimately show "m (s + of_nat (0 + i)) \<noteq> 0"
      using i \<open>length ?c < n\<close> by (simp add: mread_def)
  qed
qed simp

end
