(* ===== verification/Kalloc.thy ===== *)
theory Kalloc
  imports Sleeplock Kstring
begin

text \<open>
  The physical page allocator, \<^verbatim>\<open>src/xv6/kalloc.c\<close>. Physical memory is addressed through the
  kernel's mapping (kernel virtual addresses); the free list is threaded through the first word of
  every free page, as in the code. \<open>kend\<close> and \<open>kdata\<close> are the
  linker's symbols \<^verbatim>\<open>end\<close> and \<^verbatim>\<open>data\<close>. The refinement relation
  \<open>free_pages\<close> says which list of pages the pointer chain stands for.
\<close>

section \<open>State\<close>

record kmstate = slstate +
  pmem :: mem
  kfreelist :: u32
  kuse_lock :: bool
  kend :: u32
  kdata :: u32

definition PGSIZE :: u32 where "PGSIZE = 4096"
definition PHYSTOP :: u32 where "PHYSTOP = 0xE000000"

definition PGROUNDUP :: "u32 \<Rightarrow> u32" where
  "PGROUNDUP a = (a + PGSIZE - 1) AND NOT (PGSIZE - 1)"

definition PGROUNDDOWN :: "u32 \<Rightarrow> u32" where
  "PGROUNDDOWN a = a AND NOT (PGSIZE - 1)"

section \<open>Operations\<close>

definition kmod_mem :: "(mem \<Rightarrow> mem) \<Rightarrow> ('z kmstate_scheme, unit) kern" where
  "kmod_mem f = kmod (\<lambda>s. s\<lparr>pmem := f (pmem s)\<rparr>)"

definition kfree :: "u32 \<Rightarrow> ('z kmstate_scheme, unit) kern" where
  "kfree v =
     kbind (kget kend) (\<lambda>e.
     kseq (panic_if (v mod PGSIZE \<noteq> 0 \<or> v < e \<or> V2P v \<ge> PHYSTOP) ''kfree'')
     (kseq (kmod_mem (\<lambda>m. memset m v 1 PGSIZE))
     (kbind (kget kuse_lock) (\<lambda>ul.
      kseq (kwhen ul (acquire KmemLk))
      (kseq (kmod (\<lambda>s. s\<lparr>pmem := store32 (pmem s) v (kfreelist s)\<rparr>))
      (kseq (kmod (\<lambda>s. s\<lparr>kfreelist := v\<rparr>))
       (kwhen ul (release KmemLk))))))))"

definition kalloc :: "('z kmstate_scheme, u32) kern" where
  "kalloc =
     kbind (kget kuse_lock) (\<lambda>ul.
     kseq (kwhen ul (acquire KmemLk))
     (kbind (kget kfreelist) (\<lambda>r.
      kseq (kwhen (r \<noteq> 0) (kmod (\<lambda>s. s\<lparr>kfreelist := load32 (pmem s) r\<rparr>)))
      (kseq (kwhen ul (release KmemLk))
       (kret r)))))"

fun freerange_loop :: "nat \<Rightarrow> u32 \<Rightarrow> u32 \<Rightarrow> ('z kmstate_scheme, unit) kern" where
  "freerange_loop 0 p vend = khang"
| "freerange_loop (Suc k) p vend =
     (if p + PGSIZE \<le> vend then kseq (kfree p) (freerange_loop k (p + PGSIZE) vend) else kret ())"

text \<open>There are \<open>2 ^ 20\<close> page addresses, so the loop cannot make more rounds without repeating.\<close>

definition freerange :: "u32 \<Rightarrow> u32 \<Rightarrow> ('z kmstate_scheme, unit) kern" where
  "freerange vstart vend = freerange_loop (2 ^ 20 + 1) (PGROUNDUP vstart) vend"

definition kinit1 :: "u32 \<Rightarrow> u32 \<Rightarrow> ('z kmstate_scheme, unit) kern" where
  "kinit1 vstart vend =
     kseq (initlock KmemLk)
     (kseq (kmod (\<lambda>s. s\<lparr>kuse_lock := False\<rparr>)) (freerange vstart vend))"

definition kinit2 :: "u32 \<Rightarrow> u32 \<Rightarrow> ('z kmstate_scheme, unit) kern" where
  "kinit2 vstart vend = kseq (freerange vstart vend) (kmod (\<lambda>s. s\<lparr>kuse_lock := True\<rparr>))"

section \<open>The free list\<close>

primrec flist :: "mem \<Rightarrow> u32 \<Rightarrow> u32 list \<Rightarrow> bool" where
  "flist m p [] \<longleftrightarrow> p = 0"
| "flist m p (x # xs) \<longleftrightarrow> p = x \<and> x \<noteq> 0 \<and> flist m (load32 m x) xs"

definition page_ok :: "u32 \<Rightarrow> u32 \<Rightarrow> bool" where
  "page_ok e v \<longleftrightarrow> v mod PGSIZE = 0 \<and> e \<le> v \<and> V2P v < PHYSTOP"

definition free_pages :: "('z kmstate_scheme) \<Rightarrow> u32 list \<Rightarrow> bool" where
  "free_pages s xs \<longleftrightarrow> flist (pmem s) (kfreelist s) xs \<and> distinct xs
     \<and> (\<forall>x \<in> set xs. page_ok (kend s) x)"

definition in_page :: "u32 \<Rightarrow> u32 \<Rightarrow> bool" where
  "in_page v x \<longleftrightarrow> unat (x - v) < 4096"

lemma page_ok_nonzero: "page_ok e v \<Longrightarrow> v \<noteq> 0"
  by (auto simp: page_ok_def V2P_def PHYSTOP_def KERNBASE_def)

lemma pages_apart:
  assumes "a mod 4096 = 0" "b mod 4096 = 0" "a \<noteq> b" "i < 4096"
  shows "4096 \<le> unat (a + of_nat i - (b :: u32))"
proof -
  have ab: "unat a mod 4096 = 0" "unat b mod 4096 = 0"
    using assms(1,2) unat_mod_distrib [of a 4096] unat_mod_distrib [of b 4096] by simp_all
  then have "4096 dvd unat a" "4096 dvd unat b" by (simp_all add: mod_eq_0_iff_dvd)
  then obtain x y where xy: "unat a = 4096 * x" "unat b = 4096 * y"
    by (auto simp: dvd_def)
  have "x \<noteq> y" using xy assms(3) by (metis word_unat_eq_iff)
  have lt: "x < 1048576" "y < 1048576"
    using xy unat_u32 [of a] unat_u32 [of b] by simp_all
  have ai: "unat (a + of_nat i) = 4096 * x + i"
    using xy lt assms(4) by (subst unat_word_ariths) (simp add: unat_of_nat32)
  consider "x + 1 \<le> y" | "y + 1 \<le> x" using \<open>x \<noteq> y\<close> by linarith
  then show ?thesis
    using xy lt assms(4) ai by cases (simp_all add: unat_sub_if')
qed

lemma flist_cong:
  "flist m p xs \<Longrightarrow> (\<And>x y. x \<in> set xs \<Longrightarrow> in_page x y \<Longrightarrow> m' y = m y) \<Longrightarrow> flist m' p xs"
proof (induction xs arbitrary: p)
  case (Cons x xs)
  have "load32 m' x = load32 m x"
  proof (rule load32_cong)
    fix i :: nat assume "i < 4"
    then have "in_page x (x + of_nat i)"
      by (simp add: in_page_def unsigned_of_nat take_bit_nat_eq_self)
    then show "m' (x + of_nat i) = m (x + of_nat i)" by (intro Cons.prems(2)) simp_all
  qed
  then show ?case using Cons by auto
qed simp

lemma flist_unique: "flist m p xs \<Longrightarrow> flist m p ys \<Longrightarrow> xs = ys"
proof (induction xs arbitrary: p ys)
  case Nil
  then show ?case by (cases ys) auto
next
  case (Cons x xs)
  then show ?case by (cases ys) auto
qed

section \<open>Effect of the operations\<close>

definition kmem_ready :: "('z kmstate_scheme) \<Rightarrow> bool" where
  "kmem_ready s \<longleftrightarrow> kuse_lock s \<longrightarrow> can_acq KmemLk (spin s)"

definition kfreed :: "u32 \<Rightarrow> mem \<Rightarrow> u32 \<Rightarrow> mem" where
  "kfreed v m fl = store32 (mset m v 1 4096) v fl"

lemma kfree_check:
  "(v mod PGSIZE \<noteq> 0 \<or> v < e \<or> V2P v \<ge> PHYSTOP) = (\<not> page_ok e v)"
  by (auto simp: page_ok_def not_less not_le)

lemma kfree_run [kexec]:
  assumes "kmem_ready s" "page_ok (kend s) v"
  shows "kfree v s = Ret () (s\<lparr>pmem := kfreed v (pmem s) (kfreelist s), kfreelist := v\<rparr>)"
  using assms can_acqD [of KmemLk "spin s"]
  unfolding kfree_def kfree_check
  by (cases "kuse_lock s")
     (simp_all add: kexec kmod_mem_def kfreed_def memset_mset kmem_ready_def
       PGSIZE_def)

lemma kfree_panics:
  "\<not> page_ok (kend s) v \<Longrightarrow> kfree v s = Panic ''kfree''"
  unfolding kfree_def kfree_check by (simp add: kexec)

lemma kalloc_run [kexec]:
  assumes "kmem_ready s"
  shows "kalloc s = Ret (kfreelist s)
     (if kfreelist s = 0 then s else s\<lparr>kfreelist := load32 (pmem s) (kfreelist s)\<rparr>)"
  using assms can_acqD [of KmemLk "spin s"]
  by (cases "kuse_lock s") (auto simp: kalloc_def kexec kmem_ready_def)

lemma store32_frame: "4 \<le> unat (x - v) \<Longrightarrow> store32 m v w x = m x"
proof -
  assume "4 \<le> unat (x - v)"
  then have "x \<noteq> v + of_nat i" if "i < 4" for i
    using that by (auto simp: unat_of_nat32)
  from this [of 0] this [of 1] this [of 2] this [of 3] show ?thesis
    by (simp add: store32_def)
qed

lemma kfreed_frame: "\<not> in_page v x \<Longrightarrow> kfreed v m fl x = m x"
  by (simp add: kfreed_def in_page_def store32_frame mset_def)

lemma in_page_apart:
  assumes "page_ok e a" "page_ok e' b" "a \<noteq> b" "in_page a x"
  shows "\<not> in_page b x"
proof -
  have "x = a + of_nat (unat (x - a))" by simp
  then show ?thesis
    using pages_apart [of a b "unat (x - a)"] assms
    by (auto simp: page_ok_def in_page_def PGSIZE_def)
qed

lemma free_pages_kfree:
  assumes "free_pages s xs" "page_ok (kend s) v" "v \<notin> set xs"
  shows "free_pages (s\<lparr>pmem := kfreed v (pmem s) (kfreelist s), kfreelist := v\<rparr>) (v # xs)"
proof -
  have "flist (kfreed v (pmem s) (kfreelist s)) (kfreelist s) xs"
  proof (rule flist_cong)
    show "flist (pmem s) (kfreelist s) xs" using assms by (simp add: free_pages_def)
    show "kfreed v (pmem s) (kfreelist s) y = pmem s y" if "x \<in> set xs" "in_page x y" for x y
      using assms that in_page_apart [of "kend s" x "kend s" v y]
      by (intro kfreed_frame) (auto simp: free_pages_def)
  qed
  moreover have "load32 (kfreed v (pmem s) (kfreelist s)) v = kfreelist s"
    by (simp add: kfreed_def)
  ultimately show ?thesis using assms page_ok_nonzero [OF assms(2)] by (simp add: free_pages_def)
qed

lemma free_pages_kalloc:
  assumes "free_pages s xs"
  shows "if kfreelist s = 0 then xs = []
    else \<exists>ys. xs = kfreelist s # ys \<and> free_pages (s\<lparr>kfreelist := load32 (pmem s) (kfreelist s)\<rparr>) ys"
  using assms by (cases xs) (auto simp: free_pages_def)

lemma kfree_frame:
  "kmem_ready s \<Longrightarrow> page_ok (kend s) v \<Longrightarrow> kfree v s = Ret () s' \<Longrightarrow> \<not> in_page v x \<Longrightarrow> pmem s' x = pmem s x"
  by (auto simp: kexec kfreed_frame)

section \<open>Initialisation\<close>

text \<open>The pages \<open>freerange\<close> frees, from \<open>p\<close> on.\<close>

definition range_pages :: "u32 \<Rightarrow> nat \<Rightarrow> u32 list" where
  "range_pages p n = map (\<lambda>i. p + of_nat i * PGSIZE) [0..<n]"

lemma range_pages_Suc: "range_pages p (Suc n) = p # range_pages (p + PGSIZE) n"
  by (simp add: range_pages_def upt_conv_Cons map_Suc_upt [symmetric] algebra_simps del: upt_Suc)

lemma range_pages_0 [simp]: "range_pages p 0 = []"
  by (simp add: range_pages_def)

text \<open>
  With \<open>n\<close> whole pages between \<open>p\<close> and \<open>vend\<close>, all of them valid, the loop returns and has
  pushed exactly these pages.
\<close>

lemma freerange_loop_run:
  assumes "kmem_ready s" "free_pages s xs" "n < k"
    "unat p + 4096 * n \<le> unat vend" "unat vend < unat p + 4096 * (n + 1)" "unat p + 4096 < 2 ^ 32"
    "unat vend < 2 ^ 32 - 4096"
    "\<forall>v \<in> set (range_pages p n). page_ok (kend s) v"
    "set (range_pages p n) \<inter> set xs = {}" "distinct (range_pages p n)"
  shows "\<exists>s'. freerange_loop k p vend s = Ret () s'
     \<and> free_pages s' (rev (range_pages p n) @ xs) \<and> kmem_ready s' \<and> kend s' = kend s
     \<and> spin s' = spin s"
  using assms
proof (induction n arbitrary: s p xs k)
  case 0
  then obtain k' where k: "k = Suc k'" by (cases k) auto
  have "unat (p + PGSIZE) = unat p + 4096"
    using 0 by (simp add: PGSIZE_def unat_word_ariths)
  then have "\<not> p + PGSIZE \<le> vend" using 0 by (simp add: word_le_nat_alt)
  then show ?case using 0 k by (simp add: kexec)
next
  case (Suc n)
  then obtain k' where k: "k = Suc k'" by (cases k) auto
  have up: "unat (p + PGSIZE) = unat p + 4096"
    using Suc.prems by (simp add: PGSIZE_def unat_word_ariths)
  then have le: "p + PGSIZE \<le> vend" using Suc.prems by (simp add: word_le_nat_alt)
  let ?s = "s\<lparr>pmem := kfreed p (pmem s) (kfreelist s), kfreelist := p\<rparr>"
  have pg: "page_ok (kend s) p" "p \<notin> set xs" and
    rest: "\<forall>v \<in> set (range_pages (p + PGSIZE) n). page_ok (kend s) v"
      "set (range_pages (p + PGSIZE) n) \<inter> set (p # xs) = {}" "distinct (range_pages (p + PGSIZE) n)"
    using Suc.prems(8-10) by (auto simp: range_pages_Suc)
  have "\<exists>s'. freerange_loop k' (p + PGSIZE) vend ?s = Ret () s'
     \<and> free_pages s' (rev (range_pages (p + PGSIZE) n) @ p # xs) \<and> kmem_ready s'
     \<and> kend s' = kend ?s \<and> spin s' = spin ?s"
  proof (rule Suc.IH)
    show "free_pages ?s (p # xs)" by (rule free_pages_kfree [OF Suc.prems(2) pg])
    show "kmem_ready ?s" using Suc.prems(1) by (simp add: kmem_ready_def)
  qed (use Suc.prems k up rest in auto)
  then show ?case using le k Suc.prems(1) pg(1)
    by (auto simp: kexec range_pages_Suc)
qed

end
