(* ===== verification/Ring.thy ===== *)
theory Ring
  imports Main
begin

text \<open>
  Circular doubly linked lists through index-valued \<open>next\<close> and \<open>prev\<close> fields, and the abstraction
  to the list of the elements after the head. Used for the buffer cache (\<^verbatim>\<open>src/xv6/bio.c\<close>).
\<close>

primrec path :: "('a \<Rightarrow> 'a) \<Rightarrow> 'a \<Rightarrow> 'a list \<Rightarrow> 'a \<Rightarrow> bool" where
  "path nx a [] b \<longleftrightarrow> nx a = b"
| "path nx a (x # xs) b \<longleftrightarrow> nx a = x \<and> path nx x xs b"

definition ring :: "('a \<Rightarrow> 'a) \<Rightarrow> ('a \<Rightarrow> 'a) \<Rightarrow> 'a \<Rightarrow> 'a list \<Rightarrow> bool" where
  "ring nx pv h xs \<longleftrightarrow> path nx h xs h \<and> path pv h (rev xs) h \<and> distinct (h # xs)"

lemma path_append [simp]: "path nx a (xs @ y # ys) b \<longleftrightarrow> path nx a xs y \<and> path nx y ys b"
  by (induction xs arbitrary: a) auto

lemma path_upd_out: "c \<notin> set (a # xs) \<Longrightarrow> path (nx(c := v)) a xs b = path nx a xs b"
  by (induction xs arbitrary: a) auto

lemma path_end: "path nx a xs b \<Longrightarrow> nx (last (a # xs)) = b"
  by (induction xs arbitrary: a) (auto split: if_splits)

lemma path_redirect:
  "path nx a xs b \<Longrightarrow> distinct (a # xs) \<Longrightarrow> path (nx(last (a # xs) := c)) a xs c"
proof (induction xs arbitrary: a)
  case (Cons x xs)
  have "path (nx(last (x # xs) := c)) x xs c"
    using Cons.IH [of x] Cons.prems by (simp add: fun_upd_def del: last.simps)
  moreover have "last (x # xs) \<noteq> a" using Cons.prems(2) by (metis distinct.simps(2) last_in_set list.discI)
  moreover have "last (a # x # xs) = last (x # xs)" by simp
  ultimately show ?case using Cons.prems(1) by (simp add: fun_upd_def del: last.simps)
qed simp

lemma path_hd: "path nx a xs b \<Longrightarrow> nx a = hd (xs @ [b])"
  by (cases xs) auto

lemma path_skip:
  assumes "path nx h (ys @ x # zs) h" "distinct (h # ys @ x # zs)"
  shows "path (nx(last (h # ys) := nx x)) h (ys @ zs) h"
proof -
  have y: "path nx h ys x" and z: "path nx x zs h" using assms(1) by simp_all
  have d: "distinct (h # ys)" using assms(2) by auto
  show ?thesis
  proof (cases zs)
    case Nil
    then show ?thesis using path_redirect [OF y d] z by auto
  next
    case (Cons w ws)
    have "last (h # ys) \<notin> set (w # ws)"
      using assms(2) Cons last_in_set [of "h # ys"] by auto
    then show ?thesis using Cons z path_redirect [OF y d, of "nx x"]
      by (simp add: path_upd_out del: last.simps)
  qed
qed

lemma ring_ends:
  assumes "ring nx pv h (ys @ x # zs)"
  shows "pv x = last (h # ys)" "nx x = last (h # rev zs)"
proof -
  have "path pv x (rev ys) h" "path nx x zs h" using assms by (simp_all add: ring_def)
  then show "pv x = last (h # ys)" "nx x = last (h # rev zs)"
    by (auto dest!: path_hd simp: hd_append hd_rev last_rev)
qed

lemma ring_sym: "ring nx pv h xs \<longleftrightarrow> ring pv nx h (rev xs)"
  by (auto simp: ring_def)

lemma ring_unlink:
  assumes "ring nx pv h (ys @ x # zs)"
  shows "ring (nx(pv x := nx x)) (pv(nx x := pv x)) h (ys @ zs)"
proof -
  have r: "path nx h (ys @ x # zs) h" "path pv h (rev zs @ x # rev ys) h"
    "distinct (h # ys @ x # zs)"
    using assms by (simp_all add: ring_def)
  have "path (nx(pv x := nx x)) h (ys @ zs) h"
    using path_skip [OF r(1,3)] ring_ends [OF assms] by simp
  moreover have "path (pv(nx x := pv x)) h (rev zs @ rev ys) h"
  proof -
    have "distinct (h # rev zs @ x # rev ys)" using r(3) by auto
    then show ?thesis using path_skip [OF r(2)] ring_ends [OF assms] by simp
  qed
  ultimately show ?thesis using r(3) by (auto simp: ring_def)
qed

lemma ring_push:
  assumes "ring nx pv h xs" "x \<notin> set (h # xs)"
  shows "ring (nx(x := nx h, h := x)) (pv(x := h, nx h := x)) h (x # xs)"
proof (cases xs)
  case Nil
  then show ?thesis using assms by (auto simp: ring_def)
next
  case (Cons w ws)
  have r: "path nx h (w # ws) h" "path pv h (rev ws @ [w]) h" "distinct (h # w # ws)"
    using assms(1) Cons by (simp_all add: ring_def)
  have w: "nx h = w" using r(1) by simp
  have "path (nx(x := w, h := x)) h (x # w # ws) h"
    using r assms(2) Cons by (auto simp: path_upd_out)
  moreover have "path (pv(x := h, w := x)) h (rev ws @ [w, x]) h"
  proof -
    have "path pv h (rev ws) w" using r(2) by simp
    then have "path (pv(x := h, w := x)) h (rev ws) w"
      using r(3) assms(2) Cons by (subst path_upd_out, force)+
    then show ?thesis using assms(2) Cons by auto
  qed
  ultimately show ?thesis using r(3) assms(2) Cons w by (auto simp: ring_def)
qed

lemma ring_move_front:
  assumes "ring nx pv h xs" "x \<in> set xs"
    and "nx1 = nx(pv x := nx x)" "pv1 = pv(nx x := pv x)"
  shows "ring (nx1(x := nx1 h, h := x)) (pv1(x := h, nx1 h := x)) h (x # remove1 x xs)"
proof -
  obtain ys zs where xs: "xs = ys @ x # zs" using assms(2) by (auto simp: in_set_conv_decomp)
  have d: "distinct (h # xs)" using assms(1) by (simp add: ring_def)
  then have "remove1 x xs = ys @ zs" using xs by (simp add: remove1_append)
  moreover have "ring nx1 pv1 h (ys @ zs)"
    using ring_unlink assms(1,3,4) xs by simp
  moreover have "x \<notin> set (h # ys @ zs)" using d xs by auto
  ultimately show ?thesis by (metis ring_push)
qed

end
