(* ===== verification/Bio.thy ===== *)
theory Bio
  imports Kalloc Ring
begin

text \<open>
  The buffer cache, \<^verbatim>\<open>src/xv6/bio.c\<close>, over the memory disk of \<^verbatim>\<open>src/xv6/memide.c\<close>. A buffer
  pointer is its index in \<^verbatim>\<open>bcache.buf\<close>; \<^verbatim>\<open>&bcache.head\<close> is the index \<open>NBUF\<close>. The list through
  \<open>prev\<close> and \<open>next\<close> is kept as pointers and related to a list by \<open>ring\<close>. \<open>wtrace\<close> records, in
  order, every block written to the disk; no code reads it.
\<close>

section \<open>State\<close>

definition BSIZE :: nat where "BSIZE = 512"
definition NBUF :: nat where "NBUF = 30"

record buf =
  b_valid :: bool
  b_dirty :: bool
  b_dev :: nat
  b_blockno :: nat
  b_refcnt :: u32
  b_prev :: nat
  b_next :: nat
  b_data :: bytes

record bstate = kmstate +
  memdisk :: "nat \<Rightarrow> bytes"
  disksize :: nat
  wtrace :: "(nat \<times> bytes) list"
  bufs :: "nat \<Rightarrow> buf"

abbreviation bhead :: nat where "bhead \<equiv> NBUF"

section \<open>Operations\<close>

definition kmod_buf :: "nat \<Rightarrow> (buf \<Rightarrow> buf) \<Rightarrow> ('z bstate_scheme, unit) kern" where
  "kmod_buf i f = kmod (\<lambda>s. s\<lparr>bufs := (bufs s)(i := f (bufs s i))\<rparr>)"

text \<open>\<^verbatim>\<open>iderw\<close> of \<^verbatim>\<open>memide.c\<close>.\<close>

definition iderw :: "nat \<Rightarrow> ('z bstate_scheme, unit) kern" where
  "iderw b =
     kbind (holdingsleep (BufLk b)) (\<lambda>h.
     kseq (panic_if (\<not> h) ''iderw: buf not locked'')
     (kbind (kget (\<lambda>s. bufs s b)) (\<lambda>x.
      kseq (panic_if (b_valid x \<and> \<not> b_dirty x) ''iderw: nothing to do'')
      (kseq (panic_if (b_dev x \<noteq> 1) ''iderw: request not for disk 1'')
      (kbind (kget disksize) (\<lambda>n.
       kseq (panic_if (b_blockno x \<ge> n) ''iderw: block out of range'')
       (kseq (if b_dirty x then
                kseq (kmod_buf b (\<lambda>y. y\<lparr>b_dirty := False\<rparr>))
                (kmod (\<lambda>s. s\<lparr>memdisk := (memdisk s)(b_blockno x := b_data x),
                           wtrace := wtrace s @ [(b_blockno x, b_data x)]\<rparr>))
              else kbind (kget (\<lambda>s. memdisk s (b_blockno x))) (\<lambda>d.
                   kmod_buf b (\<lambda>y. y\<lparr>b_data := d\<rparr>)))
        (kmod_buf b (\<lambda>y. y\<lparr>b_valid := True\<rparr>)))))))))"

definition binit_one :: "nat \<Rightarrow> ('z bstate_scheme, unit) kern" where
  "binit_one b =
     kbind (kget (\<lambda>s. b_next (bufs s bhead))) (\<lambda>f.
     kseq (kmod_buf b (\<lambda>y. y\<lparr>b_next := f\<rparr>))
     (kseq (kmod_buf b (\<lambda>y. y\<lparr>b_prev := bhead\<rparr>))
     (kseq (initsleeplock (BufLk b))
     (kseq (kmod_buf f (\<lambda>y. y\<lparr>b_prev := b\<rparr>))
      (kmod_buf bhead (\<lambda>y. y\<lparr>b_next := b\<rparr>))))))"

definition binit :: "('z bstate_scheme, unit) kern" where
  "binit =
     kseq (initlock BcacheLk)
     (kseq (kmod_buf bhead (\<lambda>y. y\<lparr>b_prev := bhead\<rparr>))
     (kseq (kmod_buf bhead (\<lambda>y. y\<lparr>b_next := bhead\<rparr>))
      (kfor [0..<NBUF] binit_one)))"

text \<open>
  The two loops of \<open>bget\<close>, bounded by the number of buffers plus the head; running out of the bound
  is a list that never comes back to the head.
\<close>

fun bget_find :: "nat \<Rightarrow> nat \<Rightarrow> nat \<Rightarrow> nat \<Rightarrow> ('z bstate_scheme, nat option) kern" where
  "bget_find 0 b dev blockno = khang"
| "bget_find (Suc k) b dev blockno =
     (if b = bhead then kret None
      else kbind (kget (\<lambda>s. bufs s b)) (\<lambda>x.
           if b_dev x = dev \<and> b_blockno x = blockno then kret (Some b)
           else bget_find k (b_next x) dev blockno))"

fun bget_recycle :: "nat \<Rightarrow> nat \<Rightarrow> ('z bstate_scheme, nat option) kern" where
  "bget_recycle 0 b = khang"
| "bget_recycle (Suc k) b =
     (if b = bhead then kret None
      else kbind (kget (\<lambda>s. bufs s b)) (\<lambda>x.
           if b_refcnt x = 0 \<and> \<not> b_dirty x then kret (Some b)
           else bget_recycle k (b_prev x)))"

definition bget :: "nat \<Rightarrow> nat \<Rightarrow> ('z bstate_scheme, nat) kern" where
  "bget dev blockno =
     kseq (acquire BcacheLk)
     (kbind (kget (\<lambda>s. b_next (bufs s bhead))) (\<lambda>f.
      kbind (bget_find (NBUF + 1) f dev blockno) (\<lambda>r. case r of
        Some b \<Rightarrow>
          kseq (kmod_buf b (\<lambda>y. y\<lparr>b_refcnt := b_refcnt y + 1\<rparr>))
          (kseq (release BcacheLk)
          (kseq (acquiresleep (BufLk b)) (kret b)))
      | None \<Rightarrow>
          kbind (kget (\<lambda>s. b_prev (bufs s bhead))) (\<lambda>l.
          kbind (bget_recycle (NBUF + 1) l) (\<lambda>r. case r of
            Some b \<Rightarrow>
              kseq (kmod_buf b (\<lambda>y. y\<lparr>b_dev := dev\<rparr>))
              (kseq (kmod_buf b (\<lambda>y. y\<lparr>b_blockno := blockno\<rparr>))
              (kseq (kmod_buf b (\<lambda>y. y\<lparr>b_valid := False, b_dirty := False\<rparr>))
              (kseq (kmod_buf b (\<lambda>y. y\<lparr>b_refcnt := 1\<rparr>))
              (kseq (release BcacheLk)
              (kseq (acquiresleep (BufLk b)) (kret b))))))
          | None \<Rightarrow> kpanic ''bget: no buffers'')))))"

definition bread :: "nat \<Rightarrow> nat \<Rightarrow> ('z bstate_scheme, nat) kern" where
  "bread dev blockno =
     kbind (bget dev blockno) (\<lambda>b.
     kbind (kget (\<lambda>s. b_valid (bufs s b))) (\<lambda>v.
     kseq (kwhen (\<not> v) (iderw b)) (kret b)))"

definition bwrite :: "nat \<Rightarrow> ('z bstate_scheme, unit) kern" where
  "bwrite b =
     kbind (holdingsleep (BufLk b)) (\<lambda>h.
     kseq (panic_if (\<not> h) ''bwrite'')
     (kseq (kmod_buf b (\<lambda>y. y\<lparr>b_dirty := True\<rparr>))
      (iderw b)))"

definition brelse_unlink :: "nat \<Rightarrow> ('z bstate_scheme, unit) kern" where
  "brelse_unlink b =
     kbind (kget (\<lambda>s. bufs s b)) (\<lambda>x.
     kseq (kmod_buf (b_next x) (\<lambda>y. y\<lparr>b_prev := b_prev x\<rparr>))
     (kbind (kget (\<lambda>s. bufs s b)) (\<lambda>x.
      kseq (kmod_buf (b_prev x) (\<lambda>y. y\<lparr>b_next := b_next x\<rparr>))
      (kbind (kget (\<lambda>s. b_next (bufs s bhead))) (\<lambda>f.
       kseq (kmod_buf b (\<lambda>y. y\<lparr>b_next := f\<rparr>))
       (kseq (kmod_buf b (\<lambda>y. y\<lparr>b_prev := bhead\<rparr>))
       (kbind (kget (\<lambda>s. b_next (bufs s bhead))) (\<lambda>f.
        kseq (kmod_buf f (\<lambda>y. y\<lparr>b_prev := b\<rparr>))
        (kmod_buf bhead (\<lambda>y. y\<lparr>b_next := b\<rparr>))))))))))"

definition brelse :: "nat \<Rightarrow> ('z bstate_scheme, unit) kern" where
  "brelse b =
     kbind (holdingsleep (BufLk b)) (\<lambda>h.
     kseq (panic_if (\<not> h) ''brelse'')
     (kseq (releasesleep (BufLk b))
     (kseq (acquire BcacheLk)
     (kseq (kmod_buf b (\<lambda>y. y\<lparr>b_refcnt := b_refcnt y - 1\<rparr>))
     (kbind (kget (\<lambda>s. b_refcnt (bufs s b))) (\<lambda>r.
      kseq (kwhen (r = 0) (brelse_unlink b))
      (release BcacheLk)))))))"

section \<open>The list of buffers\<close>

definition bring :: "('z bstate_scheme) \<Rightarrow> nat list \<Rightarrow> bool" where
  "bring s xs \<longleftrightarrow> ring (\<lambda>i. b_next (bufs s i)) (\<lambda>i. b_prev (bufs s i)) bhead xs
     \<and> set xs = {..<NBUF}"

definition is_block :: "('z bstate_scheme) \<Rightarrow> nat \<Rightarrow> nat \<Rightarrow> nat \<Rightarrow> bool" where
  "is_block s dev bn i \<longleftrightarrow> b_dev (bufs s i) = dev \<and> b_blockno (bufs s i) = bn"

definition recyclable :: "('z bstate_scheme) \<Rightarrow> nat \<Rightarrow> bool" where
  "recyclable s i \<longleftrightarrow> b_refcnt (bufs s i) = 0 \<and> \<not> b_dirty (bufs s i)"

lemma bget_find_path:
  "path (\<lambda>i. b_next (bufs s i)) a xs bhead \<Longrightarrow> bhead \<notin> set xs \<Longrightarrow> length xs < k \<Longrightarrow>
   bget_find k (b_next (bufs s a)) dev bn s = Ret (find (is_block s dev bn) xs) s"
proof (induction xs arbitrary: a k)
  case Nil
  then show ?case by (cases k) (auto simp: kexec)
next
  case (Cons x xs)
  then obtain k' where k: "k = Suc k'" by (cases k) auto
  show ?case
  proof (cases "is_block s dev bn x")
    case True
    then show ?thesis using Cons.prems k by (auto simp: kexec is_block_def)
  next
    case False
    have "bget_find k' (b_next (bufs s x)) dev bn s = Ret (find (is_block s dev bn) xs) s"
      using Cons.prems k by (intro Cons.IH) auto
    then show ?thesis using False Cons.prems k is_block_def [of s dev bn x] by (auto simp: kexec)
  qed
qed

lemma bget_recycle_path:
  "path (\<lambda>i. b_prev (bufs s i)) a xs bhead \<Longrightarrow> bhead \<notin> set xs \<Longrightarrow> length xs < k \<Longrightarrow>
   bget_recycle k (b_prev (bufs s a)) s = Ret (find (recyclable s) xs) s"
proof (induction xs arbitrary: a k)
  case Nil
  then show ?case by (cases k) (auto simp: kexec)
next
  case (Cons x xs)
  then obtain k' where k: "k = Suc k'" by (cases k) auto
  show ?case
  proof (cases "recyclable s x")
    case True
    then show ?thesis using Cons.prems k by (auto simp: kexec recyclable_def)
  next
    case False
    have "bget_recycle k' (b_prev (bufs s x)) s = Ret (find (recyclable s) xs) s"
      using Cons.prems k by (intro Cons.IH) auto
    then show ?thesis using False Cons.prems k recyclable_def [of s x] by (auto simp: kexec)
  qed
qed

lemma bring_length: "bring s xs \<Longrightarrow> length xs = NBUF \<and> bhead \<notin> set xs \<and> distinct xs"
  using distinct_card [of xs] by (auto simp: bring_def ring_def)

lemma bget_find_bring [kexec]:
  assumes "bring s xs"
  shows "bget_find (Suc NBUF) (b_next (bufs s bhead)) dev bn (s\<lparr>spin := p\<rparr>)
    = Ret (find (is_block s dev bn) xs) (s\<lparr>spin := p\<rparr>)"
proof -
  have "is_block (s\<lparr>spin := p\<rparr>) dev bn = is_block s dev bn" by (simp add: is_block_def fun_eq_iff)
  then show ?thesis
    using bget_find_path [of "s\<lparr>spin := p\<rparr>" bhead xs "Suc NBUF" dev bn] assms bring_length [OF assms]
    by (simp add: bring_def ring_def)
qed

lemma bget_recycle_bring [kexec]:
  assumes "bring s xs"
  shows "bget_recycle (Suc NBUF) (b_prev (bufs s bhead)) (s\<lparr>spin := p\<rparr>)
    = Ret (find (recyclable s) (rev xs)) (s\<lparr>spin := p\<rparr>)"
proof -
  have "recyclable (s\<lparr>spin := p\<rparr>) = recyclable s" by (simp add: recyclable_def fun_eq_iff)
  then show ?thesis
    using bget_recycle_path [of "s\<lparr>spin := p\<rparr>" bhead "rev xs" "Suc NBUF"] assms bring_length [OF assms]
    by (simp add: bring_def ring_def)
qed

section \<open>Effect of the operations\<close>

abbreviation taken :: "('z bstate_scheme) \<Rightarrow> sleeplock" where
  "taken s \<equiv> \<lparr>sl_locked = True, sl_pid = curpid s\<rparr>"

lemma ready_simps [simp]:
  "ready (s\<lparr>ptable := a\<rparr>) = ready s" "ready (s\<lparr>slocks := b\<rparr>) = ready s" "ready (s\<lparr>bufs := c\<rparr>) = ready s"
  "ready (s\<lparr>memdisk := d\<rparr>) = ready s" "ready (s\<lparr>wtrace := e\<rparr>) = ready s"
  "curpid (s\<lparr>slocks := b\<rparr>) = curpid s" "curpid (s\<lparr>bufs := c\<rparr>) = curpid s"
  "curpid (s\<lparr>memdisk := d\<rparr>) = curpid s" "curpid (s\<lparr>wtrace := e\<rparr>) = curpid s"
  "curproc (s\<lparr>ptable := a\<rparr>) = curproc s"
  "curpid (s\<lparr>ptable := a\<rparr>) = pid (a (curproc s))"
  by (simp_all add: ready_def curpid_def curproc_def)

lemma bget_hit:
  assumes "ready s" "bring s xs" "find (is_block s dev bn) xs = Some i"
    "\<not> sl_locked (slocks s (BufLk i))"
  shows "bget dev bn s = Ret i (s\<lparr>slocks := (slocks s)(BufLk i := taken s),
     bufs := (bufs s)(i := (bufs s i)\<lparr>b_refcnt := b_refcnt (bufs s i) + 1\<rparr>)\<rparr>)"
  using assms by (simp add: bget_def kexec kmod_buf_def del: bget_find.simps bget_recycle.simps)

lemma bget_miss:
  assumes "ready s" "bring s xs" "find (is_block s dev bn) xs = None"
    "find (recyclable s) (rev xs) = Some i" "\<not> sl_locked (slocks s (BufLk i))"
  shows "bget dev bn s = Ret i (s\<lparr>slocks := (slocks s)(BufLk i := taken s),
     bufs := (bufs s)(i := (bufs s i)\<lparr>b_dev := dev, b_blockno := bn, b_valid := False,
       b_dirty := False, b_refcnt := 1\<rparr>)\<rparr>)"
  using assms by (simp add: bget_def kexec kmod_buf_def del: bget_find.simps bget_recycle.simps)

lemma bget_full:
  assumes "ready s" "bring s xs" "find (is_block s dev bn) xs = None"
    "find (recyclable s) (rev xs) = None"
  shows "bget dev bn s = Panic ''bget: no buffers''"
  using assms by (simp add: bget_def kexec kmod_buf_def del: bget_find.simps bget_recycle.simps)

lemma iderw_read [kexec]:
  assumes "ready s" "slocks s (BufLk i) = taken s" "\<not> b_valid (bufs s i)" "\<not> b_dirty (bufs s i)"
    "b_dev (bufs s i) = 1" "b_blockno (bufs s i) < disksize s"
  shows "iderw i s = Ret () (s\<lparr>bufs := (bufs s)(i := (bufs s i)\<lparr>
    b_data := memdisk s (b_blockno (bufs s i)), b_valid := True\<rparr>)\<rparr>)"
  using assms by (simp add: iderw_def kexec kmod_buf_def)

lemma iderw_write [kexec]:
  assumes "ready s" "slocks s (BufLk i) = taken s" "b_dirty (bufs s i)"
    "b_dev (bufs s i) = 1" "b_blockno (bufs s i) < disksize s"
  shows "iderw i s = Ret () (s\<lparr>bufs := (bufs s)(i := (bufs s i)\<lparr>b_dirty := False, b_valid := True\<rparr>),
    memdisk := (memdisk s)(b_blockno (bufs s i) := b_data (bufs s i)),
    wtrace := wtrace s @ [(b_blockno (bufs s i), b_data (bufs s i))]\<rparr>)"
  using assms by (simp add: iderw_def kexec kmod_buf_def)

text \<open>\<open>brelse\<close> only moves pointers: \<open>relink\<close> replaces both link fields of every buffer.\<close>

definition relink :: "(nat \<Rightarrow> nat) \<Rightarrow> (nat \<Rightarrow> nat) \<Rightarrow> (nat \<Rightarrow> buf) \<Rightarrow> nat \<Rightarrow> buf" where
  "relink nx pv bs = (\<lambda>i. (bs i)\<lparr>b_next := nx i, b_prev := pv i\<rparr>)"

lemma relink_fields [simp]:
  "b_valid (relink nx pv bs i) = b_valid (bs i)" "b_dirty (relink nx pv bs i) = b_dirty (bs i)"
  "b_dev (relink nx pv bs i) = b_dev (bs i)" "b_blockno (relink nx pv bs i) = b_blockno (bs i)"
  "b_refcnt (relink nx pv bs i) = b_refcnt (bs i)" "b_data (relink nx pv bs i) = b_data (bs i)"
  "b_next (relink nx pv bs i) = nx i" "b_prev (relink nx pv bs i) = pv i"
  by (simp_all add: relink_def)

lemma relink_upd [simp]:
  "(relink nx pv bs)(i := (relink nx pv bs i)\<lparr>b_next := v\<rparr>) = relink (nx(i := v)) pv bs"
  "(relink nx pv bs)(i := (relink nx pv bs i)\<lparr>b_prev := v\<rparr>) = relink nx (pv(i := v)) bs"
  by (auto simp: relink_def)

lemma relink_id: "relink (\<lambda>i. b_next (bs i)) (\<lambda>i. b_prev (bs i)) bs = bs"
  by (auto simp: relink_def)

definition mv_next :: "(nat \<Rightarrow> nat) \<Rightarrow> (nat \<Rightarrow> nat) \<Rightarrow> nat \<Rightarrow> nat \<Rightarrow> nat" where
  "mv_next nx pv b = (let nx1 = nx(pv b := nx b) in nx1(b := nx1 bhead, bhead := b))"

definition mv_prev :: "(nat \<Rightarrow> nat) \<Rightarrow> (nat \<Rightarrow> nat) \<Rightarrow> nat \<Rightarrow> nat \<Rightarrow> nat" where
  "mv_prev nx pv b = (let nx1 = nx(pv b := nx b); pv1 = pv(nx b := pv b) in
     pv1(b := bhead, nx1 bhead := b))"

definition mv_front :: "nat \<Rightarrow> (nat \<Rightarrow> buf) \<Rightarrow> nat \<Rightarrow> buf" where
  "mv_front b bs = relink (mv_next (\<lambda>i. b_next (bs i)) (\<lambda>i. b_prev (bs i)) b)
     (mv_prev (\<lambda>i. b_next (bs i)) (\<lambda>i. b_prev (bs i)) b) bs"

lemma brelse_unlink_relink:
  assumes "bufs s = relink nx pv bs" "nx b \<noteq> b" "pv b \<noteq> b" "b \<noteq> bhead"
  shows "brelse_unlink b s = Ret () (s\<lparr>bufs := relink (mv_next nx pv b) (mv_prev nx pv b) bs\<rparr>)"
proof -
  have h: "(nx(pv b := nx b, b := c)) bhead = (nx(pv b := nx b)) bhead" for c
    using assms(4) by simp
  show ?thesis using assms(2,3,4)
    by (simp add: brelse_unlink_def kbind_run kseq_run kget_run kmod_run kmod_buf_def assms(1) h
        mv_next_def mv_prev_def Let_def del: fun_upd_apply)
      (simp add: mv_next_def mv_prev_def)
qed

lemma brelse_unlink_run:
  assumes "b_next (bufs s b) \<noteq> b" "b_prev (bufs s b) \<noteq> b" "b \<noteq> bhead"
  shows "brelse_unlink b s = Ret () (s\<lparr>bufs := mv_front b (bufs s)\<rparr>)"
  unfolding mv_front_def using assms
  by (intro brelse_unlink_relink) (simp_all add: relink_id)

lemma ring_not_self:
  assumes "ring nx pv h xs" "x \<in> set xs"
  shows "nx x \<noteq> x" "pv x \<noteq> x"
proof -
  obtain ys zs where xs: "xs = ys @ x # zs" using assms(2) by (auto simp: in_set_conv_decomp)
  have d: "distinct (h # ys @ x # zs)" using assms(1) xs by (simp add: ring_def)
  have "last (h # ys) \<in> set (h # ys)" "last (h # rev zs) \<in> set (h # zs)"
    using last_in_set [of "h # rev zs"] by auto
  then show "nx x \<noteq> x" "pv x \<noteq> x"
    using ring_ends [of nx pv h ys x zs] assms(1) xs d by auto
qed

lemma bring_mv_front:
  assumes "bring s xs" "b < NBUF"
  shows "bring (s\<lparr>bufs := mv_front b (bufs s)\<rparr>) (b # remove1 b xs)"
proof -
  have "b \<in> set xs" using assms by (simp add: bring_def)
  moreover have "ring (\<lambda>i. b_next (bufs s i)) (\<lambda>i. b_prev (bufs s i)) bhead xs"
    using assms by (simp add: bring_def)
  ultimately have "ring (mv_next (\<lambda>i. b_next (bufs s i)) (\<lambda>i. b_prev (bufs s i)) b)
     (mv_prev (\<lambda>i. b_next (bufs s i)) (\<lambda>i. b_prev (bufs s i)) b) bhead (b # remove1 b xs)"
    unfolding mv_next_def mv_prev_def Let_def by (intro ring_move_front) auto
  then show ?thesis using assms \<open>b \<in> set xs\<close> bring_length [OF assms(1)]
    by (auto simp: bring_def mv_front_def set_remove1_eq)
qed

definition refcnt_dec :: "nat \<Rightarrow> (nat \<Rightarrow> buf) \<Rightarrow> nat \<Rightarrow> buf" where
  "refcnt_dec i bs = bs(i := (bs i)\<lparr>b_refcnt := b_refcnt (bs i) - 1\<rparr>)"

lemma brelse_run:
  assumes "ready s" "slocks s (BufLk i) = taken s" "bring s xs" "i < NBUF" "b_refcnt (bufs s i) = 1"
  shows "brelse i s = Ret () (s\<lparr>slocks := (slocks s)(BufLk i := free_sl),
    ptable := wake_fun (Some (ChanSleepLk (BufLk i))) (ptable s),
    bufs := mv_front i (refcnt_dec i (bufs s))\<rparr>)"
proof -
  have "b_next (bufs s i) \<noteq> i" "b_prev (bufs s i) \<noteq> i"
    using ring_not_self [of "\<lambda>i. b_next (bufs s i)" "\<lambda>i. b_prev (bufs s i)" bhead xs i] assms
    by (simp_all add: bring_def)
  then show ?thesis using assms
    by (simp add: brelse_def kexec kmod_buf_def brelse_unlink_run refcnt_dec_def)
qed

end
