(* ===== verification/Bio_View.thy ===== *)
theory Bio_View
  imports Bio
begin

text \<open>
  What the buffer cache promises its clients. \<open>bview\<close> is the block contents a client sees through
  the cache. \<open>binv H M\<close> is the invariant of the cache while the running process holds the buffers
  \<open>H\<close> and has changed the contents of the buffers \<open>M\<close> without writing or pinning them yet (no
  other process is inside the file system). \<open>bread\<close>, \<open>brelse\<close> and \<open>bwrite\<close> are specified over
  these two.
\<close>

section \<open>View and invariant\<close>

definition caches :: "('z bstate_scheme) \<Rightarrow> nat \<Rightarrow> nat \<Rightarrow> bool" where
  "caches s bn i \<longleftrightarrow> b_dev (bufs s i) = 1 \<and> b_blockno (bufs s i) = bn \<and> b_valid (bufs s i)"

definition bview :: "('z bstate_scheme) \<Rightarrow> nat \<Rightarrow> bytes" where
  "bview s bn = (case find (caches s bn) [0..<NBUF] of
      Some i \<Rightarrow> b_data (bufs s i) | None \<Rightarrow> memdisk s bn)"

definition dirtyb :: "('z bstate_scheme) \<Rightarrow> nat set" where
  "dirtyb s = {b_blockno (bufs s i) | i. i < NBUF \<and> b_dirty (bufs s i)}"

definition buf_ok :: "('z bstate_scheme) \<Rightarrow> nat set \<Rightarrow> nat set \<Rightarrow> nat \<Rightarrow> bool" where
  "buf_ok s H M i \<longleftrightarrow>
     length (b_data (bufs s i)) = BSIZE
     \<and> b_refcnt (bufs s i) = (if i \<in> H then 1 else 0)
     \<and> (if i \<in> H then slocks s (BufLk i) = taken s else \<not> sl_locked (slocks s (BufLk i)))
     \<and> (b_valid (bufs s i) \<and> \<not> b_dirty (bufs s i) \<and> b_dev (bufs s i) = 1 \<and> i \<notin> M
          \<longrightarrow> b_data (bufs s i) = memdisk s (b_blockno (bufs s i)))
     \<and> (i \<in> H \<or> b_dirty (bufs s i)
          \<longrightarrow> b_valid (bufs s i) \<and> b_dev (bufs s i) = 1 \<and> b_blockno (bufs s i) < disksize s)"

definition one_buf :: "('z bstate_scheme) \<Rightarrow> bool" where
  "one_buf s \<longleftrightarrow> (\<forall>i < NBUF. \<forall>j < NBUF. b_dev (bufs s i) = 1 \<and> b_dev (bufs s j) = 1
     \<and> b_blockno (bufs s i) = b_blockno (bufs s j) \<longrightarrow> i = j)"

definition binv :: "nat set \<Rightarrow> nat set \<Rightarrow> ('z bstate_scheme) \<Rightarrow> bool" where
  "binv H M s \<longleftrightarrow> (\<exists>xs. bring s xs) \<and> (\<forall>i < NBUF. buf_ok s H M i) \<and> one_buf s
     \<and> H \<subseteq> {..<NBUF} \<and> M \<subseteq> H \<and> (\<forall>b. length (memdisk s b) = BSIZE)"

text \<open>Some processes that slept may have been woken up; nothing else of them changed.\<close>

definition woken :: "(nat \<Rightarrow> proc) \<Rightarrow> (nat \<Rightarrow> proc) \<Rightarrow> bool" where
  "woken pt pt' \<longleftrightarrow> (\<forall>i. pt' i = pt i \<or> (pstate (pt i) = SLEEPING \<and> pt' i = (pt i)\<lparr>pstate := RUNNABLE\<rparr>))"

definition bframe :: "('z bstate_scheme) \<Rightarrow> ('z bstate_scheme) \<Rightarrow> bool" where
  "bframe s s' \<longleftrightarrow> s' = s\<lparr>ptable := ptable s', slocks := slocks s', bufs := bufs s'\<rparr>
     \<and> woken (ptable s) (ptable s') \<and> (\<forall>i. slocks s' (InodeLk i) = slocks s (InodeLk i))"

lemma woken_refl [simp]: "woken pt pt"
  by (simp add: woken_def)

lemma woken_wake_fun [simp]: "woken pt (wake_fun ch pt)"
  by (simp add: woken_def wake_fun_def)

lemma woken_trans: "woken a b \<Longrightarrow> woken b c \<Longrightarrow> woken a c"
  unfolding woken_def by (metis (no_types, lifting) proc.simps(4) proc.surjective proc.update_convs(4) proc.select_convs(4) procstate.distinct)

section \<open>The view\<close>

lemma bview_cached:
  assumes "one_buf s" "i < NBUF" "caches s bn i"
  shows "bview s bn = b_data (bufs s i)"
proof -
  have "find (caches s bn) [0..<NBUF] = Some i"
    using assms by (intro find_upt_unique) (auto simp: one_buf_def caches_def)
  then show ?thesis by (simp add: bview_def)
qed

lemma bview_uncached:
  assumes "\<And>i. i < NBUF \<Longrightarrow> \<not> caches s bn i"
  shows "bview s bn = memdisk s bn"
proof -
  have "find (caches s bn) [0..<NBUF] = None"
    using assms by (auto simp: find_None_iff)
  then show ?thesis by (simp add: bview_def)
qed

lemma bview_clean:
  assumes "binv H M s" "i < NBUF" "caches s bn i" "\<not> b_dirty (bufs s i)" "i \<notin> M"
  shows "bview s bn = memdisk s bn" "b_data (bufs s i) = memdisk s bn"
  using assms bview_cached [of s i bn] by (auto simp: binv_def buf_ok_def caches_def)

lemma binvD:
  assumes "binv H M s"
  shows "one_buf s" "H \<subseteq> {..<NBUF}" "M \<subseteq> H" "length (memdisk s b) = BSIZE"
    "i < NBUF \<Longrightarrow> buf_ok s H M i" "\<exists>xs. bring s xs"
  using assms by (simp_all add: binv_def)

lemma length_bview:
  assumes "binv H M s"
  shows "length (bview s bn) = BSIZE"
proof (cases "\<exists>i < NBUF. caches s bn i")
  case True
  then obtain i where "i < NBUF" "caches s bn i" by blast
  then show ?thesis using bview_cached [OF binvD(1) [OF assms]] binvD(5) [OF assms]
    by (simp add: buf_ok_def)
next
  case False
  then show ?thesis using bview_uncached [of s bn] binvD(4) [OF assms] by simp
qed

lemma bview_held:
  "binv H M s \<Longrightarrow> i \<in> H \<Longrightarrow> bview s (b_blockno (bufs s i)) = b_data (bufs s i)"
  by (rule bview_cached) (auto simp: binv_def buf_ok_def caches_def)

section \<open>bread\<close>

text \<open>The buffer \<open>bread\<close> returns, in the state before and after the call.\<close>

definition fetched :: "nat \<Rightarrow> nat \<Rightarrow> buf \<Rightarrow> ('z bstate_scheme) \<Rightarrow> ('z bstate_scheme)" where
  "fetched i bn b s = s\<lparr>slocks := (slocks s)(BufLk i := taken s), bufs := (bufs s)(i := b)\<rparr>"

definition fetch_ok :: "nat set \<Rightarrow> nat \<Rightarrow> nat \<Rightarrow> buf \<Rightarrow> ('z bstate_scheme) \<Rightarrow> bool" where
  "fetch_ok H i bn b s \<longleftrightarrow> i < NBUF \<and> i \<notin> H \<and> b_dev b = 1 \<and> b_blockno b = bn \<and> b_valid b
     \<and> b_refcnt b = 1 \<and> b_prev b = b_prev (bufs s i) \<and> b_next b = b_next (bufs s i)
     \<and> b_dirty b = b_dirty (bufs s i) \<and> b_data b = bview s bn
     \<and> (\<not> b_dirty b \<longrightarrow> bview s bn = memdisk s bn)
     \<and> (is_block s 1 bn i \<or> \<not> b_dirty b \<and> (\<forall>j < NBUF. \<not> is_block s 1 bn j))"

lemma fetched_bview:
  assumes "binv H M s" "fetch_ok H i bn b s"
  shows "bview (fetched i bn b s) = bview s"
proof
  fix c
  let ?s = "fetched i bn b s"
  note one = binvD(1) [OF assms(1)]
  have i: "i < NBUF" "i \<notin> M" using assms binvD(3) [OF assms(1)] by (auto simp: fetch_ok_def)
  have one': "one_buf ?s"
    using one assms(2) by (auto simp: one_buf_def fetched_def fetch_ok_def is_block_def)
  consider (this) "c = bn" | (other) j where "c \<noteq> bn" "j < NBUF" "j \<noteq> i" "caches s c j"
    | (old) "c \<noteq> bn" "caches s c i" | (none) "c \<noteq> bn" "\<And>j. j < NBUF \<Longrightarrow> \<not> caches s c j"
    by blast
  then show "bview ?s c = bview s c"
  proof cases
    case this
    then show ?thesis using bview_cached [OF one' i(1), of c] assms(2)
      by (auto simp: fetched_def fetch_ok_def caches_def)
  next
    case other
    then have "caches ?s c j" by (simp add: caches_def fetched_def)
    then show ?thesis using other bview_cached [OF one' other(2)] bview_cached [OF one other(2)]
      by (simp add: fetched_def)
  next
    case old
    then have "\<not> is_block s 1 bn i" by (auto simp: caches_def is_block_def)
    then have "\<not> b_dirty (bufs s i)" using assms(2) by (auto simp: fetch_ok_def)
    then have "bview s c = memdisk s c" using bview_clean [OF assms(1) i(1) old(2)] i(2) by simp
    moreover have "\<not> caches ?s c j" if "j < NBUF" for j
      using one old that i assms(2)
      by (auto simp: caches_def fetched_def fetch_ok_def one_buf_def)
    then have "bview ?s c = memdisk ?s c" by (rule bview_uncached)
    ultimately show ?thesis by (simp add: fetched_def)
  next
    case none
    have "\<not> caches ?s c j" if "j < NBUF" for j
      using none that assms(2) by (auto simp: caches_def fetched_def fetch_ok_def)
    then have "bview ?s c = memdisk ?s c" by (rule bview_uncached)
    then show ?thesis using bview_uncached [of s c] none(2) by (simp add: fetched_def)
  qed
qed

lemma fetched_dirtyb:
  "fetch_ok H i bn b s \<Longrightarrow> dirtyb (fetched i bn b s) = dirtyb s"
  by (auto simp: dirtyb_def fetched_def fetch_ok_def is_block_def)

lemma fetched_binv:
  assumes "ready s" "binv H M s" "fetch_ok H i bn b s" "bn < disksize s"
  shows "binv (insert i H) M (fetched i bn b s)"
proof -
  let ?s = "fetched i bn b s"
  obtain xs where "bring s xs" using binvD(6) [OF assms(2)] by blast
  moreover have "(\<lambda>j. b_next (bufs ?s j)) = (\<lambda>j. b_next (bufs s j))"
    "(\<lambda>j. b_prev (bufs ?s j)) = (\<lambda>j. b_prev (bufs s j))"
    using assms(3) by (auto simp: fetched_def fetch_ok_def)
  ultimately have "bring ?s xs" by (simp add: bring_def)
  moreover have "buf_ok ?s (insert i H) M j" if "j < NBUF" for j
    using binvD(5) [OF assms(2) that] assms(3,4) binvD(3) [OF assms(2)] length_bview [OF assms(2)]
    by (auto simp: buf_ok_def fetched_def fetch_ok_def)
  moreover have "one_buf ?s"
    using binvD(1) [OF assms(2)] assms(3) by (auto simp: one_buf_def fetched_def fetch_ok_def is_block_def)
  ultimately show ?thesis using assms(3) binvD(2-4) [OF assms(2)]
    by (auto simp: binv_def fetched_def fetch_ok_def)
qed

lemma fetched_bframe: "bframe s (fetched i bn b s)"
  by (simp add: bframe_def fetched_def)

lemma dirtyb_card:
  assumes "one_buf s" "\<And>i. i < NBUF \<Longrightarrow> b_dirty (bufs s i) \<Longrightarrow> b_dev (bufs s i) = 1"
  shows "finite (dirtyb s)" "card (dirtyb s) = card {i. i < NBUF \<and> b_dirty (bufs s i)}"
proof -
  have eq: "dirtyb s = (\<lambda>i. b_blockno (bufs s i)) ` {i. i < NBUF \<and> b_dirty (bufs s i)}"
    by (auto simp: dirtyb_def)
  then show "finite (dirtyb s)" by simp
  have "inj_on (\<lambda>i. b_blockno (bufs s i)) {i. i < NBUF \<and> b_dirty (bufs s i)}"
    using assms by (auto simp: inj_on_def one_buf_def)
  then show "card (dirtyb s) = card {i. i < NBUF \<and> b_dirty (bufs s i)}"
    unfolding eq by (rule card_image)
qed

lemma some_recyclable:
  assumes "binv H M s" "card H + card (dirtyb s) < NBUF"
  shows "\<exists>i < NBUF. recyclable s i"
proof (rule ccontr)
  let ?D = "{i. i < NBUF \<and> b_dirty (bufs s i)}"
  assume "\<not> (\<exists>i < NBUF. recyclable s i)"
  then have "{..<NBUF} \<subseteq> H \<union> ?D"
    using binvD(5) [OF assms(1)] by (force simp: recyclable_def buf_ok_def)
  moreover have "finite H" using binvD(2) [OF assms(1)] finite_subset by blast
  ultimately have "NBUF \<le> card (H \<union> ?D)" using card_mono [of "H \<union> ?D" "{..<NBUF}"] by simp
  also have "\<dots> \<le> card H + card ?D" by (rule card_Un_le)
  also have "card ?D = card (dirtyb s)"
    using dirtyb_card(2) [OF binvD(1) [OF assms(1)]] binvD(5) [OF assms(1)]
    by (simp add: buf_ok_def)
  finally show False using assms(2) by simp
qed

lemma find_SomeE:
  assumes "\<exists>x \<in> set xs. P x"
  obtains x where "find P xs = Some x" "x \<in> set xs" "P x"
  using assms by (cases "find P xs") (auto simp: find_None_iff find_Some_iff)

text \<open>
  \<open>bread\<close>: with fewer than \<open>NBUF\<close> buffers held or pinned (or the block itself pinned), a block of the disk that the caller
  does not hold already is returned locked, valid and with the contents of the view, and the view
  does not change.
\<close>

lemma bread_fetch:
  assumes r: "ready s" and inv: "binv H M s" and bn: "bn < disksize s"
    and nh: "\<forall>i \<in> H. b_blockno (bufs s i) \<noteq> bn"
    and room: "bn \<in> dirtyb s \<or> card H + card (dirtyb s) < NBUF"
  shows "\<exists>i b. bread 1 bn s = Ret i (fetched i bn b s) \<and> fetch_ok H i bn b s"
proof -
  obtain xs where xs: "bring s xs" "set xs = {..<NBUF}"
    using binvD(6) [OF inv] by (auto simp: bring_def)
  show ?thesis
  proof (cases "\<exists>i \<in> set xs. is_block s 1 bn i")
    case True
    then obtain i where i: "find (is_block s 1 bn) xs = Some i" "i \<in> set xs" "is_block s 1 bn i"
      by (rule find_SomeE)
    have iN: "i < NBUF" using i xs by simp
    note ok = binvD(5) [OF inv iN]
    have iH: "i \<notin> H" using nh i by (auto simp: is_block_def)
    then have un: "\<not> sl_locked (slocks s (BufLk i))" "b_refcnt (bufs s i) = 0"
      using ok by (simp_all add: buf_ok_def)
    note g = bget_hit [OF r xs(1) i(1) un(1)]
    have iM: "i \<notin> M" using iH binvD(3) [OF inv] by auto
    show ?thesis
    proof (cases "b_valid (bufs s i)")
      case True
      let ?b = "(bufs s i)\<lparr>b_refcnt := 1\<rparr>"
      have c: "caches s bn i" using i True by (simp add: is_block_def caches_def)
      have "bread 1 bn s = Ret i (fetched i bn ?b s)"
        using g True un by (simp add: bread_def kexec fetched_def)
      moreover have "fetch_ok H i bn ?b s"
        using i iN iH True bview_cached [OF binvD(1) [OF inv] iN c] bview_clean [OF inv iN c] iM
        by (auto simp: fetch_ok_def is_block_def)
      ultimately show ?thesis by blast
    next
      case False
      let ?b = "(bufs s i)\<lparr>b_refcnt := 1, b_data := memdisk s bn, b_valid := True\<rparr>"
      have nd: "\<not> b_dirty (bufs s i)" using False ok by (simp add: buf_ok_def)
      have "bread 1 bn s = Ret i (fetched i bn ?b s)"
        using g False nd un i r bn by (simp add: bread_def kexec fetched_def is_block_def)
      moreover have "bview s bn = memdisk s bn"
        using False i iN binvD(1) [OF inv]
        by (intro bview_uncached) (auto simp: caches_def is_block_def one_buf_def)
      then have "fetch_ok H i bn ?b s" using i iN iH by (auto simp: fetch_ok_def is_block_def)
      ultimately show ?thesis by blast
    qed
  next
    case False
    then have f1: "find (is_block s 1 bn) xs = None" by (auto simp: find_None_iff)
    have "bn \<notin> dirtyb s"
      using False xs(2) binvD(5) [OF inv] by (auto simp: dirtyb_def is_block_def buf_ok_def)
    then have "\<exists>i \<in> set (rev xs). recyclable s i"
      using some_recyclable [OF inv] room xs(2) by auto
    then obtain i where i: "find (recyclable s) (rev xs) = Some i" "i \<in> set (rev xs)" "recyclable s i"
      by (rule find_SomeE)
    have iN: "i < NBUF" using i xs by simp
    note ok = binvD(5) [OF inv iN]
    have iH: "i \<notin> H" using i(3) ok by (auto simp: recyclable_def buf_ok_def)
    then have un: "\<not> sl_locked (slocks s (BufLk i))" using ok by (simp add: buf_ok_def)
    let ?b = "(bufs s i)\<lparr>b_dev := 1, b_blockno := bn, b_dirty := False, b_refcnt := 1,
       b_data := memdisk s bn, b_valid := True\<rparr>"
    have "bread 1 bn s = Ret i (fetched i bn ?b s)"
      using bget_miss [OF r xs(1) f1 i(1) un] r bn by (simp add: bread_def kexec fetched_def)
    moreover have "bview s bn = memdisk s bn"
      using False xs(2) by (intro bview_uncached) (auto simp: caches_def is_block_def)
    then have "fetch_ok H i bn ?b s" using i iN iH False xs(2)
      by (auto simp: fetch_ok_def recyclable_def)
    ultimately show ?thesis by blast
  qed
qed

section \<open>brelse, bwrite and changes of the data\<close>

lemma bring_cong:
  assumes "\<And>j. b_next (bufs s' j) = b_next (bufs s j)" "\<And>j. b_prev (bufs s' j) = b_prev (bufs s j)"
  shows "bring s' = bring s"
  using assms by (simp add: bring_def fun_eq_iff)

lemma one_buf_cong:
  assumes "\<And>j. b_dev (bufs s' j) = b_dev (bufs s j)" "\<And>j. b_blockno (bufs s' j) = b_blockno (bufs s j)"
  shows "one_buf s' = one_buf s"
  using assms by (simp add: one_buf_def)

lemma dirtyb_cong:
  assumes "\<And>j. b_dirty (bufs s' j) = b_dirty (bufs s j)" "\<And>j. b_blockno (bufs s' j) = b_blockno (bufs s j)"
  shows "dirtyb s' = dirtyb s"
  using assms by (simp add: dirtyb_def)

lemma mv_front_fields [simp]:
  "b_valid (mv_front b bs i) = b_valid (bs i)" "b_dirty (mv_front b bs i) = b_dirty (bs i)"
  "b_dev (mv_front b bs i) = b_dev (bs i)" "b_blockno (mv_front b bs i) = b_blockno (bs i)"
  "b_refcnt (mv_front b bs i) = b_refcnt (bs i)" "b_data (mv_front b bs i) = b_data (bs i)"
  by (simp_all add: mv_front_def)

lemma refcnt_dec_fields [simp]:
  "b_valid (refcnt_dec b bs i) = b_valid (bs i)" "b_dirty (refcnt_dec b bs i) = b_dirty (bs i)"
  "b_dev (refcnt_dec b bs i) = b_dev (bs i)" "b_blockno (refcnt_dec b bs i) = b_blockno (bs i)"
  "b_data (refcnt_dec b bs i) = b_data (bs i)" "b_next (refcnt_dec b bs i) = b_next (bs i)"
  "b_prev (refcnt_dec b bs i) = b_prev (bs i)"
  "b_refcnt (refcnt_dec b bs i) = (if i = b then b_refcnt (bs i) - 1 else b_refcnt (bs i))"
  by (simp_all add: refcnt_dec_def)

lemma bview_cong:
  assumes "\<And>i. b_dev (bufs s' i) = b_dev (bufs s i)" "\<And>i. b_blockno (bufs s' i) = b_blockno (bufs s i)"
    "\<And>i. b_valid (bufs s' i) = b_valid (bufs s i)" "\<And>i. b_data (bufs s' i) = b_data (bufs s i)"
    "memdisk s' = memdisk s"
  shows "bview s' = bview s"
proof -
  have eq: "caches s' = caches s" using assms by (simp add: caches_def fun_eq_iff)
  show ?thesis
  proof
    fix c show "bview s' c = bview s c"
      by (cases "find (caches s c) [0..<NBUF]") (simp_all add: bview_def eq assms)
  qed
qed

lemma brelse_spec:
  assumes "ready s" "binv H M s" "i \<in> H" "i \<notin> M"
  shows "\<exists>s'. brelse i s = Ret () s' \<and> binv (H - {i}) M s' \<and> bview s' = bview s
     \<and> dirtyb s' = dirtyb s \<and> bframe s s' \<and> ready s'
     \<and> (\<forall>j. b_blockno (bufs s' j) = b_blockno (bufs s j) \<and> b_data (bufs s' j) = b_data (bufs s j))"
proof -
  obtain xs where xs: "bring s xs" using binvD(6) [OF assms(2)] by blast
  have iN: "i < NBUF" using assms binvD(2) [OF assms(2)] by auto
  have ok: "slocks s (BufLk i) = taken s" "b_refcnt (bufs s i) = 1"
    using binvD(5) [OF assms(2) iN] assms(3) by (simp_all add: buf_ok_def)
  let ?pt = "wake_fun (Some (ChanSleepLk (BufLk i))) (ptable s)"
  let ?s = "s\<lparr>slocks := (slocks s)(BufLk i := free_sl), ptable := ?pt,
    bufs := mv_front i (refcnt_dec i (bufs s))\<rparr>"
  note run = brelse_run [OF assms(1) ok(1) xs iN ok(2)]
  have "bring (s\<lparr>bufs := refcnt_dec i (bufs s)\<rparr>) xs" using xs by (simp add: bring_def)
  from bring_mv_front [OF this iN] have r: "bring ?s (i # remove1 i xs)" by (simp add: bring_def)
  have "curpid ?s = curpid s" by (simp add: curpid_def curproc_def)
  then have "buf_ok ?s (H - {i}) M j" if "j < NBUF" for j
    using binvD(5) [OF assms(2) that] assms(3,4) by (auto simp: buf_ok_def free_sl_def)
  then have "binv (H - {i}) M ?s"
    using r binvD(1-4) [OF assms(2)] assms(4) by (auto simp: binv_def one_buf_def)
  moreover have "bview ?s = bview s" by (rule bview_cong) simp_all
  moreover have "dirtyb ?s = dirtyb s" by (simp add: dirtyb_def)
  moreover have "bframe s ?s" by (simp add: bframe_def)
  ultimately show ?thesis using run assms(1) by simp
qed

abbreviation set_data :: "nat \<Rightarrow> bytes \<Rightarrow> ('z bstate_scheme) \<Rightarrow> ('z bstate_scheme)" where
  "set_data i d s \<equiv> s\<lparr>bufs := (bufs s)(i := (bufs s i)\<lparr>b_data := d\<rparr>)\<rparr>"

lemma set_data_spec:
  assumes "binv H M s" "i \<in> H" "length d = BSIZE"
  shows "binv H (insert i M) (set_data i d s)"
    "bview (set_data i d s) = (bview s)(b_blockno (bufs s i) := d)"
    "dirtyb (set_data i d s) = dirtyb s" "bframe s (set_data i d s)"
proof -
  let ?s = "set_data i d s"
  have iN: "i < NBUF" using assms binvD(2) [OF assms(1)] by auto
  have ok: "b_valid (bufs s i)" "b_dev (bufs s i) = 1" using binvD(5) [OF assms(1) iN] assms(2)
    by (simp_all add: buf_ok_def)
  have "bring ?s = bring s" by (rule bring_cong) simp_all
  moreover have "buf_ok ?s H (insert i M) j" if "j < NBUF" for j
    using binvD(5) [OF assms(1) that] assms(3) by (cases "j = i") (simp_all add: buf_ok_def)
  moreover have one: "one_buf ?s"
    using binvD(1) [OF assms(1)] one_buf_cong [of ?s s] by simp
  ultimately show "binv H (insert i M) ?s"
    using assms binvD(1-4,6) [OF assms(1)] by (simp add: binv_def)
  show "bview ?s = (bview s)(b_blockno (bufs s i) := d)"
  proof
    fix c
    show "bview ?s c = ((bview s)(b_blockno (bufs s i) := d)) c"
    proof (cases "c = b_blockno (bufs s i)")
      case True
      then show ?thesis using bview_cached [OF one iN, of c] ok by (simp add: caches_def)
    next
      case False
      then have "caches ?s c = caches s c" "\<not> caches s c i" by (auto simp: caches_def fun_eq_iff)
      moreover have "k \<noteq> i" if "find (caches s c) [0..<NBUF] = Some k" for k
        using that \<open>\<not> caches s c i\<close> by (auto simp: find_Some_iff)
      ultimately show ?thesis using False
        by (cases "find (caches s c) [0..<NBUF]") (simp_all add: bview_def)
    qed
  qed
  show "dirtyb ?s = dirtyb s" by (rule dirtyb_cong) simp_all
  show "bframe s ?s" by (simp add: bframe_def)
qed

abbreviation set_dirty :: "nat \<Rightarrow> ('z bstate_scheme) \<Rightarrow> ('z bstate_scheme)" where
  "set_dirty i s \<equiv> s\<lparr>bufs := (bufs s)(i := (bufs s i)\<lparr>b_dirty := True\<rparr>)\<rparr>"

lemma set_dirty_spec:
  assumes "binv H M s" "i \<in> H"
  shows "binv H (M - {i}) (set_dirty i s)" "bview (set_dirty i s) = bview s"
    "dirtyb (set_dirty i s) = insert (b_blockno (bufs s i)) (dirtyb s)" "bframe s (set_dirty i s)"
proof -
  let ?s = "set_dirty i s"
  have iN: "i < NBUF" using assms binvD(2) [OF assms(1)] by auto
  have "bring ?s = bring s" by (rule bring_cong) simp_all
  moreover have "buf_ok ?s H (M - {i}) j" if "j < NBUF" for j
    using binvD(5) [OF assms(1) that] assms(2) by (cases "j = i") (simp_all add: buf_ok_def)
  moreover have "one_buf ?s"
    using binvD(1) [OF assms(1)] one_buf_cong [of ?s s] by simp
  moreover have "M - {i} \<subseteq> H" using binvD(3) [OF assms(1)] by auto
  ultimately show "binv H (M - {i}) ?s"
    using assms binvD(1-4,6) [OF assms(1)] by (simp add: binv_def)
  show "bview ?s = bview s" by (rule bview_cong) simp_all
  show "dirtyb ?s = insert (b_blockno (bufs s i)) (dirtyb s)"
    unfolding dirtyb_def using iN by (auto split: if_splits)
  show "bframe s ?s" by (simp add: bframe_def)
qed

lemma bwrite_run:
  assumes "ready s" "binv H M s" "i \<in> H"
  shows "bwrite i s = Ret () (s\<lparr>bufs := (bufs s)(i := (bufs s i)\<lparr>b_dirty := False, b_valid := True\<rparr>),
    memdisk := (memdisk s)(b_blockno (bufs s i) := b_data (bufs s i)),
    wtrace := wtrace s @ [(b_blockno (bufs s i), b_data (bufs s i))]\<rparr>)"
proof -
  have iN: "i < NBUF" using assms binvD(2) [OF assms(2)] by auto
  have "slocks s (BufLk i) = taken s" "b_dev (bufs s i) = 1" "b_blockno (bufs s i) < disksize s"
    using binvD(5) [OF assms(2) iN] assms(3) by (simp_all add: buf_ok_def)
  then show ?thesis using assms(1) by (simp add: bwrite_def kexec kmod_buf_def)
qed

text \<open>\<open>bwrite\<close>: the view stays the same and the block on disk becomes what the view shows.\<close>

lemma bwrite_spec:
  assumes "ready s" "binv H M s" "i \<in> H"
  shows "\<exists>s'. bwrite i s = Ret () s' \<and> binv H (M - {i}) s' \<and> bview s' = bview s
     \<and> dirtyb s' = dirtyb s - {b_blockno (bufs s i)}
     \<and> memdisk s' = (memdisk s)(b_blockno (bufs s i) := bview s (b_blockno (bufs s i)))
     \<and> wtrace s' = wtrace s @ [(b_blockno (bufs s i), bview s (b_blockno (bufs s i)))]
     \<and> s' = s\<lparr>bufs := bufs s', memdisk := memdisk s', wtrace := wtrace s'\<rparr>
     \<and> (\<forall>j. b_blockno (bufs s' j) = b_blockno (bufs s j) \<and> b_data (bufs s' j) = b_data (bufs s j))"
proof -
  let ?b = "b_blockno (bufs s i)"
  let ?s = "s\<lparr>bufs := (bufs s)(i := (bufs s i)\<lparr>b_dirty := False, b_valid := True\<rparr>),
    memdisk := (memdisk s)(?b := b_data (bufs s i)), wtrace := wtrace s @ [(?b, b_data (bufs s i))]\<rparr>"
  have iN: "i < NBUF" using assms binvD(2) [OF assms(2)] by auto
  note ok = binvD(5) [OF assms(2) iN]
  note one = binvD(1) [OF assms(2)]
  have i: "b_valid (bufs s i)" "b_dev (bufs s i) = 1" using ok assms(3) by (simp_all add: buf_ok_def)
  have len: "length (b_data (bufs s i)) = BSIZE" using ok by (simp add: buf_ok_def)
  have v: "bview s ?b = b_data (bufs s i)" by (rule bview_held [OF assms(2,3)])
  have other: "b_blockno (bufs s j) \<noteq> ?b" if "j < NBUF" "j \<noteq> i" "b_dev (bufs s j) = 1" for j
    using one that iN i by (auto simp: one_buf_def)
  have "bring ?s = bring s" by (rule bring_cong) simp_all
  moreover have "buf_ok ?s H (M - {i}) j" if "j < NBUF" for j
    using binvD(5) [OF assms(2) that] assms(3) other [OF that] by (cases "j = i") (auto simp: buf_ok_def)
  moreover have one': "one_buf ?s" using one one_buf_cong [of ?s s] by simp
  moreover have "M - {i} \<subseteq> H" using binvD(3) [OF assms(2)] by auto
  ultimately have "binv H (M - {i}) ?s"
    using len binvD(1-4,6) [OF assms(2)] by (simp add: binv_def)
  moreover have "bview ?s = bview s"
  proof
    fix c
    have "caches ?s c = caches s c" using i by (auto simp: caches_def fun_eq_iff)
    moreover have "c \<noteq> ?b" if "find (caches s c) [0..<NBUF] = None"
      using that i iN by (auto simp: find_None_iff caches_def)
    ultimately show "bview ?s c = bview s c"
      by (cases "find (caches s c) [0..<NBUF]") (simp_all add: bview_def)
  qed
  moreover have "dirtyb ?s = dirtyb s - {?b}"
  proof -
    have "b_dev (bufs s j) = 1" if "j < NBUF" "b_dirty (bufs s j)" for j
      using binvD(5) [OF assms(2) that(1)] that(2) by (simp add: buf_ok_def)
    then show ?thesis using other by (auto simp: dirtyb_def split: if_splits) metis
  qed
  ultimately show ?thesis using bwrite_run [OF assms] v by simp
qed

section \<open>The client's view as rules\<close>

text \<open>\<open>dframe s s'\<close>: from \<open>s\<close> to \<open>s'\<close> only the cache and the disk changed.\<close>

definition dframe :: "('z bstate_scheme) \<Rightarrow> ('z bstate_scheme) \<Rightarrow> bool" where
  "dframe s s' \<longleftrightarrow> s' = s\<lparr>ptable := ptable s', slocks := slocks s', memdisk := memdisk s',
       wtrace := wtrace s', bufs := bufs s'\<rparr>
     \<and> woken (ptable s) (ptable s') \<and> (\<forall>i. slocks s' (InodeLk i) = slocks s (InodeLk i))"

lemma bframe_refl [simp]: "bframe s s"
  by (simp add: bframe_def)

lemma dframe_refl [simp]: "dframe s s"
  by (simp add: dframe_def)

lemma bframe_trans:
  assumes "bframe a b" "bframe b c"
  shows "bframe a c"
proof -
  have "c = b\<lparr>ptable := ptable c, slocks := slocks c, bufs := bufs c\<rparr>" using assms(2) by (simp add: bframe_def)
  also have "\<dots> = a\<lparr>ptable := ptable c, slocks := slocks c, bufs := bufs c\<rparr>"
    by (subst (1) conjunct1 [OF assms(1) [unfolded bframe_def]]) simp
  finally show ?thesis using assms woken_trans by (auto simp: bframe_def)
qed

lemma dframe_trans:
  assumes "dframe a b" "dframe b c"
  shows "dframe a c"
proof -
  have "c = b\<lparr>ptable := ptable c, slocks := slocks c, memdisk := memdisk c, wtrace := wtrace c, bufs := bufs c\<rparr>"
    using assms(2) by (simp add: dframe_def)
  also have "\<dots> = a\<lparr>ptable := ptable c, slocks := slocks c, memdisk := memdisk c, wtrace := wtrace c,
      bufs := bufs c\<rparr>"
    by (subst (1) conjunct1 [OF assms(1) [unfolded dframe_def]]) simp
  finally show ?thesis using assms woken_trans by (auto simp: dframe_def)
qed

lemma bframe_disk:
  assumes "bframe s s'"
  shows "memdisk s' = memdisk s" "wtrace s' = wtrace s" "disksize s' = disksize s"
proof -
  have h: "s' = s\<lparr>ptable := ptable s', slocks := slocks s', bufs := bufs s'\<rparr>"
    using assms by (simp add: bframe_def)
  from arg_cong [OF h, of memdisk] arg_cong [OF h, of wtrace] arg_cong [OF h, of disksize]
  show "memdisk s' = memdisk s" "wtrace s' = wtrace s" "disksize s' = disksize s" by simp_all
qed

lemma dframe_disksize: "dframe s s' \<Longrightarrow> disksize s' = disksize s"
proof -
  assume "dframe s s'"
  then have h: "s' = s\<lparr>ptable := ptable s', slocks := slocks s', memdisk := memdisk s',
      wtrace := wtrace s', bufs := bufs s'\<rparr>" by (simp add: dframe_def)
  from arg_cong [OF h, of disksize] show ?thesis by simp
qed

lemma bframe_dframe: "bframe s s' \<Longrightarrow> dframe s s'"
  unfolding dframe_def using bframe_disk [of s s'] by (simp add: bframe_def)

text \<open>
  \<open>bst s0 H M v D d w s\<close>: since \<open>s0\<close> only the cache and the disk changed; the running process
  holds the buffers \<open>dom H\<close> (\<open>H\<close> gives the block of each), has changes not yet written or pinned
  in \<open>M\<close>, sees the blocks \<open>v\<close>, the blocks \<open>D\<close> are pinned, the disk holds \<open>d\<close> and the writes so
  far are \<open>w\<close>.
\<close>

definition bst ::
  "('z bstate_scheme) \<Rightarrow> (nat \<rightharpoonup> nat) \<Rightarrow> nat set \<Rightarrow> (nat \<Rightarrow> bytes) \<Rightarrow> nat set \<Rightarrow> (nat \<Rightarrow> bytes)
   \<Rightarrow> (nat \<times> bytes) list \<Rightarrow> ('z bstate_scheme) \<Rightarrow> bool" where
  "bst s0 H M v D d w s \<longleftrightarrow> ready s \<and> binv (dom H) M s \<and> bview s = v \<and> dirtyb s = D
     \<and> memdisk s = d \<and> wtrace s = w \<and> dframe s0 s
     \<and> (\<forall>i bn. H i = Some bn \<longrightarrow> b_blockno (bufs s i) = bn)"

abbreviation idle :: "('z bstate_scheme) \<Rightarrow> (nat \<Rightarrow> bytes) \<Rightarrow> nat set \<Rightarrow> (nat \<Rightarrow> bytes)
   \<Rightarrow> (nat \<times> bytes) list \<Rightarrow> ('z bstate_scheme) \<Rightarrow> bool" where
  "idle s0 v D d w s \<equiv> bst s0 Map.empty {} v D d w s"

lemma bstD:
  assumes "bst s0 H M v D d w s"
  shows "ready s" "binv (dom H) M s" "bview s = v" "dirtyb s = D" "memdisk s = d" "wtrace s = w"
    "dframe s0 s" "H i = Some bn \<Longrightarrow> b_blockno (bufs s i) = bn" "disksize s = disksize s0"
    "length (v c) = BSIZE" "finite D"
proof -
  show "ready s" "binv (dom H) M s" "bview s = v" "dirtyb s = D" "memdisk s = d" "wtrace s = w"
    "dframe s0 s" "H i = Some bn \<Longrightarrow> b_blockno (bufs s i) = bn"
    using assms by (simp_all add: bst_def)
  then show "disksize s = disksize s0" "length (v c) = BSIZE"
    using dframe_disksize length_bview by (blast, metis)
  show "finite D" using assms by (auto simp: bst_def dirtyb_def)
qed

lemma wp_bread:
  assumes "bst s0 H M v D d w s" "bn < disksize s0" "bn \<notin> ran H"
    and "bn \<in> D \<or> card (dom H) + card D < NBUF"
    and "\<And>i s'. H i = None \<Longrightarrow> i < NBUF \<Longrightarrow> bst s0 (H(i \<mapsto> bn)) M v D d w s' \<Longrightarrow> Q i s'"
  shows "wp (bread 1 bn) Q s"
proof -
  note st = bstD [OF assms(1)]
  have "\<forall>i \<in> dom H. b_blockno (bufs s i) \<noteq> bn"
    using st(8) assms(3) by (auto simp: ran_def)
  then obtain i b where b: "bread 1 bn s = Ret i (fetched i bn b s)" "fetch_ok (dom H) i bn b s"
    using bread_fetch [of s "dom H" M bn] st(1,2,4,9) assms(2,4) by auto
  let ?s = "fetched i bn b s"
  have i: "H i = None" "i < NBUF" "b_blockno b = bn" using b(2) by (auto simp: fetch_ok_def)
  have "ready ?s" using st(1) by (simp add: fetched_def)
  moreover have "binv (insert i (dom H)) M ?s"
    using fetched_binv [OF st(1,2) b(2)] assms(2) st(9) by simp
  moreover have "bview ?s = v" using fetched_bview [OF st(2) b(2)] st(3) by simp
  moreover have "dirtyb ?s = D" using fetched_dirtyb [OF b(2)] st(4) by simp
  moreover have "\<forall>j c. (H(i \<mapsto> bn)) j = Some c \<longrightarrow> b_blockno (bufs ?s j) = c"
    using i(3) st(8) by (simp add: fetched_def)
  moreover have "memdisk ?s = d" "wtrace ?s = w" using st(5,6) by (simp_all add: fetched_def)
  moreover have "dframe s0 ?s" using st(7) fetched_bframe bframe_dframe dframe_trans by blast
  ultimately have "bst s0 (H(i \<mapsto> bn)) M v D d w ?s" by (simp add: bst_def)
  then have "Q i ?s" using assms(5) i by blast
  then show ?thesis using b(1) by (rule wpI [rotated])
qed

lemma wp_brelse:
  assumes "bst s0 H M v D d w s" "i \<in> dom H" "i \<notin> M"
    and "\<And>s'. bst s0 (H(i := None)) M v D d w s' \<Longrightarrow> Q () s'"
  shows "wp (brelse i) Q s"
proof -
  note st = bstD [OF assms(1)]
  obtain s' where s': "brelse i s = Ret () s'" "binv (dom H - {i}) M s'" "bview s' = bview s"
      "dirtyb s' = dirtyb s" "bframe s s'" "ready s'"
      "\<forall>j. b_blockno (bufs s' j) = b_blockno (bufs s j) \<and> b_data (bufs s' j) = b_data (bufs s j)"
    using brelse_spec [OF st(1,2) assms(2,3)] by blast
  have "dframe s0 s'" using st(7) s'(5) bframe_dframe dframe_trans by blast
  then have "bst s0 (H(i := None)) M v D d w s'"
    using s' st bframe_disk [OF s'(5)] by (simp add: bst_def)
  then show ?thesis using s'(1) assms(4) by (auto intro: wpI)
qed

lemma wp_bwrite:
  assumes "bst s0 H M v D d w s" "H i = Some bn"
    and "\<And>s'. bst s0 H (M - {i}) v (D - {bn}) (d(bn := v bn)) (w @ [(bn, v bn)]) s' \<Longrightarrow> Q () s'"
  shows "wp (bwrite i) Q s"
proof -
  note st = bstD [OF assms(1)]
  have i: "i \<in> dom H" "b_blockno (bufs s i) = bn" using assms(2) st(8) by auto
  obtain s' where s': "bwrite i s = Ret () s'" "binv (dom H) (M - {i}) s'" "bview s' = bview s"
     "dirtyb s' = dirtyb s - {bn}" "memdisk s' = (memdisk s)(bn := v bn)"
     "wtrace s' = wtrace s @ [(bn, v bn)]"
     "s' = s\<lparr>bufs := bufs s', memdisk := memdisk s', wtrace := wtrace s'\<rparr>"
     "\<forall>j. b_blockno (bufs s' j) = b_blockno (bufs s j) \<and> b_data (bufs s' j) = b_data (bufs s j)"
    using bwrite_spec [OF st(1,2) i(1)] i(2) st(3) by auto
  have eq: "ptable s' = ptable s" "slocks s' = slocks s" "spin s' = spin s"
    using arg_cong [OF s'(7), of ptable] arg_cong [OF s'(7), of slocks] arg_cong [OF s'(7), of spin]
    by simp_all
  have "ready s'" using st(1) eq by (simp add: ready_def)
  moreover have "dframe s s'" unfolding dframe_def eq by (subst (1) s'(7)) simp
  then have "dframe s0 s'" using st(7) dframe_trans by blast
  ultimately have "bst s0 H (M - {i}) v (D - {bn}) (d(bn := v bn)) (w @ [(bn, v bn)]) s'"
    using s'(2-6,8) st by (simp add: bst_def)
  then show ?thesis using assms(3) s'(1) by (auto intro: wpI)
qed

text \<open>All of this looks only at the fields of \<open>bstate\<close>, not at those added by later components.\<close>

lemma bst_trunc:
  "ready s = ready (bstate.truncate s)" "binv H M s = binv H M (bstate.truncate s)"
  "bview s = bview (bstate.truncate s)" "dirtyb s = dirtyb (bstate.truncate s)"
  "memdisk s = memdisk (bstate.truncate s)" "wtrace s = wtrace (bstate.truncate s)"
  "bufs s = bufs (bstate.truncate s)"
proof -
  show "ready s = ready (bstate.truncate s)" by (simp add: ready_def bstate.truncate_def)
  have "curpid s = curpid (bstate.truncate s)"
    by (simp add: curpid_def curproc_def bstate.truncate_def)
  then show "binv H M s = binv H M (bstate.truncate s)"
    by (simp add: binv_def bring_def buf_ok_def one_buf_def bstate.truncate_def)
  have "caches (bstate.truncate s) = caches s" by (simp add: caches_def fun_eq_iff bstate.truncate_def)
  then have "bview s c = bview (bstate.truncate s) c" for c
    by (cases "find (caches s c) [0..<NBUF]") (simp_all add: bview_def, simp_all add: bstate.truncate_def)
  then show "bview s = bview (bstate.truncate s)" by blast
  show "dirtyb s = dirtyb (bstate.truncate s)" by (simp add: dirtyb_def bstate.truncate_def)
qed (simp_all add: bstate.truncate_def)

lemma bst_update:
  assumes "bst s0 H M v D d w s" "bstate.truncate (u s) = bstate.truncate s" "dframe (u s0) (u s)"
  shows "bst (u s0) H M v D d w (u s)"
  using assms(1,3)
  unfolding bst_def bst_trunc(1) [of s] bst_trunc(2) [of _ _ s] bst_trunc(3-7) [of s]
    bst_trunc(1) [of "u s"] bst_trunc(2) [of _ _ "u s"] bst_trunc(3-7) [of "u s"] assms(2)
  by blast

end
