(* ===== verification/Log.thy ===== *)
theory Log
  imports Bio_View
begin

text \<open>
  The write-ahead log, \<^verbatim>\<open>src/xv6/log.c\<close>, and \<^verbatim>\<open>readsb\<close> of \<^verbatim>\<open>src/xv6/fs.c\<close>, which
  \<^verbatim>\<open>initlog\<close> calls. The in-memory header is the count \<open>lh_n\<close> and the array \<open>lh_block\<close> of
  \<open>LOGSIZE\<close> entries; an access outside the array is \<open>Undef\<close>. On disk the header is a
  little-endian count followed by the block numbers.
\<close>

section \<open>State\<close>

definition MAXOPBLOCKS :: nat where "MAXOPBLOCKS = 10"
definition LOGSIZE :: nat where "LOGSIZE = 30"

record superblock =
  sb_size :: nat
  sb_nblocks :: nat
  sb_ninodes :: nat
  sb_nlog :: nat
  sb_logstart :: nat
  sb_inodestart :: nat
  sb_bmapstart :: nat

record lstate = bstate +
  lg_start :: nat
  lg_size :: int
  lg_outstanding :: int
  lg_committing :: bool
  lg_dev :: nat
  lh_n :: int
  lh_block :: "nat list"

section \<open>On-disk layout\<close>

definition get32 :: "bytes \<Rightarrow> nat \<Rightarrow> u32" where
  "get32 d off = of_le32 (slice off 4 d)"

definition put32 :: "bytes \<Rightarrow> nat \<Rightarrow> u32 \<Rightarrow> bytes" where
  "put32 d off v = splice off (le32 v) d"

definition sb_of :: "bytes \<Rightarrow> superblock" where
  "sb_of d = \<lparr>sb_size = unat (get32 d 0), sb_nblocks = unat (get32 d 4),
     sb_ninodes = unat (get32 d 8), sb_nlog = unat (get32 d 12), sb_logstart = unat (get32 d 16),
     sb_inodestart = unat (get32 d 20), sb_bmapstart = unat (get32 d 24)\<rparr>"

section \<open>Operations\<close>

definition bdata :: "nat \<Rightarrow> ('z bstate_scheme, bytes) kern" where
  "bdata b = kget (\<lambda>s. b_data (bufs s b))"

definition set_bdata :: "nat \<Rightarrow> bytes \<Rightarrow> ('z bstate_scheme, unit) kern" where
  "set_bdata b d = kmod_buf b (\<lambda>y. y\<lparr>b_data := d\<rparr>)"

definition readsb :: "nat \<Rightarrow> ('z bstate_scheme, superblock) kern" where
  "readsb dev =
     kbind (bread dev 1) (\<lambda>bp.
     kbind (bdata bp) (\<lambda>d.
     kseq (brelse bp) (kret (sb_of d))))"

definition get_lh_block :: "nat \<Rightarrow> ('z lstate_scheme, nat) kern" where
  "get_lh_block i = (\<lambda>s. if i < length (lh_block s) then Ret (lh_block s ! i) s else Undef)"

definition set_lh_block :: "nat \<Rightarrow> nat \<Rightarrow> ('z lstate_scheme, unit) kern" where
  "set_lh_block i v = (\<lambda>s. if i < length (lh_block s) then Ret () (s\<lparr>lh_block := (lh_block s)[i := v]\<rparr>)
     else Undef)"

definition install_step :: "nat \<Rightarrow> ('z lstate_scheme, unit) kern" where
  "install_step tail =
     kbind (kget lg_dev) (\<lambda>dev.
     kbind (kget lg_start) (\<lambda>start.
     kbind (bread dev (start + tail + 1)) (\<lambda>lbuf.
     kbind (get_lh_block tail) (\<lambda>blk.
     kbind (bread dev blk) (\<lambda>dbuf.
     kbind (bdata lbuf) (\<lambda>d.
     kseq (set_bdata dbuf d)
     (kseq (bwrite dbuf)
     (kseq (brelse lbuf)
      (brelse dbuf)))))))))"

definition install_trans :: "('z lstate_scheme, unit) kern" where
  "install_trans = kbind (kget lh_n) (\<lambda>n. kfor [0..<nat n] install_step)"

definition read_head :: "('z lstate_scheme, unit) kern" where
  "read_head =
     kbind (kget lg_dev) (\<lambda>dev.
     kbind (kget lg_start) (\<lambda>start.
     kbind (bread dev start) (\<lambda>buf.
     kbind (bdata buf) (\<lambda>d.
     kseq (kmod (\<lambda>s. s\<lparr>lh_n := sint (get32 d 0)\<rparr>))
     (kseq (kfor [0..<nat (sint (get32 d 0))] (\<lambda>i. set_lh_block i (unat (get32 d (4 + 4 * i)))))
      (brelse buf))))))"

definition put_entry :: "nat \<Rightarrow> nat \<Rightarrow> ('z lstate_scheme, unit) kern" where
  "put_entry buf i =
     kbind (get_lh_block i) (\<lambda>blk.
     kbind (bdata buf) (\<lambda>d.
     set_bdata buf (put32 d (4 + 4 * i) (of_nat blk))))"

definition write_head :: "('z lstate_scheme, unit) kern" where
  "write_head =
     kbind (kget lg_dev) (\<lambda>dev.
     kbind (kget lg_start) (\<lambda>start.
     kbind (bread dev start) (\<lambda>buf.
     kbind (kget lh_n) (\<lambda>n.
     kbind (bdata buf) (\<lambda>d.
     kseq (set_bdata buf (put32 d 0 (of_int n)))
     (kseq (kfor [0..<nat n] (put_entry buf))
     (kseq (bwrite buf)
      (brelse buf))))))))"

definition recover_from_log :: "('z lstate_scheme, unit) kern" where
  "recover_from_log =
     kseq read_head
     (kseq install_trans
     (kseq (kmod (\<lambda>s. s\<lparr>lh_n := 0\<rparr>))
      write_head))"

text \<open>\<open>sizeof(struct logheader)\<close> is \<open>4 + 4 * LOGSIZE\<close>, which is less than \<open>BSIZE\<close>.\<close>

definition initlog :: "nat \<Rightarrow> ('z lstate_scheme, unit) kern" where
  "initlog dev =
     kseq (panic_if (4 + 4 * LOGSIZE \<ge> BSIZE) ''initlog: too big logheader'')
     (kseq (initlock LogLk)
     (kbind (readsb dev) (\<lambda>sb.
      kseq (kmod (\<lambda>s. s\<lparr>lg_start := sb_logstart sb\<rparr>))
      (kseq (kmod (\<lambda>s. s\<lparr>lg_size := int (sb_nlog sb)\<rparr>))
      (kseq (kmod (\<lambda>s. s\<lparr>lg_dev := dev\<rparr>))
       recover_from_log)))))"

text \<open>
  The body of the loop of \<open>begin_op\<close>; each \<open>sleep\<close> gives up the CPU, and the loop goes on with
  \<open>begin_op_resume\<close>.
\<close>

definition begin_op_try :: "('z lstate_scheme, unit) kern" where
  "begin_op_try =
     kbind (kget lg_committing) (\<lambda>c.
     if c then sleep_on (Some ChanLog) (Some LogLk)
     else kbind (kget (\<lambda>s. lh_n s + (lg_outstanding s + 1) * int MAXOPBLOCKS)) (\<lambda>need.
          if need > int LOGSIZE then sleep_on (Some ChanLog) (Some LogLk)
          else kseq (kmod (\<lambda>s. s\<lparr>lg_outstanding := lg_outstanding s + 1\<rparr>))
               (release LogLk)))"

definition begin_op :: "('z lstate_scheme, unit) kern" where
  "begin_op = kseq (acquire LogLk) begin_op_try"

definition begin_op_resume :: "nat \<Rightarrow> ('z lstate_scheme, unit) kern" where
  "begin_op_resume p = kseq (sleep_return p LogLk) begin_op_try"

definition write_log_step :: "nat \<Rightarrow> ('z lstate_scheme, unit) kern" where
  "write_log_step tail =
     kbind (kget lg_dev) (\<lambda>dev.
     kbind (kget lg_start) (\<lambda>start.
     kbind (bread dev (start + tail + 1)) (\<lambda>to.
     kbind (get_lh_block tail) (\<lambda>blk.
     kbind (bread dev blk) (\<lambda>from.
     kbind (bdata from) (\<lambda>d.
     kseq (set_bdata to d)
     (kseq (bwrite to)
     (kseq (brelse from)
      (brelse to)))))))))"

definition write_log :: "('z lstate_scheme, unit) kern" where
  "write_log = kbind (kget lh_n) (\<lambda>n. kfor [0..<nat n] write_log_step)"

definition commit :: "('z lstate_scheme, unit) kern" where
  "commit =
     kbind (kget lh_n) (\<lambda>n.
     kwhen (n > 0)
       (kseq write_log
       (kseq write_head
       (kseq install_trans
       (kseq (kmod (\<lambda>s. s\<lparr>lh_n := 0\<rparr>))
        write_head)))))"

definition end_op :: "('z lstate_scheme, unit) kern" where
  "end_op =
     kseq (acquire LogLk)
     (kseq (kmod (\<lambda>s. s\<lparr>lg_outstanding := lg_outstanding s - 1\<rparr>))
     (kbind (kget lg_committing) (\<lambda>c.
      kseq (panic_if c ''log.committing'')
      (kbind (kget lg_outstanding) (\<lambda>out.
       kseq (if out = 0 then kmod (\<lambda>s. s\<lparr>lg_committing := True\<rparr>) else wakeup (Some ChanLog))
       (kseq (release LogLk)
        (kwhen (out = 0)
          (kseq commit
          (kseq (acquire LogLk)
          (kseq (kmod (\<lambda>s. s\<lparr>lg_committing := False\<rparr>))
          (kseq (wakeup (Some ChanLog))
           (release LogLk))))))))))))"

text \<open>The search loop of \<open>log_write\<close>: the first index of the block, or \<open>n\<close>.\<close>

function absorb_at :: "nat list \<Rightarrow> nat \<Rightarrow> nat \<Rightarrow> nat \<Rightarrow> nat" where
  "absorb_at bs n bn i = (if i < n \<and> bs ! i \<noteq> bn then absorb_at bs n bn (i + 1) else i)"
  by pat_completeness auto
termination
  by (relation "measure (\<lambda>(bs, n, bn, i). n - i)") auto

declare absorb_at.simps [simp del]

definition log_write :: "nat \<Rightarrow> ('z lstate_scheme, unit) kern" where
  "log_write b =
     kbind (kget lh_n) (\<lambda>n.
     kbind (kget lg_size) (\<lambda>sz.
     kseq (panic_if (n \<ge> int LOGSIZE \<or> n \<ge> sz - 1) ''too big a transaction'')
     (kbind (kget lg_outstanding) (\<lambda>out.
      kseq (panic_if (out < 1) ''log_write outside of trans'')
      (kseq (acquire LogLk)
      (kbind (kget (\<lambda>s. b_blockno (bufs s b))) (\<lambda>bn.
       kbind (kget (\<lambda>s. absorb_at (lh_block s) (nat (lh_n s)) bn 0)) (\<lambda>i.
       kbind (kget lh_n) (\<lambda>n.
       kseq (set_lh_block i bn)
       (kseq (kwhen (int i = n) (kmod (\<lambda>s. s\<lparr>lh_n := lh_n s + 1\<rparr>)))
       (kseq (kmod_buf b (\<lambda>y. y\<lparr>b_dirty := True\<rparr>))
        (release LogLk))))))))))))"

section \<open>Layout lemmas\<close>

lemma get32_put32_same: "off + 4 \<le> length d \<Longrightarrow> get32 (put32 d off v) off = v"
  using slice_splice_same [of off "le32 v" d] by (simp add: get32_def put32_def)

lemma get32_put32_other:
  "off + 4 \<le> length d \<Longrightarrow> o' + 4 \<le> length d \<Longrightarrow> o' + 4 \<le> off \<or> off + 4 \<le> o' \<Longrightarrow> get32 (put32 d off v) o' = get32 d o'"
  by (simp add: get32_def put32_def slice_splice_other)

lemma length_put32 [simp]: "off + 4 \<le> length d \<Longrightarrow> length (put32 d off v) = length d"
  by (simp add: put32_def)

end
