(* ===== verification/Log_Spec.thy ===== *)
theory Log_Spec
  imports Log
begin

text \<open>
  What the log does to the disk, block by block: \<open>write_log\<close>, \<open>write_head\<close>, \<open>install_trans\<close>,
  \<open>commit\<close> and \<open>recover_from_log\<close> as sequences of block writes, for a process that holds no
  buffer. The crash theorem of \<open>Log_Crash\<close> rests on these.
\<close>

section \<open>Rules\<close>

lemma dframe_log:
  fixes s s' :: "'z lstate_scheme"
  assumes "dframe s s'"
  shows "lg_start s' = lg_start s" "lg_size s' = lg_size s" "lg_dev s' = lg_dev s" "lh_n s' = lh_n s"
    "lh_block s' = lh_block s" "disksize s' = disksize s" "lg_outstanding s' = lg_outstanding s"
    "lg_committing s' = lg_committing s" "spin s' = spin s"
proof -
  have h: "s' = s\<lparr>ptable := ptable s', slocks := slocks s', memdisk := memdisk s',
       wtrace := wtrace s', bufs := bufs s'\<rparr>" using assms by (simp add: dframe_def)
  show "lg_start s' = lg_start s" "lg_size s' = lg_size s" "lg_dev s' = lg_dev s" "lh_n s' = lh_n s"
    "lh_block s' = lh_block s" "disksize s' = disksize s" "lg_outstanding s' = lg_outstanding s"
    "lg_committing s' = lg_committing s" "spin s' = spin s"
    using arg_cong [OF h, of lg_start] arg_cong [OF h, of lg_size] arg_cong [OF h, of lg_dev]
      arg_cong [OF h, of lh_n] arg_cong [OF h, of lh_block] arg_cong [OF h, of disksize]
      arg_cong [OF h, of lg_outstanding] arg_cong [OF h, of lg_committing] arg_cong [OF h, of spin]
    by simp_all
qed

lemma wp_get_log:
  fixes s :: "'z lstate_scheme"
  assumes "bst s0 H M v D d w s"
  shows "Q1 (lg_dev s0) s \<Longrightarrow> wp (kget lg_dev) Q1 s"
    "Q2 (lg_start s0) s \<Longrightarrow> wp (kget lg_start) Q2 s"
    "Q3 (lh_n s0) s \<Longrightarrow> wp (kget lh_n) Q3 s"
    "i < length (lh_block s0) \<Longrightarrow> Q4 (lh_block s0 ! i) s \<Longrightarrow> wp (get_lh_block i) Q4 s"
  using dframe_log [OF bstD(7) [OF assms]] by (simp_all add: kexec wp_def get_lh_block_def)

lemma wp_bdata:
  assumes "bst s0 H M v D d w s" "H i = Some bn" "Q (v bn) s"
  shows "wp (bdata i) Q s"
proof -
  note st = bstD [OF assms(1)]
  have "bview s bn = b_data (bufs s i)"
    using bview_held [OF st(2), of i] assms(2) st(8) by auto
  then show ?thesis using assms(3) st(3) by (simp add: bdata_def kwp)
qed

lemma wp_set_bdata:
  assumes "bst s0 H M v D d w s" "H i = Some bn" "length e = BSIZE"
    and "\<And>s'. bst s0 H (insert i M) (v(bn := e)) D d w s' \<Longrightarrow> Q () s'"
  shows "wp (set_bdata i e) Q s"
proof -
  note st = bstD [OF assms(1)]
  have i: "b_blockno (bufs s i) = bn" "i \<in> dom H" using assms(2) st(8) by auto
  note sp = set_data_spec [OF st(2) i(2) assms(3)]
  have "\<forall>j c. H j = Some c \<longrightarrow> b_blockno (bufs (set_data i e s) j) = c"
    using st(8) by simp
  moreover have "dframe s0 (set_data i e s)" using st(7) sp(4) bframe_dframe dframe_trans by blast
  ultimately have "bst s0 H (insert i M) (v(bn := e)) D d w (set_data i e s)"
    using st i sp(1-3) by (simp add: bst_def)
  then have "Q () (set_data i e s)" by (rule assms(4))
  then show ?thesis by (simp add: set_bdata_def kmod_buf_def kwp)
qed

lemma hold_upd [simp]:
  "(Map.empty(i \<mapsto> x))(i := None) = Map.empty"
  "i \<noteq> j \<Longrightarrow> (H(i \<mapsto> x, j \<mapsto> y))(i := None) = (H(i := None))(j \<mapsto> y)"
  by (auto simp: fun_eq_iff)

section \<open>One block\<close>

lemma wp_write_log_step:
  fixes s :: "'z lstate_scheme"
  assumes st: "idle s0 v D d w s" and geom: "lg_dev s0 = 1" "lg_start s0 + tail + 1 < disksize s0"
    "tail < length (lh_block s0)" "lh_block s0 ! tail < disksize s0" "lh_block s0 ! tail \<in> D"
    "card D < NBUF" "lh_block s0 ! tail \<noteq> lg_start s0 + tail + 1" "lg_start s0 + tail + 1 \<notin> D"
    and Q: "\<And>s'. idle s0 (v(lg_start s0 + tail + 1 := v (lh_block s0 ! tail))) D
      (d(lg_start s0 + tail + 1 := v (lh_block s0 ! tail)))
      (w @ [(lg_start s0 + tail + 1, v (lh_block s0 ! tail))]) s' \<Longrightarrow> Q () s'"
  shows "wp (write_log_step tail) Q s"
  unfolding write_log_step_def wp_kbind wp_kseq
  apply (rule wp_get_log [OF st])+
  apply (subst geom(1))
  apply (rule wp_bread [OF st])
     apply (use geom in simp_all)[3]
  apply (rule wp_get_log, assumption, rule geom)
  apply (subst geom(1))
  apply (rule wp_bread, assumption)
     apply (use geom in simp_all)[3]
  apply (rule wp_bdata, assumption, simp)
  apply (rule wp_set_bdata, assumption)
    apply (use bstD(10) [OF st] in \<open>auto split: if_splits\<close>)[2]
  apply (rule wp_bwrite, assumption)
   apply (auto split: if_splits)[1]
  apply (rule wp_brelse, assumption)
    apply auto[2]
  apply (rule wp_brelse, assumption)
    apply (auto split: if_splits)[2]
  apply (rule Q)
  using geom(8) by (auto simp: fun_upd_twist split: if_splits)

lemma wp_install_step:
  fixes s :: "'z lstate_scheme"
  assumes st: "idle s0 v D d w s" and geom: "lg_dev s0 = 1" "lg_start s0 + tail + 1 < disksize s0"
    "tail < length (lh_block s0)" "lh_block s0 ! tail < disksize s0"
    "lh_block s0 ! tail \<in> D \<or> 1 + card D < NBUF"
    "card D < NBUF" "lh_block s0 ! tail \<noteq> lg_start s0 + tail + 1"
    and Q: "\<And>s'. idle s0 (v(lh_block s0 ! tail := v (lg_start s0 + tail + 1))) (D - {lh_block s0 ! tail})
      (d(lh_block s0 ! tail := v (lg_start s0 + tail + 1)))
      (w @ [(lh_block s0 ! tail, v (lg_start s0 + tail + 1))]) s' \<Longrightarrow> Q () s'"
  shows "wp (install_step tail) Q s"
  unfolding install_step_def wp_kbind wp_kseq
  apply (rule wp_get_log [OF st])+
  apply (subst geom(1))
  apply (rule wp_bread [OF st])
     apply (use geom in simp_all)[3]
  apply (rule wp_get_log, assumption, rule geom)
  apply (subst geom(1))
  apply (rule wp_bread, assumption)
     apply (use geom in simp_all)[3]
  apply (rule wp_bdata, assumption)
   apply (auto split: if_splits)[1]
  apply (rule wp_set_bdata, assumption)
    apply (use bstD(10) [OF st] in \<open>auto split: if_splits\<close>)[2]
  apply (rule wp_bwrite, assumption)
   apply (auto split: if_splits)[1]
  apply (rule wp_brelse, assumption)
    apply (auto split: if_splits)[2]
  apply (rule wp_brelse, assumption)
    apply (auto split: if_splits)[2]
  apply (rule Q)
  by (auto simp: fun_upd_twist split: if_splits)

section \<open>The loops\<close>

definition entries :: "('z lstate_scheme) \<Rightarrow> nat list" where
  "entries s = take (nat (lh_n s)) (lh_block s)"

text \<open>The in-memory header and the log area fit the disk, and no logged block is in the log area.\<close>

definition log_geom :: "('z lstate_scheme) \<Rightarrow> bool" where
  "log_geom s \<longleftrightarrow> lg_dev s = 1 \<and> length (lh_block s) = LOGSIZE \<and> lg_start s + LOGSIZE \<le> disksize s
     \<and> disksize s < 2 ^ 32"

definition log_blocks :: "('z lstate_scheme) \<Rightarrow> nat set" where
  "log_blocks s = {lg_start s..<lg_start s + LOGSIZE}"

definition entries_ok :: "('z lstate_scheme) \<Rightarrow> bool" where
  "entries_ok s \<longleftrightarrow> 0 \<le> lh_n s \<and> lh_n s < int LOGSIZE \<and> distinct (entries s)
     \<and> (\<forall>b \<in> set (entries s). b < disksize s \<and> b \<notin> log_blocks s)"

definition logged :: "nat \<Rightarrow> nat list \<Rightarrow> nat \<Rightarrow> (nat \<Rightarrow> bytes) \<Rightarrow> (nat \<Rightarrow> bytes) \<Rightarrow> nat \<Rightarrow> bytes" where
  "logged start L k v d = (\<lambda>b. if start < b \<and> b \<le> start + k then v (L ! (b - start - 1)) else d b)"

definition log_writes :: "nat \<Rightarrow> nat list \<Rightarrow> nat \<Rightarrow> (nat \<Rightarrow> bytes) \<Rightarrow> (nat \<times> bytes) list" where
  "log_writes start L k v = map (\<lambda>i. (start + i + 1, v (L ! i))) [0..<k]"

lemma logged_Suc:
  "logged start L (Suc k) v d = (logged start L k v d)(start + k + 1 := v (L ! k))"
  by (auto simp: logged_def fun_eq_iff)

lemma log_writes_Suc:
  "log_writes start L (Suc k) v = log_writes start L k v @ [(start + k + 1, v (L ! k))]"
  by (simp add: log_writes_def)

lemma entries_nth:
  assumes "entries_ok s" "log_geom s" "k < length (entries s)"
  shows "entries s ! k = lh_block s ! k" "k < length (lh_block s)" "lh_block s ! k < disksize s"
    "lh_block s ! k \<notin> log_blocks s" "lg_start s + k + 1 < disksize s" "k < LOGSIZE - 1"
    "lg_start s + k + 1 \<in> log_blocks s"
proof -
  have k: "k < nat (lh_n s)" "k < length (lh_block s)" using assms(3) by (simp_all add: entries_def)
  have m: "entries s ! k \<in> set (entries s)" using assms(3) by simp
  show "entries s ! k = lh_block s ! k" using k by (simp add: entries_def)
  then show "k < length (lh_block s)" "lh_block s ! k < disksize s" "lh_block s ! k \<notin> log_blocks s"
    "lg_start s + k + 1 < disksize s" "k < LOGSIZE - 1" "lg_start s + k + 1 \<in> log_blocks s"
    using k m assms(1,2) by (auto simp: entries_ok_def log_geom_def log_blocks_def)
qed

lemma length_entries:
  "entries_ok s \<Longrightarrow> log_geom s \<Longrightarrow> length (entries s) = nat (lh_n s)"
  by (auto simp: entries_def entries_ok_def log_geom_def)

lemma wp_write_log:
  fixes s :: "'z lstate_scheme"
  assumes st: "idle s0 v D d w s" and ok: "log_geom s0" "entries_ok s0" "set (entries s0) = D"
    and Q: "\<And>s'. idle s0 (logged (lg_start s0) (entries s0) (length (entries s0)) v v) D
      (logged (lg_start s0) (entries s0) (length (entries s0)) v d)
      (w @ log_writes (lg_start s0) (entries s0) (length (entries s0)) v) s' \<Longrightarrow> Q () s'"
  shows "wp write_log Q s"
  unfolding write_log_def wp_kbind wp_kseq
proof (rule wp_get_log(3) [OF st], fold length_entries [OF ok(2,1)])
  let ?L = "entries s0" and ?a = "lg_start s0"
  let ?P = "\<lambda>k. idle s0 (logged ?a ?L k v v) D (logged ?a ?L k v d) (w @ log_writes ?a ?L k v)"
  have D: "card D < NBUF"
    using ok(3) card_length [of ?L] length_entries [OF ok(2,1)] ok(2)
    by (auto simp: entries_ok_def LOGSIZE_def NBUF_def)
  have "logged ?a ?L 0 x y = y" for x y by (auto simp: logged_def fun_eq_iff)
  then have P0: "?P 0 s" using st by (simp add: log_writes_def)
  show "wp (kfor [0..<length ?L] write_log_step) Q s"
  proof (rule wp_kfor_upt [where P = ?P])
    show "?P 0 s" by (rule P0)
    show "\<And>t. ?P (length ?L) t \<Longrightarrow> Q () t" by (rule Q)
    fix k t assume k: "k < length ?L" and t: "?P k t"
    note e = entries_nth [OF ok(2,1) k]
    have v: "logged ?a ?L k v v (lh_block s0 ! k) = v (?L ! k)"
      using e by (auto simp: logged_def log_blocks_def)
    have nin: "?a + k + 1 \<notin> D" using ok(2,3) e(7) by (auto simp: entries_ok_def)
    have inD: "lh_block s0 ! k \<in> D" using ok(3) k e(1) by (metis nth_mem)
    show "wp (write_log_step k) (\<lambda>_. ?P (Suc k)) t"
      by (rule wp_write_log_step [OF t])
        (use e ok(1) D inD nin v in \<open>auto simp: logged_Suc log_writes_Suc log_geom_def\<close>)
  qed
qed

primrec installed :: "nat \<Rightarrow> nat list \<Rightarrow> (nat \<Rightarrow> bytes) \<Rightarrow> (nat \<Rightarrow> bytes) \<Rightarrow> nat \<Rightarrow> nat \<Rightarrow> bytes" where
  "installed start L v d 0 = d"
| "installed start L v d (Suc k) = (installed start L v d k)(L ! k := v (start + k + 1))"

definition inst_writes :: "nat \<Rightarrow> nat list \<Rightarrow> (nat \<Rightarrow> bytes) \<Rightarrow> nat \<Rightarrow> (nat \<times> bytes) list" where
  "inst_writes start L v k = map (\<lambda>i. (L ! i, v (start + i + 1))) [0..<k]"

lemma inst_writes_Suc:
  "inst_writes start L v (Suc k) = inst_writes start L v k @ [(L ! k, v (start + k + 1))]"
  by (simp add: inst_writes_def)

lemma installed_out: "b \<notin> set (take k L) \<Longrightarrow> k \<le> length L \<Longrightarrow> installed start L v d k b = d b"
proof (induction k)
  case (Suc k)
  then show ?case by (auto simp: take_Suc_conv_app_nth)
qed simp

lemma installed_in:
  "distinct L \<Longrightarrow> i < k \<Longrightarrow> k \<le> length L \<Longrightarrow> installed start L v d k (L ! i) = v (start + i + 1)"
proof (induction k)
  case (Suc k)
  then show ?case by (auto simp: less_Suc_eq nth_eq_iff_index_eq)
qed simp

lemma wp_install_trans:
  fixes s :: "'z lstate_scheme"
  assumes st: "idle s0 v D d w s" and ok: "log_geom s0" "entries_ok s0"
      "D = set (entries s0) \<or> D = {}"
    and Q: "\<And>s'. idle s0 (installed (lg_start s0) (entries s0) v v (length (entries s0))) {}
      (installed (lg_start s0) (entries s0) v d (length (entries s0)))
      (w @ inst_writes (lg_start s0) (entries s0) v (length (entries s0))) s' \<Longrightarrow> Q () s'"
  shows "wp install_trans Q s"
  unfolding install_trans_def wp_kbind wp_kseq
proof (rule wp_get_log(3) [OF st], fold length_entries [OF ok(2,1)])
  let ?L = "entries s0" and ?a = "lg_start s0"
  let ?P = "\<lambda>k. idle s0 (installed ?a ?L v v k) (D - set (take k ?L)) (installed ?a ?L v d k)
    (w @ inst_writes ?a ?L v k)"
  have card: "card (D - X) < NBUF \<and> (D = {} \<longrightarrow> 1 + card (D - X) < NBUF)" for X
  proof -
    have "finite D" using ok(3) by auto
    then have "card (D - X) \<le> card D" by (intro card_mono) auto
    also have "\<dots> \<le> length ?L" using ok(3) card_length [of ?L] by auto
    finally show ?thesis
      using length_entries [OF ok(2,1)] ok(2) by (auto simp: entries_ok_def LOGSIZE_def NBUF_def)
  qed
  have P0: "?P 0 s" using st by (simp add: inst_writes_def)
  show "wp (kfor [0..<length ?L] install_step) Q s"
  proof (rule wp_kfor_upt [where P = ?P])
    show "?P 0 s" by (rule P0)
    show "Q () t" if "?P (length ?L) t" for t
    proof -
      have e: "D - set (take (length ?L) ?L) = {}" using ok(3) by auto
      show ?thesis using that unfolding e by (rule Q)
    qed
    fix k t assume k: "k < length ?L" and t: "?P k t"
    note e = entries_nth [OF ok(2,1) k]
    have d: "distinct ?L" using ok(2) by (simp add: entries_ok_def)
    have ntk: "?L ! k \<notin> set (take k ?L)"
      using d k by (auto simp: in_set_conv_nth nth_eq_iff_index_eq)
    have "?a + k + 1 \<notin> set (take k ?L)"
      using ok(2) e(7) by (auto simp: entries_ok_def dest: in_set_takeD)
    then have v: "installed ?a ?L v v k (?a + k + 1) = v (?a + k + 1)"
      using k by (intro installed_out) auto
    have room: "?L ! k \<in> D - set (take k ?L) \<or> 1 + card (D - set (take k ?L)) < NBUF"
      using ok(3) card k ntk by auto
    have D: "D - set (take k ?L) - {?L ! k} = D - set (take (Suc k) ?L)"
      using k by (auto simp: take_Suc_conv_app_nth)
    have ne: "lh_block s0 ! k \<noteq> ?a + k + 1" using e(4,7) by metis
    show "wp (install_step k) (\<lambda>_. ?P (Suc k)) t"
    proof (rule wp_install_step [OF t])
      fix s' assume "idle s0 ((installed ?a ?L v v k)(lh_block s0 ! k := installed ?a ?L v v k (?a + k + 1)))
         (D - set (take k ?L) - {lh_block s0 ! k})
         ((installed ?a ?L v d k)(lh_block s0 ! k := installed ?a ?L v v k (?a + k + 1)))
         ((w @ inst_writes ?a ?L v k) @ [(lh_block s0 ! k, installed ?a ?L v v k (?a + k + 1))]) s'"
      then show "?P (Suc k) s'" by (simp only: v D e(1) [symmetric] installed.simps inst_writes_Suc append_assoc)
    qed (use e ok(1) card room ne in \<open>simp_all add: log_geom_def\<close>)
  qed
qed

section \<open>The header block\<close>

primrec head_img :: "bytes \<Rightarrow> int \<Rightarrow> nat list \<Rightarrow> nat \<Rightarrow> bytes" where
  "head_img e n L 0 = put32 e 0 (of_int n)"
| "head_img e n L (Suc k) = put32 (head_img e n L k) (4 + 4 * k) (of_nat (L ! k))"

lemma length_head_img:
  "length e = BSIZE \<Longrightarrow> k \<le> LOGSIZE \<Longrightarrow> length (head_img e n L k) = BSIZE"
  by (induction k) (auto simp: BSIZE_def LOGSIZE_def)

lemma head_img_n:
  "length e = BSIZE \<Longrightarrow> k \<le> LOGSIZE \<Longrightarrow> get32 (head_img e n L k) 0 = of_int n"
proof (induction k)
  case 0
  then show ?case by (simp add: get32_put32_same BSIZE_def)
next
  case (Suc k)
  then show ?case using length_head_img [of e k n L]
    by (simp add: get32_put32_other BSIZE_def LOGSIZE_def)
qed

lemma head_img_block:
  "length e = BSIZE \<Longrightarrow> k \<le> LOGSIZE \<Longrightarrow> i < k \<Longrightarrow>
   get32 (head_img e n L k) (4 + 4 * i) = of_nat (L ! i)"
proof (induction k)
  case (Suc k)
  have l: "length (head_img e n L k) = BSIZE" using Suc.prems by (intro length_head_img) auto
  show ?case
  proof (cases "i = k")
    case True
    then show ?thesis using l Suc.prems by (simp add: get32_put32_same BSIZE_def LOGSIZE_def)
  next
    case False
    then have "i < k" using Suc.prems by simp
    then show ?thesis using l Suc by (simp add: get32_put32_other BSIZE_def LOGSIZE_def)
  qed
qed simp

lemma wp_write_head:
  fixes s :: "'z lstate_scheme"
  assumes st: "idle s0 v D d w s" and ok: "log_geom s0" "0 \<le> lh_n s0" "lh_n s0 \<le> int LOGSIZE"
      "card D < NBUF" "lg_start s0 \<notin> D"
    and hdr: "hdr = head_img (v (lg_start s0)) (lh_n s0) (lh_block s0) (nat (lh_n s0))"
    and Q: "\<And>s'. idle s0 (v(lg_start s0 := hdr)) D (d(lg_start s0 := hdr))
      (w @ [(lg_start s0, hdr)]) s' \<Longrightarrow> Q () s'"
  shows "wp write_head Q s"
  unfolding write_head_def wp_kbind wp_kseq
proof (rule wp_get_log [OF st])+
  let ?a = "lg_start s0" and ?n = "lh_n s0" and ?B = "lh_block s0"
  have dev: "lg_dev s0 = 1" and a: "?a < disksize s0"
    using ok(1) by (auto simp: log_geom_def LOGSIZE_def)
  show "wp (bread (lg_dev s0) ?a)
     (\<lambda>buf. wp (kget lh_n) (\<lambda>n. wp (bdata buf) (\<lambda>d. wp (set_bdata buf (put32 d 0 (of_int n)))
       (\<lambda>_. wp (kfor [0..<nat n] (put_entry buf)) (\<lambda>_. wp (bwrite buf) (\<lambda>_. wp (brelse buf) Q)))))) s"
    unfolding dev
  proof (rule wp_bread [OF st a])
    fix i s1 assume s1: "bst s0 (Map.empty(i \<mapsto> ?a)) {} v D d w s1"
    let ?P = "\<lambda>k. bst s0 (Map.empty(i \<mapsto> ?a)) {i} (v(?a := head_img (v ?a) ?n ?B k)) D d w"
    have len: "length (v ?a) = BSIZE" by (rule bstD(10) [OF st])
    have n: "nat ?n \<le> LOGSIZE" using ok(2,3) by simp
    show "wp (kget lh_n) (\<lambda>n. wp (bdata i) (\<lambda>d. wp (set_bdata i (put32 d 0 (of_int n)))
       (\<lambda>_. wp (kfor [0..<nat n] (put_entry i)) (\<lambda>_. wp (bwrite i) (\<lambda>_. wp (brelse i) Q))))) s1"
    proof (rule wp_get_log(3) [OF s1], rule wp_bdata [OF s1], simp, rule wp_set_bdata [OF s1], simp)
      show "length (put32 (v ?a) 0 (of_int ?n)) = BSIZE" using len by (simp add: BSIZE_def)
      fix s2 assume s2: "bst s0 (Map.empty(i \<mapsto> ?a)) {i} (v(?a := put32 (v ?a) 0 (of_int ?n))) D d w s2"
      show "wp (kfor [0..<nat ?n] (put_entry i)) (\<lambda>_. wp (bwrite i) (\<lambda>_. wp (brelse i) Q)) s2"
      proof (rule wp_kfor_upt [where P = ?P])
        show "?P 0 s2" using s2 by simp
        fix k t assume k: "k < nat ?n" and t: "?P k t"
        have "length (head_img (v ?a) ?n ?B k) = BSIZE" using len n k by (intro length_head_img) auto
        then show "wp (put_entry i k) (\<lambda>_. ?P (Suc k)) t"
          unfolding put_entry_def wp_kbind
          apply (intro wp_get_log(4) [OF t])
           apply (use k n ok(1) in \<open>simp add: log_geom_def\<close>)
          apply (rule wp_bdata [OF t], simp)
          apply (rule wp_set_bdata [OF t], simp)
           apply (use k n in \<open>simp_all add: BSIZE_def LOGSIZE_def\<close>)
          done
      next
        fix t assume t: "?P (nat ?n) t"
        show "wp (bwrite i) (\<lambda>_. wp (brelse i) Q) t"
          apply (rule wp_bwrite [OF t], simp)
          apply (rule wp_brelse, assumption)
            apply simp_all[2]
          apply (rule Q)
          using ok(5) by (simp add: hdr)
      qed
    qed
  qed (use ok in simp_all)
qed

lemma bst_upd_log:
  fixes s :: "'z lstate_scheme"
  assumes "bst s0 H M v D d w s"
  shows "bst (s0\<lparr>lh_n := x\<rparr>) H M v D d w (s\<lparr>lh_n := x\<rparr>)"
    "bst (s0\<lparr>lh_block := y\<rparr>) H M v D d w (s\<lparr>lh_block := y\<rparr>)"
proof -
  have h: "s = s0\<lparr>ptable := ptable s, slocks := slocks s, memdisk := memdisk s, wtrace := wtrace s,
      bufs := bufs s\<rparr>" using bstD(7) [OF assms] by (simp add: dframe_def)
  have e: "s\<lparr>lh_n := x\<rparr> = s0\<lparr>lh_n := x, ptable := ptable s, slocks := slocks s, memdisk := memdisk s,
      wtrace := wtrace s, bufs := bufs s\<rparr>" by (subst (1) h) simp
  have e': "s\<lparr>lh_block := y\<rparr> = s0\<lparr>lh_block := y, ptable := ptable s, slocks := slocks s,
      memdisk := memdisk s, wtrace := wtrace s, bufs := bufs s\<rparr>" by (subst (1) h) simp
  have f: "dframe (s0\<lparr>lh_n := x\<rparr>) (s\<lparr>lh_n := x\<rparr>)" "dframe (s0\<lparr>lh_block := y\<rparr>) (s\<lparr>lh_block := y\<rparr>)"
    using bstD(7) [OF assms] e e' by (simp_all add: dframe_def)
  show "bst (s0\<lparr>lh_n := x\<rparr>) H M v D d w (s\<lparr>lh_n := x\<rparr>)"
    "bst (s0\<lparr>lh_block := y\<rparr>) H M v D d w (s\<lparr>lh_block := y\<rparr>)"
    using bst_update [OF assms, of "lh_n_update (\<lambda>_. x)"] bst_update [OF assms, of "lh_block_update (\<lambda>_. y)"] f
    by (simp_all add: bstate.truncate_def)
qed

section \<open>commit\<close>

text \<open>The writes of one commit, in order: the log blocks, the header, the home blocks, the empty header.\<close>

definition commit_hdr :: "('z lstate_scheme) \<Rightarrow> (nat \<Rightarrow> bytes) \<Rightarrow> bytes" where
  "commit_hdr s v = head_img (v (lg_start s)) (lh_n s) (lh_block s) (nat (lh_n s))"

definition home_writes :: "nat list \<Rightarrow> (nat \<Rightarrow> bytes) \<Rightarrow> (nat \<times> bytes) list" where
  "home_writes L v = map (\<lambda>b. (b, v b)) L"

definition commit_writes :: "('z lstate_scheme) \<Rightarrow> (nat \<Rightarrow> bytes) \<Rightarrow> (nat \<times> bytes) list" where
  "commit_writes s v = log_writes (lg_start s) (entries s) (length (entries s)) v
     @ [(lg_start s, commit_hdr s v)]
     @ home_writes (entries s) v
     @ [(lg_start s, put32 (commit_hdr s v) 0 0)]"

definition apply_writes :: "(nat \<Rightarrow> bytes) \<Rightarrow> (nat \<times> bytes) list \<Rightarrow> nat \<Rightarrow> bytes" where
  "apply_writes d ws = foldl (\<lambda>d (b, x). d(b := x)) d ws"

lemma apply_writes_simps [simp]:
  "apply_writes d [] = d" "apply_writes d ((b, x) # ws) = apply_writes (d(b := x)) ws"
  "apply_writes d (xs @ ys) = apply_writes (apply_writes d xs) ys"
  by (simp_all add: apply_writes_def)

lemma apply_log_writes: "apply_writes d (log_writes a L k v) = logged a L k v d"
proof (induction k)
  case 0
  then show ?case by (auto simp: log_writes_def logged_def fun_eq_iff)
qed (simp add: log_writes_Suc logged_Suc)

lemma apply_inst_writes: "apply_writes d (inst_writes a L v k) = installed a L v d k"
proof (induction k)
  case 0
  then show ?case by (simp add: inst_writes_def)
qed (simp add: inst_writes_Suc)

lemma inst_home_writes:
  assumes "\<And>i. i < length L \<Longrightarrow> v' (a + i + 1) = v (L ! i)"
  shows "inst_writes a L v' (length L) = home_writes L v"
  using assms by (auto simp: inst_writes_def home_writes_def intro!: nth_equalityI)

lemma apply_home_writes:
  "apply_writes d (home_writes L v) = (\<lambda>b. if b \<in> set L then v b else d b)"
proof (induction L arbitrary: d)
  case (Cons x L)
  then show ?case by (auto simp: home_writes_def fun_eq_iff)
qed (simp add: home_writes_def)

lemma wp_commit:
  fixes s :: "'z lstate_scheme"
  assumes st: "idle s0 v D d w s" and ok: "log_geom s0" "entries_ok s0" "set (entries s0) = D"
    and n: "0 < lh_n s0"
    and Q: "\<And>s'. idle (s0\<lparr>lh_n := 0\<rparr>) (apply_writes v (commit_writes s0 v)) {}
      (apply_writes d (commit_writes s0 v)) (w @ commit_writes s0 v) s' \<Longrightarrow> Q () s'"
  shows "wp commit Q s"
  unfolding commit_def wp_kbind wp_kseq
proof (rule wp_get_log(3) [OF st], simp only: wp_kwhen n if_True wp_seqs, rule wp_write_log [OF st ok])
  let ?a = "lg_start s0" and ?L = "entries s0"
  let ?n = "length ?L"
  let ?v1 = "logged ?a ?L ?n v v" and ?h = "commit_hdr s0 v"
  have a: "?a \<notin> D" "card D < NBUF"
    using ok(2) ok(3) [symmetric] ok(1) card_length [of ?L] length_entries [OF ok(2,1)]
    by (auto simp: entries_ok_def log_blocks_def LOGSIZE_def NBUF_def)
  have va: "?v1 ?a = v ?a" by (simp add: logged_def)
  fix s1 assume s1: "idle s0 ?v1 D (logged ?a ?L ?n v d) (w @ log_writes ?a ?L ?n v) s1"
  show "wp write_head (\<lambda>_. wp install_trans (\<lambda>_. wp (kmod (\<lambda>s. s\<lparr>lh_n := 0\<rparr>)) (\<lambda>_. wp write_head Q))) s1"
  proof (rule wp_write_head [OF s1 ok(1), of ?h])
    let ?v2 = "?v1(?a := ?h)"
    fix s2 assume s2: "idle s0 ?v2 D ((logged ?a ?L ?n v d)(?a := ?h))
      ((w @ log_writes ?a ?L ?n v) @ [(?a, ?h)]) s2"
    have home: "?v2 (?a + i + 1) = v (?L ! i)" if "i < ?n" for i
      using that by (simp add: logged_def)
    show "wp install_trans (\<lambda>_. wp (kmod (\<lambda>s. s\<lparr>lh_n := 0\<rparr>)) (\<lambda>_. wp write_head Q)) s2"
    proof (rule wp_install_trans [OF s2 ok(1,2)])
      let ?v3 = "installed ?a ?L ?v2 ?v2 ?n" and ?s0 = "s0\<lparr>lh_n := 0\<rparr>"
      let ?w3 = "((w @ log_writes ?a ?L ?n v) @ [(?a, ?h)]) @ inst_writes ?a ?L ?v2 ?n"
      fix s3 assume s3: "idle s0 ?v3 {} (installed ?a ?L ?v2 ((logged ?a ?L ?n v d)(?a := ?h)) ?n) ?w3 s3"
      have v3a: "?v3 ?a = ?h" using installed_out [of ?a ?n ?L ?a ?v2 ?v2] a(1) ok(3) by simp
      have w3: "?w3 = w @ log_writes ?a ?L ?n v @ [(?a, ?h)] @ home_writes ?L v"
        using inst_home_writes [of ?L ?v2 ?a v, OF home] by simp
      have wr: "?w3 @ [(?a, put32 ?h 0 0)] = w @ commit_writes s0 v"
        unfolding w3 by (simp add: commit_writes_def)
      have ap: "(installed ?a ?L ?v2 ((logged ?a ?L ?n v x)(?a := ?h)) ?n)(?a := put32 ?h 0 0)
          = apply_writes x (commit_writes s0 v)" for x
        using inst_home_writes [of ?L ?v2 ?a v, OF home]
        by (simp add: commit_writes_def apply_log_writes flip: apply_inst_writes)
      show "wp (kmod (\<lambda>s. s\<lparr>lh_n := 0\<rparr>)) (\<lambda>_. wp write_head Q) s3"
        unfolding wp_kmod
      proof (rule wp_write_head [where hdr = "put32 ?h 0 0", OF bst_upd_log(1) [OF s3]])
        fix s4 assume "idle ?s0 (?v3(lg_start ?s0 := put32 ?h 0 0)) {}
          ((installed ?a ?L ?v2 ((logged ?a ?L ?n v d)(?a := ?h)) ?n)(lg_start ?s0 := put32 ?h 0 0))
          (?w3 @ [(lg_start ?s0, put32 ?h 0 0)]) s4"
        then show "Q () s4" using ap [of v] ap [of d] wr by (intro Q) simp
      qed (use ok(1) v3a in \<open>simp_all add: log_geom_def LOGSIZE_def NBUF_def\<close>)
    qed (use ok(3) in simp)
  qed (use ok(2) a va in \<open>simp_all add: entries_ok_def commit_hdr_def\<close>)
qed

end
