(* ===== verification/Inode.thy ===== *)
theory Inode
  imports Log_Spec
begin

text \<open>
  Blocks and inodes of \<^verbatim>\<open>src/xv6/fs.c\<close>: the block bitmap, the on-disk inode layout of
  \<^verbatim>\<open>src/xv6/fs.h\<close>, the inode cache, and \<^verbatim>\<open>bmap\<close>/\<^verbatim>\<open>itrunc\<close>. Pointers into \<^verbatim>\<open>icache.inode\<close>
  are indices; a null inode pointer is \<open>None\<close> where the code can pass one.
\<close>

section \<open>State\<close>

definition NINODE :: nat where "NINODE = 50"
definition NDIRECT :: nat where "NDIRECT = 12"
definition NINDIRECT :: nat where "NINDIRECT = 128"
definition MAXFILE :: nat where "MAXFILE = NDIRECT + NINDIRECT"
definition IPB :: nat where "IPB = 8"
definition BPB :: nat where "BPB = 4096"
definition ROOTDEV :: nat where "ROOTDEV = 1"
definition ROOTINO :: nat where "ROOTINO = 1"

definition T_DIR :: u16 where "T_DIR = 1"
definition T_FILE :: u16 where "T_FILE = 2"
definition T_DEV :: u16 where "T_DEV = 3"

record inode =
  i_dev :: nat
  i_inum :: nat
  i_ref :: int
  i_valid :: bool
  i_type :: u16
  i_major :: u16
  i_minor :: u16
  i_nlink :: u16
  i_size :: u32
  i_addrs :: "u32 list"

record istate = lstate +
  sblk :: superblock
  icache :: "nat \<Rightarrow> inode"

definition IBLOCK :: "nat \<Rightarrow> superblock \<Rightarrow> nat" where
  "IBLOCK i sb = i div IPB + sb_inodestart sb"

definition BBLOCK :: "nat \<Rightarrow> superblock \<Rightarrow> nat" where
  "BBLOCK b sb = b div BPB + sb_bmapstart sb"

section \<open>On-disk inodes\<close>

record dinode =
  d_type :: u16
  d_major :: u16
  d_minor :: u16
  d_nlink :: u16
  d_size :: u32
  d_addrs :: "u32 list"

definition get16 :: "bytes \<Rightarrow> nat \<Rightarrow> u16" where
  "get16 d off = of_le16 (slice off 2 d)"

definition put16 :: "bytes \<Rightarrow> nat \<Rightarrow> u16 \<Rightarrow> bytes" where
  "put16 d off v = splice off (le16 v) d"

definition dinode_off :: "nat \<Rightarrow> nat" where
  "dinode_off inum = 64 * (inum mod IPB)"

definition get_dinode :: "bytes \<Rightarrow> nat \<Rightarrow> dinode" where
  "get_dinode d off = \<lparr>d_type = get16 d off, d_major = get16 d (off + 2), d_minor = get16 d (off + 4),
     d_nlink = get16 d (off + 6), d_size = get32 d (off + 8),
     d_addrs = map (\<lambda>i. get32 d (off + 12 + 4 * i)) [0..<NDIRECT + 1]\<rparr>"

definition enc_dinode :: "dinode \<Rightarrow> bytes" where
  "enc_dinode x = le16 (d_type x) @ le16 (d_major x) @ le16 (d_minor x) @ le16 (d_nlink x)
     @ le32 (d_size x) @ concat (map le32 (d_addrs x))"

definition put_dinode :: "bytes \<Rightarrow> nat \<Rightarrow> dinode \<Rightarrow> bytes" where
  "put_dinode d off x = splice off (enc_dinode x) d"

definition dinode_of :: "inode \<Rightarrow> dinode" where
  "dinode_of ip = \<lparr>d_type = i_type ip, d_major = i_major ip, d_minor = i_minor ip,
     d_nlink = i_nlink ip, d_size = i_size ip, d_addrs = i_addrs ip\<rparr>"

definition zero_dinode :: dinode where
  "zero_dinode = \<lparr>d_type = 0, d_major = 0, d_minor = 0, d_nlink = 0, d_size = 0,
     d_addrs = replicate (NDIRECT + 1) 0\<rparr>"

section \<open>Blocks\<close>

definition kmod_inode :: "nat \<Rightarrow> (inode \<Rightarrow> inode) \<Rightarrow> ('z istate_scheme, unit) kern" where
  "kmod_inode i f = kmod (\<lambda>s. s\<lparr>icache := (icache s)(i := f (icache s i))\<rparr>)"

definition bzero :: "nat \<Rightarrow> nat \<Rightarrow> ('z istate_scheme, unit) kern" where
  "bzero dev bno =
     kbind (bread dev bno) (\<lambda>bp.
     kseq (set_bdata bp (replicate BSIZE 0))
     (kseq (log_write bp)
      (brelse bp)))"

definition bmask :: "nat \<Rightarrow> u8" where
  "bmask bi = push_bit (bi mod 8) 1"

definition bit_free :: "bytes \<Rightarrow> nat \<Rightarrow> bool" where
  "bit_free d bi \<longleftrightarrow> d ! (bi div 8) AND bmask bi = 0"

definition mark_used :: "bytes \<Rightarrow> nat \<Rightarrow> bytes" where
  "mark_used d bi = d[bi div 8 := d ! (bi div 8) OR bmask bi]"

definition mark_free :: "bytes \<Rightarrow> nat \<Rightarrow> bytes" where
  "mark_free d bi = d[bi div 8 := d ! (bi div 8) AND NOT (bmask bi)]"

text \<open>
  The outer loop of \<open>balloc\<close> runs over the bitmap blocks \<open>b = 0, BPB, 2 * BPB, \<dots>\<close>; the inner
  one looks for the first clear bit below both \<open>BPB\<close> and the end of the disk.
\<close>

fun balloc_loop :: "nat \<Rightarrow> nat \<Rightarrow> nat list \<Rightarrow> ('z istate_scheme, nat) kern" where
  "balloc_loop dev n [] = kpanic ''balloc: out of blocks''"
| "balloc_loop dev n (b # bs) =
     kbind (kget (\<lambda>s. BBLOCK b (sblk s))) (\<lambda>bb.
     kbind (bread dev bb) (\<lambda>bp.
     kbind (bdata bp) (\<lambda>d.
     case find (bit_free d) [0..<min BPB (n - b)] of
       Some bi \<Rightarrow>
         kseq (set_bdata bp (mark_used d bi))
         (kseq (log_write bp)
         (kseq (brelse bp)
         (kseq (bzero dev (b + bi))
          (kret (b + bi)))))
     | None \<Rightarrow> kseq (brelse bp) (balloc_loop dev n bs))))"

definition bitmap_starts :: "nat \<Rightarrow> nat list" where
  "bitmap_starts n = map (\<lambda>k. k * BPB) [0..<(n + BPB - 1) div BPB]"

definition balloc :: "nat \<Rightarrow> ('z istate_scheme, nat) kern" where
  "balloc dev = kbind (kget (\<lambda>s. sb_size (sblk s))) (\<lambda>n. balloc_loop dev n (bitmap_starts n))"

definition bfree :: "nat \<Rightarrow> nat \<Rightarrow> ('z istate_scheme, unit) kern" where
  "bfree dev b =
     kbind (kget (\<lambda>s. BBLOCK b (sblk s))) (\<lambda>bb.
     kbind (bread dev bb) (\<lambda>bp.
     kbind (bdata bp) (\<lambda>d.
     kseq (panic_if (bit_free d (b mod BPB)) ''freeing free block'')
     (kseq (set_bdata bp (mark_free d (b mod BPB)))
     (kseq (log_write bp)
      (brelse bp))))))"

section \<open>Inodes\<close>

definition iget :: "nat \<Rightarrow> nat \<Rightarrow> ('z istate_scheme, nat) kern" where
  "iget dev inum =
     kseq (acquire IcacheLk)
     (kbind (kget icache) (\<lambda>ic.
      case find (\<lambda>i. i_ref (ic i) > 0 \<and> i_dev (ic i) = dev \<and> i_inum (ic i) = inum) [0..<NINODE] of
        Some i \<Rightarrow>
          kseq (kmod_inode i (\<lambda>x. x\<lparr>i_ref := i_ref x + 1\<rparr>))
          (kseq (release IcacheLk) (kret i))
      | None \<Rightarrow>
          (case find (\<lambda>i. i_ref (ic i) = 0) [0..<NINODE] of
             None \<Rightarrow> kpanic ''iget: no inodes''
           | Some i \<Rightarrow>
               kseq (kmod_inode i (\<lambda>x. x\<lparr>i_dev := dev, i_inum := inum, i_ref := 1, i_valid := False\<rparr>))
               (kseq (release IcacheLk) (kret i)))))"

fun ialloc_loop :: "nat \<Rightarrow> u16 \<Rightarrow> nat list \<Rightarrow> ('z istate_scheme, nat) kern" where
  "ialloc_loop dev ty [] = kpanic ''ialloc: no inodes''"
| "ialloc_loop dev ty (inum # is) =
     kbind (kget (\<lambda>s. IBLOCK inum (sblk s))) (\<lambda>ib.
     kbind (bread dev ib) (\<lambda>bp.
     kbind (bdata bp) (\<lambda>d.
     if d_type (get_dinode d (dinode_off inum)) = 0 then
       kseq (set_bdata bp (put_dinode d (dinode_off inum) (zero_dinode\<lparr>d_type := ty\<rparr>)))
       (kseq (log_write bp)
       (kseq (brelse bp)
        (iget dev inum)))
     else kseq (brelse bp) (ialloc_loop dev ty is))))"

definition ialloc :: "nat \<Rightarrow> u16 \<Rightarrow> ('z istate_scheme, nat) kern" where
  "ialloc dev ty = kbind (kget (\<lambda>s. sb_ninodes (sblk s))) (\<lambda>n. ialloc_loop dev ty [1..<n])"

definition iupdate :: "nat \<Rightarrow> ('z istate_scheme, unit) kern" where
  "iupdate i =
     kbind (kget (\<lambda>s. icache s i)) (\<lambda>ip.
     kbind (kget (\<lambda>s. IBLOCK (i_inum ip) (sblk s))) (\<lambda>ib.
     kbind (bread (i_dev ip) ib) (\<lambda>bp.
     kbind (bdata bp) (\<lambda>d.
     kseq (set_bdata bp (put_dinode d (dinode_off (i_inum ip)) (dinode_of ip)))
     (kseq (log_write bp)
      (brelse bp))))))"

definition idup :: "nat \<Rightarrow> ('z istate_scheme, nat) kern" where
  "idup i =
     kseq (acquire IcacheLk)
     (kseq (kmod_inode i (\<lambda>x. x\<lparr>i_ref := i_ref x + 1\<rparr>))
     (kseq (release IcacheLk) (kret i)))"

definition load_inode :: "dinode \<Rightarrow> inode \<Rightarrow> inode" where
  "load_inode x ip = ip\<lparr>i_type := d_type x, i_major := d_major x, i_minor := d_minor x,
     i_nlink := d_nlink x, i_size := d_size x, i_addrs := d_addrs x\<rparr>"

definition ilock_load :: "nat \<Rightarrow> ('z istate_scheme, unit) kern" where
  "ilock_load i =
     kbind (kget (\<lambda>s. icache s i)) (\<lambda>ip.
     kwhen (\<not> i_valid ip)
       (kbind (kget (\<lambda>s. IBLOCK (i_inum ip) (sblk s))) (\<lambda>ib.
        kbind (bread (i_dev ip) ib) (\<lambda>bp.
        kbind (bdata bp) (\<lambda>d.
        kseq (kmod_inode i (load_inode (get_dinode d (dinode_off (i_inum ip)))))
        (kseq (brelse bp)
        (kseq (kmod_inode i (\<lambda>x. x\<lparr>i_valid := True\<rparr>))
        (kbind (kget (\<lambda>s. i_type (icache s i))) (\<lambda>ty.
         panic_if (ty = 0) ''ilock: no type'')))))))))"

definition ilock :: "nat option \<Rightarrow> ('z istate_scheme, unit) kern" where
  "ilock p = (case p of
     None \<Rightarrow> kpanic ''ilock''
   | Some i \<Rightarrow>
       kbind (kget (\<lambda>s. i_ref (icache s i))) (\<lambda>r.
       kseq (panic_if (r < 1) ''ilock'')
       (kseq (acquiresleep (InodeLk i))
        (ilock_load i))))"

definition iunlock :: "nat option \<Rightarrow> ('z istate_scheme, unit) kern" where
  "iunlock p = (case p of
     None \<Rightarrow> kpanic ''iunlock''
   | Some i \<Rightarrow>
       kbind (holdingsleep (InodeLk i)) (\<lambda>h.
       kbind (kget (\<lambda>s. i_ref (icache s i))) (\<lambda>r.
       kseq (panic_if (\<not> h \<or> r < 1) ''iunlock'')
       (releasesleep (InodeLk i)))))"

section \<open>Inode content\<close>

definition bmap :: "nat \<Rightarrow> nat \<Rightarrow> ('z istate_scheme, nat) kern" where
  "bmap i bn =
     kbind (kget (\<lambda>s. icache s i)) (\<lambda>ip.
     if bn < NDIRECT then
       (if i_addrs ip ! bn = 0 then
          kbind (balloc (i_dev ip)) (\<lambda>addr.
          kseq (kmod_inode i (\<lambda>x. x\<lparr>i_addrs := (i_addrs x)[bn := of_nat addr]\<rparr>))
          (kret addr))
        else kret (unat (i_addrs ip ! bn)))
     else if bn - NDIRECT < NINDIRECT then
       kbind (if i_addrs ip ! NDIRECT = 0 then
                kbind (balloc (i_dev ip)) (\<lambda>addr.
                kseq (kmod_inode i (\<lambda>x. x\<lparr>i_addrs := (i_addrs x)[NDIRECT := of_nat addr]\<rparr>))
                (kret addr))
              else kret (unat (i_addrs ip ! NDIRECT))) (\<lambda>ind.
       kbind (bread (i_dev ip) ind) (\<lambda>bp.
       kbind (bdata bp) (\<lambda>a.
       kbind (if get32 a (4 * (bn - NDIRECT)) = 0 then
                kbind (balloc (i_dev ip)) (\<lambda>addr.
                kbind (bdata bp) (\<lambda>a.
                kseq (set_bdata bp (put32 a (4 * (bn - NDIRECT)) (of_nat addr)))
                (kseq (log_write bp)
                 (kret addr))))
              else kret (unat (get32 a (4 * (bn - NDIRECT))))) (\<lambda>addr.
       kseq (brelse bp) (kret addr)))))
     else kpanic ''bmap: out of range'')"

definition itrunc_direct :: "nat \<Rightarrow> nat \<Rightarrow> ('z istate_scheme, unit) kern" where
  "itrunc_direct i k =
     kbind (kget (\<lambda>s. icache s i)) (\<lambda>ip.
     kwhen (i_addrs ip ! k \<noteq> 0)
       (kseq (bfree (i_dev ip) (unat (i_addrs ip ! k)))
        (kmod_inode i (\<lambda>x. x\<lparr>i_addrs := (i_addrs x)[k := 0]\<rparr>))))"

definition itrunc_ind :: "nat \<Rightarrow> nat \<Rightarrow> nat \<Rightarrow> ('z istate_scheme, unit) kern" where
  "itrunc_ind dev bp j =
     kbind (bdata bp) (\<lambda>a.
     kwhen (get32 a (4 * j) \<noteq> 0) (bfree dev (unat (get32 a (4 * j)))))"

definition itrunc :: "nat \<Rightarrow> ('z istate_scheme, unit) kern" where
  "itrunc i =
     kseq (kfor [0..<NDIRECT] (itrunc_direct i))
     (kbind (kget (\<lambda>s. icache s i)) (\<lambda>ip.
      kseq (kwhen (i_addrs ip ! NDIRECT \<noteq> 0)
        (kbind (bread (i_dev ip) (unat (i_addrs ip ! NDIRECT))) (\<lambda>bp.
         kseq (kfor [0..<NINDIRECT] (itrunc_ind (i_dev ip) bp))
         (kseq (brelse bp)
         (kseq (bfree (i_dev ip) (unat (i_addrs ip ! NDIRECT)))
          (kmod_inode i (\<lambda>x. x\<lparr>i_addrs := (i_addrs x)[NDIRECT := 0]\<rparr>)))))))
      (kseq (kmod_inode i (\<lambda>x. x\<lparr>i_size := 0\<rparr>))
       (iupdate i))))"

definition iput :: "nat \<Rightarrow> ('z istate_scheme, unit) kern" where
  "iput i =
     kseq (acquiresleep (InodeLk i))
     (kbind (kget (\<lambda>s. icache s i)) (\<lambda>ip.
      kseq (kwhen (i_valid ip \<and> i_nlink ip = 0)
        (kseq (acquire IcacheLk)
        (kbind (kget (\<lambda>s. i_ref (icache s i))) (\<lambda>r.
         kseq (release IcacheLk)
         (kwhen (r = 1)
           (kseq (itrunc i)
           (kseq (kmod_inode i (\<lambda>x. x\<lparr>i_type := 0\<rparr>))
           (kseq (iupdate i)
            (kmod_inode i (\<lambda>x. x\<lparr>i_valid := False\<rparr>))))))))))
      (kseq (releasesleep (InodeLk i))
      (kseq (acquire IcacheLk)
      (kseq (kmod_inode i (\<lambda>x. x\<lparr>i_ref := i_ref x - 1\<rparr>))
       (release IcacheLk))))))"

definition iunlockput :: "nat \<Rightarrow> ('z istate_scheme, unit) kern" where
  "iunlockput i = kseq (iunlock (Some i)) (iput i)"

end
