(* ===== verification/Trans.thy ===== *)
theory Trans
  imports Inode
begin

text \<open>
  File-system code inside a transaction (between \<open>begin_op\<close> and \<open>end_op\<close>). \<open>tst\<close> collects what
  the code of \<^verbatim>\<open>fs.c\<close> relies on: the blocks it sees, the blocks in the log, the buffers it holds and
  the inode cache. One rule per primitive carries the proofs of the file-system operations.
\<close>

definition tframe :: "('z istate_scheme) \<Rightarrow> ('z istate_scheme) \<Rightarrow> bool" where
  "tframe s s' \<longleftrightarrow> s' = s\<lparr>ptable := ptable s', slocks := slocks s', bufs := bufs s', lh_n := lh_n s',
       lh_block := lh_block s', icache := icache s'\<rparr> \<and> woken (ptable s) (ptable s')"

definition in_trans :: "('z istate_scheme) \<Rightarrow> bool" where
  "in_trans s \<longleftrightarrow> lg_dev s = 1 \<and> lg_size s = int LOGSIZE \<and> 1 \<le> lg_outstanding s
     \<and> lg_start s + LOGSIZE \<le> disksize s \<and> disksize s < 2 ^ 32"

definition log_is :: "nat list \<Rightarrow> ('z lstate_scheme) \<Rightarrow> bool" where
  "log_is L s \<longleftrightarrow> lh_n s = int (length L) \<and> length (lh_block s) = LOGSIZE \<and> length L < LOGSIZE
     \<and> take (length L) (lh_block s) = L \<and> distinct L
     \<and> (\<forall>b \<in> set L. b < disksize s \<and> b \<notin> log_blocks s)"

text \<open>
  \<open>tst s0 H M v L ic il s\<close>: in a transaction that was in state \<open>s0\<close>, buffers \<open>H\<close> are held, \<open>M\<close> of
  them changed, the blocks read as \<open>v\<close>, \<open>L\<close> is logged, the inode cache is \<open>ic\<close> and its sleep locks
  are \<open>il\<close>.
\<close>

definition tst :: "('z istate_scheme) \<Rightarrow> (nat \<rightharpoonup> nat) \<Rightarrow> nat set \<Rightarrow> (nat \<Rightarrow> bytes) \<Rightarrow> nat list
    \<Rightarrow> (nat \<Rightarrow> inode) \<Rightarrow> (nat \<Rightarrow> sleeplock) \<Rightarrow> ('z istate_scheme) \<Rightarrow> bool" where
  "tst s0 H M v L ic il s \<longleftrightarrow> bst s H M v (set L) (memdisk s0) (wtrace s0) s \<and> tframe s0 s
     \<and> in_trans s0 \<and> log_is L s \<and> icache s = ic \<and> (\<forall>i. slocks s (InodeLk i) = il i)"

lemma tframe_refl [simp]: "tframe s s"
  by (simp add: tframe_def)

lemma tframe_trans:
  assumes "tframe a b" "tframe b c"
  shows "tframe a c"
proof -
  have "c = b\<lparr>ptable := ptable c, slocks := slocks c, bufs := bufs c, lh_n := lh_n c,
       lh_block := lh_block c, icache := icache c\<rparr>" using assms(2) by (simp add: tframe_def)
  also have "\<dots> = a\<lparr>ptable := ptable c, slocks := slocks c, bufs := bufs c, lh_n := lh_n c,
       lh_block := lh_block c, icache := icache c\<rparr>"
    by (subst (1) conjunct1 [OF assms(1) [unfolded tframe_def]]) simp
  finally show ?thesis using assms woken_trans by (auto simp: tframe_def)
qed

lemma tframe_fields:
  assumes "tframe s s'"
  shows "disksize s' = disksize s" "memdisk s' = memdisk s" "wtrace s' = wtrace s"
    "lg_start s' = lg_start s" "lg_size s' = lg_size s" "lg_dev s' = lg_dev s"
    "lg_outstanding s' = lg_outstanding s" "sblk s' = sblk s" "spin s' = spin s"
    "lg_committing s' = lg_committing s"
proof -
  have h: "s' = s\<lparr>ptable := ptable s', slocks := slocks s', bufs := bufs s', lh_n := lh_n s',
       lh_block := lh_block s', icache := icache s'\<rparr>" using assms by (simp add: tframe_def)
  show "disksize s' = disksize s" "memdisk s' = memdisk s" "wtrace s' = wtrace s"
    "lg_start s' = lg_start s" "lg_size s' = lg_size s" "lg_dev s' = lg_dev s"
    "lg_outstanding s' = lg_outstanding s" "sblk s' = sblk s" "spin s' = spin s"
    "lg_committing s' = lg_committing s"
    using arg_cong [OF h, of disksize] arg_cong [OF h, of memdisk] arg_cong [OF h, of wtrace]
      arg_cong [OF h, of lg_start] arg_cong [OF h, of lg_size] arg_cong [OF h, of lg_dev]
      arg_cong [OF h, of lg_outstanding] arg_cong [OF h, of sblk] arg_cong [OF h, of spin]
      arg_cong [OF h, of lg_committing]
    by simp_all
qed

lemma dframe_tframe:
  fixes s s' :: "'z istate_scheme"
  assumes "dframe s s'" "memdisk s' = memdisk s" "wtrace s' = wtrace s"
  shows "tframe s s'" "icache s' = icache s" "lh_n s' = lh_n s" "lh_block s' = lh_block s"
    "slocks s' (InodeLk i) = slocks s (InodeLk i)"
proof -
  have h: "s' = s\<lparr>ptable := ptable s', slocks := slocks s', memdisk := memdisk s',
       wtrace := wtrace s', bufs := bufs s'\<rparr>" using assms(1) by (simp add: dframe_def)
  show e: "icache s' = icache s" "lh_n s' = lh_n s" "lh_block s' = lh_block s"
    using arg_cong [OF h, of icache] arg_cong [OF h, of lh_n] arg_cong [OF h, of lh_block] by simp_all
  have "s' = s\<lparr>ptable := ptable s', slocks := slocks s', bufs := bufs s', lh_n := lh_n s',
       lh_block := lh_block s', icache := icache s'\<rparr>"
    unfolding e by (subst (1) h) (simp add: assms)
  then show "tframe s s'" "slocks s' (InodeLk i) = slocks s (InodeLk i)"
    using assms(1) by (simp_all add: tframe_def dframe_def)
qed

lemma tstD:
  assumes "tst s0 H M v L ic il s"
  shows "bst s H M v (set L) (memdisk s0) (wtrace s0) s" "tframe s0 s" "in_trans s0" "log_is L s"
    "icache s = ic" "slocks s (InodeLk i) = il i" "disksize s = disksize s0" "sblk s = sblk s0"
    "length (v b) = BSIZE" "memdisk s = memdisk s0" "wtrace s = wtrace s0"
  using assms tframe_fields [of s0 s] bstD(10) by (auto simp: tst_def)

lemma bst_rebase:
  assumes "bst s0 H M v D d w s"
  shows "bst s H M v D d w s"
  using assms by (simp add: bst_def)

text \<open>A step that only touches the cache, seen from the transaction.\<close>

lemma tst_step:
  assumes "tst s0 H M v L ic il s" "bst s H' M' v' (set L) (memdisk s0) (wtrace s0) s'"
  shows "tst s0 H' M' v' L ic il s'"
proof -
  note t = tstD [OF assms(1)] and b = bstD [OF assms(2)]
  have eq: "memdisk s' = memdisk s" "wtrace s' = wtrace s" using t(10,11) b(5,6) by simp_all
  note f = dframe_tframe [OF b(7) eq]
  have "tframe s0 s'" using t(2) f(1) tframe_trans by blast
  moreover have "log_is L s'"
    using t(4) f(3,4) tframe_fields [OF f(1)] by (simp add: log_is_def log_blocks_def)
  ultimately show ?thesis
    using t f bst_rebase [OF assms(2)] by (simp add: tst_def)
qed

section \<open>Rules\<close>

lemma wp_t_bread:
  assumes "tst s0 H M v L ic il s" "bn < disksize s0" "bn \<notin> ran H"
    and "bn \<in> set L \<or> card (dom H) + length L < NBUF"
    and "\<And>i s'. H i = None \<Longrightarrow> tst s0 (H(i \<mapsto> bn)) M v L ic il s' \<Longrightarrow> Q i s'"
  shows "wp (bread 1 bn) Q s"
proof -
  note t = tstD [OF assms(1)]
  have "card (set L) = length L" using t(4) by (simp add: log_is_def distinct_card)
  then show ?thesis
    using assms t(7) by (intro wp_bread [OF t(1)]) (auto intro: tst_step)
qed

lemma wp_t_bdata:
  assumes "tst s0 H M v L ic il s" "H i = Some bn" "Q (v bn) s"
  shows "wp (bdata i) Q s"
  using wp_bdata [OF tstD(1) [OF assms(1)]] assms(2,3) by blast

lemma wp_t_set_bdata:
  assumes "tst s0 H M v L ic il s" "H i = Some bn" "length e = BSIZE"
    and "\<And>s'. tst s0 H (insert i M) (v(bn := e)) L ic il s' \<Longrightarrow> Q () s'"
  shows "wp (set_bdata i e) Q s"
  using assms by (intro wp_set_bdata [OF tstD(1) [OF assms(1)]]) (auto intro: tst_step)

lemma wp_t_brelse:
  assumes "tst s0 H M v L ic il s" "i \<in> dom H" "i \<notin> M"
    and "\<And>s'. tst s0 (H(i := None)) M v L ic il s' \<Longrightarrow> Q () s'"
  shows "wp (brelse i) Q s"
  using assms by (intro wp_brelse [OF tstD(1) [OF assms(1)]]) (auto intro: tst_step)

lemma wp_t_kget:
  assumes "tst s0 H M v L ic il s"
  shows "Q1 (f (sblk s0)) s \<Longrightarrow> wp (kget (\<lambda>s. f (sblk s))) Q1 s"
    "Q2 (g (ic i)) s \<Longrightarrow> wp (kget (\<lambda>s. g (icache s i))) Q2 s"
    "Q3 ic s \<Longrightarrow> wp (kget icache) Q3 s"
  using tstD [OF assms] by (simp_all add: wp_kget)

definition ladd :: "nat \<Rightarrow> nat list \<Rightarrow> nat list" where
  "ladd bn L = (if bn \<in> set L then L else L @ [bn])"

lemma ladd_simps [simp]:
  "set (ladd bn L) = insert bn (set L)" "length (ladd bn L) \<le> Suc (length L)"
  "length L \<le> length (ladd bn L)"
  by (auto simp: ladd_def)

lemma absorb_at_scan:
  "i \<le> length L \<Longrightarrow> take (length L) B = L \<Longrightarrow> (\<forall>k < i. L ! k \<noteq> bn) \<Longrightarrow>
   absorb_at B (length L) bn i =
     (if bn \<in> set L then (LEAST k. k < length L \<and> L ! k = bn) else length L)"
proof (induction "length L - i" arbitrary: i)
  case 0
  then have "i = length L" by simp
  then have "bn \<notin> set L" using 0(4) by (metis in_set_conv_nth)
  then show ?case using \<open>i = length L\<close> by (subst absorb_at.simps) simp
next
  case (Suc n)
  have i: "i < length L" using Suc(2) by simp
  have Bi: "B ! i = L ! i" using Suc(4) i by (metis nth_take)
  show ?case
  proof (cases "L ! i = bn")
    case True
    have "(LEAST k. k < length L \<and> L ! k = bn) = i"
      using Suc(5) True i by (intro Least_equality) (auto simp: not_less [symmetric])
    moreover have "bn \<in> set L" using True i by (metis nth_mem)
    ultimately show ?thesis using True i Bi by (subst absorb_at.simps) simp
  next
    case False
    have "\<forall>k < Suc i. L ! k \<noteq> bn" using Suc(5) False by (auto simp: less_Suc_eq)
    then have "absorb_at B (length L) bn (Suc i) =
       (if bn \<in> set L then (LEAST k. k < length L \<and> L ! k = bn) else length L)"
      using Suc(2) i Suc(4) by (intro Suc(1)) auto
    then show ?thesis using False i Bi by (subst absorb_at.simps) simp
  qed
qed

lemma log_write_run:
  assumes r: "ready s" and L: "log_is L s" and room: "length L < LOGSIZE - 1"
    and tr: "lg_size s = int LOGSIZE" "1 \<le> lg_outstanding s"
    and bn: "b_blockno (bufs s i) = bn"
  shows "log_write i s = Ret () (s\<lparr>bufs := (bufs s)(i := (bufs s i)\<lparr>b_dirty := True\<rparr>),
    lh_n := int (length (ladd bn L)),
    lh_block := (if bn \<in> set L then lh_block s else (lh_block s)[length L := bn])\<rparr>)"
proof -
  let ?k = "absorb_at (lh_block s) (length L) bn 0"
  have n: "lh_n s = int (length L)" "length (lh_block s) = LOGSIZE" "take (length L) (lh_block s) = L"
    using L by (simp_all add: log_is_def)
  have k: "?k = (if bn \<in> set L then (LEAST k. k < length L \<and> L ! k = bn) else length L)"
    using absorb_at_scan [of 0 L "lh_block s" bn] n(3) by simp
  show ?thesis
  proof (cases "bn \<in> set L")
    case True
    then obtain k where "k < length L \<and> L ! k = bn" by (metis in_set_conv_nth)
    then have kk: "?k < length L" "L ! ?k = bn"
      using LeastI [of "\<lambda>k. k < length L \<and> L ! k = bn" k] True k by simp_all
    then have "lh_block s ! ?k = bn" using n(3) by (metis nth_take)
    then have "(lh_block s)[?k := bn] = lh_block s" by (metis list_update_id)
    then show ?thesis
      using r n room tr kk True
      by (simp add: log_write_def kexec set_lh_block_def kmod_buf_def bn ladd_def LOGSIZE_def)
  next
    case False
    then show ?thesis using r n room tr k
      by (simp add: log_write_def kexec set_lh_block_def kmod_buf_def bn ladd_def LOGSIZE_def)
  qed
qed

lemma wp_t_log_write:
  assumes t: "tst s0 H M v L ic il s" and i: "H i = Some bn" and room: "length L < LOGSIZE - 1"
    and bn: "bn \<notin> log_blocks s0"
    and Q: "\<And>s'. tst s0 H (M - {i}) v (ladd bn L) ic il s' \<Longrightarrow> Q () s'"
  shows "wp (log_write i) Q s"
proof -
  note td = tstD [OF t]
  note b = bstD [OF td(1)]
  have ibn: "b_blockno (bufs s i) = bn" "i \<in> dom H" using b(8) i by auto
  have iN: "i < NBUF" using binvD(2) [OF b(2)] ibn(2) by auto
  have bs: "bn < disksize s0"
    using binvD(5) [OF b(2) iN] ibn td(7) by (simp add: buf_ok_def)
  note f = tframe_fields [OF td(2)]
  have it: "lg_size s = int LOGSIZE" "1 \<le> lg_outstanding s" using td(3) f by (simp_all add: in_trans_def)
  let ?B = "if bn \<in> set L then lh_block s else (lh_block s)[length L := bn]"
  let ?s = "s\<lparr>bufs := (bufs s)(i := (bufs s i)\<lparr>b_dirty := True\<rparr>), lh_n := int (length (ladd bn L)), lh_block := ?B\<rparr>"
  have run: "log_write i s = Ret () ?s"
    using log_write_run [OF b(1) td(4) room it ibn(1)] .
  let ?t = "set_dirty i s"
  note sd = set_dirty_spec [OF b(2) ibn(2)]
  have "bst ?t H (M - {i}) v (set (ladd bn L)) (memdisk s0) (wtrace s0) ?t"
    using sd b ibn i by (simp add: bst_def)
  then have bst': "bst ?s H (M - {i}) v (set (ladd bn L)) (memdisk s0) (wtrace s0) ?s"
    using bst_update [of ?t H "M - {i}" v "set (ladd bn L)" "memdisk s0" "wtrace s0" ?t
        "\<lambda>s. s\<lparr>lh_n := int (length (ladd bn L)), lh_block := ?B\<rparr>"]
    by (simp add: bstate.truncate_def)
  have "tframe s ?s" by (simp add: tframe_def)
  then have fr: "tframe s0 ?s" using td(2) tframe_trans by blast
  have n: "length (lh_block s) = LOGSIZE" "take (length L) (lh_block s) = L" "distinct L"
    "\<forall>b \<in> set L. b < disksize s \<and> b \<notin> log_blocks s"
    using td(4) by (simp_all add: log_is_def)
  have lb: "log_blocks s = log_blocks s0" "log_blocks ?s = log_blocks s0"
    using f by (simp_all add: log_blocks_def)
  have "log_is (ladd bn L) ?s"
    unfolding log_is_def lb
    using n room bn bs f(1) lb(1) by (cases "bn \<in> set L") (auto simp: ladd_def take_Suc_conv_app_nth)
  then have "tst s0 H (M - {i}) v (ladd bn L) ic il ?s"
    using bst' fr td(3,5,6) by (simp add: tst_def)
  then show ?thesis using run Q by (auto intro: wpI)
qed

lemma wp_t_kmod_inode:
  assumes t: "tst s0 H M v L ic il s"
    and Q: "\<And>s'. tst s0 H M v L (ic(i := g (ic i))) il s' \<Longrightarrow> Q () s'"
  shows "wp (kmod_inode i g) Q s"
proof -
  note td = tstD [OF t]
  let ?s = "s\<lparr>icache := (icache s)(i := g (icache s i))\<rparr>"
  have "bst ?s H M v (set L) (memdisk s0) (wtrace s0) ?s"
    using bst_update [OF td(1), of "\<lambda>s. s\<lparr>icache := (icache s)(i := g (icache s i))\<rparr>"]
    by (simp add: bstate.truncate_def)
  moreover have "tframe s ?s" by (simp add: tframe_def)
  then have "tframe s0 ?s" using td(2) tframe_trans by blast
  ultimately have "tst s0 H M v L (ic(i := g (ic i))) il ?s"
    using td by (simp add: tst_def log_is_def log_blocks_def)
  then show ?thesis using Q by (simp add: kmod_inode_def wp_kmod)
qed

end
