(* ===== verification/Console.thy ===== *)
theory Console
  imports Trans
begin

text \<open>
  The console, \<^verbatim>\<open>src/xv6/console.c\<close>: the input line discipline (\<^verbatim>\<open>consoleintr\<close>,
  \<^verbatim>\<open>consoleread\<close>), \<^verbatim>\<open>consolewrite\<close>, number printing and the text screen. \<open>con_out\<close> is the
  sequence of codes given to \<^verbatim>\<open>consputc\<close>. The serial port (\<^verbatim>\<open>uart.c\<close>) is device I/O and left out;
  \<^verbatim>\<open>panic\<close> is an outcome of the kernel monad, so the flag \<^verbatim>\<open>panicked\<close> is never set in a state.
\<close>

section \<open>State\<close>

definition INPUT_BUF :: u32 where "INPUT_BUF = 128"
definition NDEV :: nat where "NDEV = 10"
definition CONSOLE :: nat where "CONSOLE = 1"
definition BACKSPACE :: int where "BACKSPACE = 0x100"

text \<open>The functions the kernel stores in \<open>devsw\<close>.\<close>

datatype devfn = Consoleread | Consolewrite

record cstate = istate +
  in_buf :: "nat \<Rightarrow> u8"
  in_r :: u32
  in_w :: u32
  in_e :: u32
  con_out :: "int list"
  cons_locking :: bool
  devsw_read :: "nat \<Rightarrow> devfn option"
  devsw_write :: "nat \<Rightarrow> devfn option"

section \<open>Output\<close>

definition consputc :: "int \<Rightarrow> ('z cstate_scheme, unit) kern" where
  "consputc c = kmod (\<lambda>s. s\<lparr>con_out := con_out s @ [c]\<rparr>)"

definition digit_char :: "nat \<Rightarrow> int" where
  "digit_char d = (if d < 10 then 48 + int d else 87 + int d)"

text \<open>The digits of \<open>printint\<close>, least significant first; the loop body runs at least once.\<close>

fun printint_digits :: "nat \<Rightarrow> nat \<Rightarrow> nat \<Rightarrow> int list" where
  "printint_digits 0 base x = []"
| "printint_digits (Suc k) base x =
     digit_char (x mod base) # (if x div base \<noteq> 0 then printint_digits k base (x div base) else [])"

definition printint :: "u32 \<Rightarrow> nat \<Rightarrow> bool \<Rightarrow> ('z cstate_scheme, unit) kern" where
  "printint xx base sign =
     (let neg = sign \<and> sint xx < 0;
          x = (if neg then - xx else xx);
          ds = printint_digits 32 base (unat x) @ (if neg then [45] else [])
      in kfor (rev ds) consputc)"

text \<open>The bytes of a string literal.\<close>

definition msg :: "string \<Rightarrow> bytes" where
  "msg t = map of_char t"

text \<open>The arguments of \<open>cprintf\<close>: words, and strings (a null pointer is \<open>None\<close>).\<close>

datatype cparg = ArgWord u32 | ArgStr "bytes option"

fun cprintf_loop :: "bytes \<Rightarrow> cparg list \<Rightarrow> ('z cstate_scheme, unit) kern" where
  "cprintf_loop [] args = kret ()"
| "cprintf_loop (c # fmt) args =
     (if c \<noteq> 37 then kseq (consputc (uint c)) (cprintf_loop fmt args)
      else (case fmt of
        [] \<Rightarrow> kret ()
      | f # fmt' \<Rightarrow>
          if f = 100 then (case args of
              ArgWord x # as \<Rightarrow> kseq (printint x 10 True) (cprintf_loop fmt' as)
            | _ \<Rightarrow> kundef)
          else if f = 120 \<or> f = 112 then (case args of
              ArgWord x # as \<Rightarrow> kseq (printint x 16 False) (cprintf_loop fmt' as)
            | _ \<Rightarrow> kundef)
          else if f = 115 then (case args of
              ArgStr p # as \<Rightarrow>
                kseq (kfor (case p of None \<Rightarrow> [40, 110, 117, 108, 108, 41] | Some t \<Rightarrow> t) (\<lambda>b. consputc (uint b)))
                (cprintf_loop fmt' as)
            | _ \<Rightarrow> kundef)
          else if f = 37 then kseq (consputc 37) (cprintf_loop fmt' args)
          else kseq (consputc 37) (kseq (consputc (uint f)) (cprintf_loop fmt' args))))"

definition cprintf :: "bytes \<Rightarrow> cparg list \<Rightarrow> ('z cstate_scheme, unit) kern" where
  "cprintf fmt args =
     kbind (kget cons_locking) (\<lambda>locking.
     kseq (kwhen locking (acquire ConsLk))
     (kseq (cprintf_loop fmt args)
      (kwhen locking (release ConsLk))))"

text \<open>The listing of \<open>procdump\<close>, without the call stacks of sleeping processes.\<close>

definition state_name :: "procstate \<Rightarrow> string" where
  "state_name st = (case st of UNUSED \<Rightarrow> ''unused'' | EMBRYO \<Rightarrow> ''embryo'' | SLEEPING \<Rightarrow> ''sleep ''
     | RUNNABLE \<Rightarrow> ''runble'' | RUNNING \<Rightarrow> ''run   '' | ZOMBIE \<Rightarrow> ''zombie'')"

definition procdump :: "('z cstate_scheme, unit) kern" where
  "procdump = kfor [0..<NPROC] (\<lambda>i.
     kbind (kget (\<lambda>s. ptable s i)) (\<lambda>p.
     kwhen (pstate p \<noteq> UNUSED)
       (kseq (cprintf (msg ''%d %s %s'')
           [ArgWord (of_int (pid p)), ArgStr (Some (msg (state_name (pstate p)))), ArgStr (Some (pname p))])
        (cprintf (msg ''\<newline>'') []))))"

text \<open>
  \<open>cgaputc\<close> on the text screen: the cursor position the hardware holds and the memory at
  \<^verbatim>\<open>0xb8000\<close>. \<open>None\<close> is the panic on a position outside the screen.
\<close>

type_synonym screen = "nat \<Rightarrow> u16"

definition cga_scroll :: "int \<Rightarrow> screen \<Rightarrow> int \<times> screen" where
  "cga_scroll pos crt =
     (if pos div 80 \<ge> 24 then
        (let crt1 = (\<lambda>i. if i < 23 * 80 then crt (i + 80) else crt i);
             pos1 = pos - 80
         in (pos1, \<lambda>i. if nat pos1 \<le> i \<and> i < 24 * 80 then 0 else crt1 i))
      else (pos, crt))"

definition cgaputc :: "int \<Rightarrow> int \<times> screen \<Rightarrow> (int \<times> screen) option" where
  "cgaputc c sc =
     (let (pos, crt) = sc;
          (pos, crt) =
            (if c = 10 then (pos + 80 - pos mod 80, crt)
             else if c = BACKSPACE then (if pos > 0 then (pos - 1, crt) else (pos, crt))
             else (pos + 1, crt(nat pos := of_int (c AND 0xff) OR 0x0700)))
      in if pos < 0 \<or> pos > 25 * 80 then None
         else let (pos, crt) = cga_scroll pos crt in
              Some (pos, crt(nat pos := 0x0720)))"

section \<open>Input\<close>

definition ctl_P :: int where "ctl_P = 16"
definition ctl_U :: int where "ctl_U = 21"
definition ctl_H :: int where "ctl_H = 8"
definition ctl_D :: int where "ctl_D = 4"

definition in_idx :: "u32 \<Rightarrow> nat" where
  "in_idx i = unat (i mod INPUT_BUF)"

text \<open>The loop of Control-U; \<open>input.e\<close> moves back at most to \<open>input.w\<close>.\<close>

fun kill_line :: "nat \<Rightarrow> ('z cstate_scheme, unit) kern" where
  "kill_line 0 = khang"
| "kill_line (Suc k) =
     kbind (kget (\<lambda>s. in_e s \<noteq> in_w s \<and> in_buf s (in_idx (in_e s - 1)) \<noteq> 10)) (\<lambda>more.
     kwhen more
       (kseq (kmod (\<lambda>s. s\<lparr>in_e := in_e s - 1\<rparr>))
       (kseq (consputc BACKSPACE) (kill_line k))))"

definition consoleintr_char :: "int \<Rightarrow> ('z cstate_scheme, unit) kern" where
  "consoleintr_char c =
     (if c = ctl_P then kret ()
      else if c = ctl_U then kill_line (unat INPUT_BUF + 1)
      else if c = ctl_H \<or> c = 0x7f then
        kbind (kget (\<lambda>s. in_e s \<noteq> in_w s)) (\<lambda>more.
        kwhen more (kseq (kmod (\<lambda>s. s\<lparr>in_e := in_e s - 1\<rparr>)) (consputc BACKSPACE)))
      else
        kbind (kget (\<lambda>s. c \<noteq> 0 \<and> in_e s - in_r s < INPUT_BUF)) (\<lambda>fits.
        kwhen fits
          (let c = (if c = 13 then 10 else c) in
           kseq (kmod (\<lambda>s. s\<lparr>in_buf := (in_buf s)(in_idx (in_e s) := of_int c), in_e := in_e s + 1\<rparr>))
           (kseq (consputc c)
           (kbind (kget (\<lambda>s. c = 10 \<or> c = ctl_D \<or> in_e s = in_r s + INPUT_BUF)) (\<lambda>full.
            kwhen full
              (kseq (kmod (\<lambda>s. s\<lparr>in_w := in_e s\<rparr>)) (wakeup (Some ChanInput)))))))))"

text \<open>
  \<open>cs\<close> is what \<open>getc\<close> delivers until it returns a negative number. Control-P sets
  \<^verbatim>\<open>doprocdump\<close>; the listing follows once the lock is free.
\<close>

definition consoleintr :: "int list \<Rightarrow> ('z cstate_scheme, unit) kern" where
  "consoleintr cs = 
     kseq (acquire ConsLk)
     (kseq (kfor cs consoleintr_char)
     (kseq (release ConsLk)
      (kwhen (ctl_P \<in> set cs) procdump)))"

text \<open>
  The reading loop of \<open>consoleread\<close> with \<open>n\<close> bytes still wanted: what it returns is the bytes
  copied, or \<open>None\<close> when the process was killed while waiting (with \<open>cons.lock\<close> released).
  \<open>sleep\<close> gives up the CPU.
\<close>

fun consoleread_loop :: "nat \<Rightarrow> nat \<Rightarrow> bytes \<Rightarrow> ('z cstate_scheme, bytes option) kern" where
  "consoleread_loop target 0 acc = kret (Some acc)"
| "consoleread_loop target (Suc n) acc =
     kbind (kget (\<lambda>s. in_r s = in_w s)) (\<lambda>empty.
     if empty then
       kbind myproc (\<lambda>mp. case mp of
         None \<Rightarrow> kundef
       | Some p \<Rightarrow>
           kbind (kget (\<lambda>s. killed (ptable s p))) (\<lambda>k.
           if k then kseq (release ConsLk) (kret None)
           else kseq (sleep_on (Some ChanInput) (Some ConsLk)) khang))
     else
       kbind (kget (\<lambda>s. in_buf s (in_idx (in_r s)))) (\<lambda>c.
       kseq (kmod (\<lambda>s. s\<lparr>in_r := in_r s + 1\<rparr>))
       (if c = 4 then
          kseq (kwhen (Suc n < target) (kmod (\<lambda>s. s\<lparr>in_r := in_r s - 1\<rparr>))) (kret (Some acc))
        else if c = 10 then kret (Some (acc @ [c]))
        else consoleread_loop target n (acc @ [c]))))"

definition consoleread :: "nat \<Rightarrow> nat \<Rightarrow> ('z cstate_scheme, int \<times> bytes) kern" where
  "consoleread ip n =
     kseq (iunlock (Some ip))
     (kseq (acquire ConsLk)
     (kbind (consoleread_loop n n []) (\<lambda>r. case r of
        None \<Rightarrow> kseq (ilock (Some ip)) (kret (- 1, []))
      | Some bs \<Rightarrow>
          kseq (release ConsLk)
          (kseq (ilock (Some ip))
           (kret (int (length bs), bs))))))"

definition consolewrite :: "nat \<Rightarrow> bytes \<Rightarrow> ('z cstate_scheme, int) kern" where
  "consolewrite ip bs =
     kseq (iunlock (Some ip))
     (kseq (acquire ConsLk)
     (kseq (kfor bs (\<lambda>b. consputc (uint b)))
     (kseq (release ConsLk)
     (kseq (ilock (Some ip))
      (kret (int (length bs)))))))"

definition consoleinit :: "('z cstate_scheme, unit) kern" where
  "consoleinit =
     kseq (initlock ConsLk)
     (kseq (kmod (\<lambda>s. s\<lparr>devsw_write := (devsw_write s)(CONSOLE := Some Consolewrite)\<rparr>))
     (kseq (kmod (\<lambda>s. s\<lparr>devsw_read := (devsw_read s)(CONSOLE := Some Consoleread)\<rparr>))
      (kmod (\<lambda>s. s\<lparr>cons_locking := True\<rparr>))))"

section  \<open>The text screen\<close>

text \<open>The cursor stays on the screen, so the panic of \<open>cgaputc\<close> cannot happen.\<close>

lemma cga_scroll_ok:
  assumes "0 \<le> pos" "pos \<le> 24 * 80"
  shows "0 \<le> fst (cga_scroll pos crt) \<and> fst (cga_scroll pos crt) < 24 * 80"
proof (cases "pos div 80 \<ge> 24")
  case True
  then show ?thesis using assms by (simp add: cga_scroll_def Let_def)
next
  case False
  then have "pos < 24 * 80" by simp
  then show ?thesis using False assms by (simp add: cga_scroll_def)
qed

definition cga_move :: "int \<Rightarrow> int \<Rightarrow> int" where
  "cga_move c pos = (if c = 10 then pos + 80 - pos mod 80
     else if c = BACKSPACE then (if pos > 0 then pos - 1 else pos) else pos + 1)"

lemma cga_move_ok: "0 \<le> pos \<Longrightarrow> pos < 24 * 80 \<Longrightarrow> 0 \<le> cga_move c pos \<and> cga_move c pos \<le> 24 * 80"
proof -
  assume p: "0 \<le> pos" "pos < 24 * 80"
  define q r where "q = pos div 80" and "r = pos mod 80"
  have "q < 24" "0 \<le> r" "r < 80" "pos = 80 * q + r" using p by (simp_all add: q_def r_def)
  then show ?thesis using p unfolding cga_move_def r_def [symmetric] by auto
qed

lemma cgaputc_move:
  "\<exists>crt2. cgaputc c (pos, crt) =
     (if cga_move c pos < 0 \<or> cga_move c pos > 25 * 80 then None
      else let (p, m) = cga_scroll (cga_move c pos) crt2 in Some (p, m(nat p := 0x0720)))"
proof -
  consider "c = 10" | "c \<noteq> 10" "c = BACKSPACE" "pos > 0" | "c \<noteq> 10" "c = BACKSPACE" "\<not> pos > 0"
    | "c \<noteq> 10" "c \<noteq> BACKSPACE" by blast
  then show ?thesis
  proof cases
    case 4
    then show ?thesis
      by (intro exI [of _ "crt(nat pos := of_int (c AND 0xff) OR 0x0700)"])
         (simp add: cgaputc_def cga_move_def)
  qed (intro exI [of _ crt], simp add: cgaputc_def cga_move_def)+
qed

lemma cgaputc_ok:
  assumes "0 \<le> pos" "pos < 24 * 80"
  shows "\<exists>pos' crt'. cgaputc c (pos, crt) = Some (pos', crt') \<and> 0 \<le> pos' \<and> pos' < 24 * 80"
proof -
  let ?p = "cga_move c pos"
  have p: "0 \<le> ?p" "?p \<le> 24 * 80" using cga_move_ok [OF assms] by simp_all
  obtain crt2 where c: "cgaputc c (pos, crt) = (if ?p < 0 \<or> ?p > 25 * 80 then None
      else let (p, m) = cga_scroll ?p crt2 in Some (p, m(nat p := 0x0720)))"
    using cgaputc_move by blast
  obtain q m where q: "cga_scroll ?p crt2 = (q, m)" by (cases "cga_scroll ?p crt2")
  have "0 \<le> q" "q < 24 * 80" using cga_scroll_ok [OF p, of crt2] q by simp_all
  moreover have "cgaputc c (pos, crt) = Some (q, m(nat q := 0x0720))"
    unfolding c using p q by simp
  ultimately show ?thesis by blast
qed

end
