(* ===== verification/Inode_Spec.thy ===== *)
theory Inode_Spec
  imports Trans
begin

text \<open>
  What the block and inode operations of \<^verbatim>\<open>fs.c\<close> do to the blocks a transaction sees: the bitmap
  (\<open>balloc\<close>, \<open>bfree\<close>), the on-disk inodes (\<open>iupdate\<close>, \<open>ilock\<close>), and the block map of a file
  (\<open>bmap\<close>).
\<close>

section \<open>Bitmap\<close>

lemma bit_bmask: "bit (bmask bi) n \<longleftrightarrow> n = bi mod 8"
  by (auto simp: bmask_def bit_simps)

lemma bit_free_bit: "bit_free d bi \<longleftrightarrow> \<not> bit (d ! (bi div 8)) (bi mod 8)"
proof
  assume "bit_free d bi"
  then have "\<not> bit (d ! (bi div 8) AND bmask bi) (bi mod 8)" by (simp add: bit_free_def)
  then show "\<not> bit (d ! (bi div 8)) (bi mod 8)" by (simp add: bit_and_iff bit_bmask)
next
  assume "\<not> bit (d ! (bi div 8)) (bi mod 8)"
  then show "bit_free d bi"
    unfolding bit_free_def by (intro bit_word_eqI) (auto simp: bit_and_iff bit_bmask)
qed

lemma length_marks [simp]: "length (mark_used d bi) = length d" "length (mark_free d bi) = length d"
  by (simp_all add: mark_used_def mark_free_def)

lemma bit_free_marks:
  assumes "bi < 8 * length d" "bj < 8 * length d"
  shows "bit_free (mark_used d bi) bj \<longleftrightarrow> bi \<noteq> bj \<and> bit_free d bj"
    "bit_free (mark_free d bi) bj \<longleftrightarrow> bi = bj \<or> bit_free d bj"
proof -
  have "bj div 8 < length d" "bi div 8 < length d" using assms by auto
  moreover have "bi = bj \<longleftrightarrow> bi div 8 = bj div 8 \<and> bi mod 8 = bj mod 8"
    by (metis div_mult_mod_eq)
  moreover have "bj mod 8 < 8" by simp
  ultimately show "bit_free (mark_used d bi) bj \<longleftrightarrow> bi \<noteq> bj \<and> bit_free d bj"
    "bit_free (mark_free d bi) bj \<longleftrightarrow> bi = bj \<or> bit_free d bj"
    by (auto simp: bit_free_bit mark_used_def mark_free_def nth_list_update bit_bmask
        bit_or_iff bit_and_iff bit_not_iff)
qed

text \<open>Block \<open>b\<close> is marked free in the blocks \<open>v\<close>.\<close>

definition blk_free :: "superblock \<Rightarrow> (nat \<Rightarrow> bytes) \<Rightarrow> nat \<Rightarrow> bool" where
  "blk_free sb v b \<longleftrightarrow> bit_free (v (BBLOCK b sb)) (b mod BPB)"

text \<open>
  The layout of the disk: bitmap and inode blocks lie on the disk, outside the log, and apart from
  each other.
\<close>

definition fs_geom :: "('z istate_scheme) \<Rightarrow> bool" where
  "fs_geom s \<longleftrightarrow> (let sb = sblk s in sb_size sb \<le> disksize s
     \<and> (\<forall>b < sb_size sb. BBLOCK b sb < disksize s \<and> BBLOCK b sb \<notin> log_blocks s)
     \<and> (\<forall>i < sb_ninodes sb. IBLOCK i sb < disksize s \<and> IBLOCK i sb \<notin> log_blocks s)
     \<and> (\<forall>b < sb_size sb. \<forall>i < sb_ninodes sb. BBLOCK b sb \<noteq> IBLOCK i sb))"

lemma BBLOCK_block: "k * BPB \<le> b \<Longrightarrow> b < k * BPB + BPB \<Longrightarrow> BBLOCK b sb = k + sb_bmapstart sb \<and> b mod BPB = b - k * BPB"
proof -
  assume a: "k * BPB \<le> b" "b < k * BPB + BPB"
  then obtain r where r: "b = k * BPB + r" "r < BPB"
    by (metis add_less_cancel_left le_Suc_ex)
  then have "b div BPB = k" "b mod BPB = r" by (simp_all add: BPB_def)
  then show ?thesis using r by (simp add: BBLOCK_def)
qed

lemma wp_bzero:
  assumes t: "tst s0 H M v L ic il s" and bn: "bn < disksize s0" "bn \<notin> ran H" "bn \<notin> log_blocks s0"
    and room: "card (dom H) + length L < NBUF" "length L < LOGSIZE - 1"
    and Q: "\<And>s'. tst s0 H M (v(bn := replicate BSIZE 0)) (ladd bn L) ic il s' \<Longrightarrow> Q () s'"
    and M: "M \<subseteq> dom H"
  shows "wp (bzero 1 bn) Q s"
  unfolding bzero_def wp_seqs
proof (rule wp_t_bread [OF t bn(1,2)])
  show "bn \<in> set L \<or> card (dom H) + length L < NBUF" using room by simp
  fix i s1 assume i: "H i = None" and s1: "tst s0 (H(i \<mapsto> bn)) M v L ic il s1"
  have iM: "i \<notin> M" using M i by auto
  have Mi: "insert i M - {i} = M" using iM by simp
  show "wp (set_bdata i (replicate BSIZE 0)) (\<lambda>_. wp (log_write i) (\<lambda>_. wp (brelse i) Q)) s1"
    apply (rule wp_t_set_bdata [OF s1, of _ bn], simp, simp)
    apply (rule wp_t_log_write, assumption)
       apply (use bn room in simp_all)[3]
    apply (rule wp_t_brelse, assumption)
      apply simp_all[2]
    apply (rule Q)
    using i by (simp add: Mi fun_upd_idem)
qed

section \<open>On-disk inodes\<close>

lemma length_concat_le32: "length (concat (map le32 xs)) = 4 * length xs"
  by (induction xs) simp_all

lemma length_enc_dinode [simp]: "length (d_addrs x) = NDIRECT + 1 \<Longrightarrow> length (enc_dinode x) = 64"
  by (simp add: enc_dinode_def length_concat_le32 NDIRECT_def)

lemma slice_concat_le32: "i < length xs \<Longrightarrow> slice (4 * i) 4 (concat (map le32 xs)) = le32 (xs ! i)"
proof (induction xs arbitrary: i)
  case (Cons x xs)
  then show ?case
    by (cases i) (auto simp: slice_def)
qed simp

lemma slice_app_right: "length a \<le> off \<Longrightarrow> slice off n (a @ b) = slice (off - length a) n b"
  by (simp add: slice_def)

lemma slice_app_left: "off + n \<le> length a \<Longrightarrow> slice off n (a @ b) = slice off n a"
  by (simp add: slice_def)

lemma slice_splice_in:
  "off + length ys \<le> length xs \<Longrightarrow> k + n \<le> length ys \<Longrightarrow> slice (off + k) n (splice off ys xs) = slice k n ys"
  by (auto simp: slice_def splice_def)

lemma dinode_fields:
  fixes x :: dinode
  assumes "length (d_addrs x) = NDIRECT + 1"
  defines "e \<equiv> enc_dinode x"
  shows "slice 0 2 e = le16 (d_type x)" "slice 2 2 e = le16 (d_major x)" "slice 4 2 e = le16 (d_minor x)"
    "slice 6 2 e = le16 (d_nlink x)" "slice 8 4 e = le32 (d_size x)"
    "i < NDIRECT + 1 \<Longrightarrow> slice (12 + 4 * i) 4 e = le32 (d_addrs x ! i)"
  unfolding e_def enc_dinode_def
  using slice_concat_le32 [of i "d_addrs x"] assms(1)
  by (simp_all add: slice_app_right slice_app_left) (simp_all add: slice_def)

text \<open>Round trip: an inode written to a block is read back.\<close>

lemma get_put_dinode:
  assumes "length (d_addrs x) = NDIRECT + 1" "off + 64 \<le> length d"
  shows "get_dinode (put_dinode d off x) off = x"
proof -
  note f = dinode_fields [OF assms(1)]
  have s: "slice (off + k) n (put_dinode d off x) = slice k n (enc_dinode x)" if "k + n \<le> 64" for k n
    unfolding put_dinode_def using that assms by (intro slice_splice_in) simp_all
  have s0: "slice off 2 (put_dinode d off x) = slice 0 2 (enc_dinode x)" using s [of 0 2] by simp
  have a: "map (\<lambda>i. get32 (put_dinode d off x) (off + 12 + 4 * i)) [0..<NDIRECT + 1] = d_addrs x"
  proof (rule nth_equalityI)
    fix i assume "i < length (map (\<lambda>i. get32 (put_dinode d off x) (off + 12 + 4 * i)) [0..<NDIRECT + 1])"
    then have i: "i < NDIRECT + 1" by simp
    then show "map (\<lambda>i. get32 (put_dinode d off x) (off + 12 + 4 * i)) [0..<NDIRECT + 1] ! i = d_addrs x ! i"
      using s [of "12 + 4 * i" 4] f(6) [OF i] by (simp add: get32_def NDIRECT_def add.assoc)
  qed (simp add: assms)
  show ?thesis
    unfolding get_dinode_def a using f s [of 2 2] s [of 4 2] s [of 6 2] s [of 8 4] s0
    by (simp add: get16_def get32_def)
qed

text \<open>Writing one inode leaves the other inodes of the block alone.\<close>

lemma get_put_dinode_other:
  assumes "length (d_addrs x) = NDIRECT + 1" "off + 64 \<le> length d" "o' + 64 \<le> length d"
    "o' + 64 \<le> off \<or> off + 64 \<le> o'"
  shows "get_dinode (put_dinode d off x) o' = get_dinode d o'"
proof -
  have s: "slice (o' + k) n (put_dinode d off x) = slice (o' + k) n d" if "k + n \<le> 64" for k n
    unfolding put_dinode_def using that assms by (intro slice_splice_other) auto
  have s0: "slice o' 2 (put_dinode d off x) = slice o' 2 d" using s [of 0 2] by simp
  show ?thesis
    unfolding get_dinode_def get16_def get32_def
    using s [of 2 2] s [of 4 2] s [of 6 2] s [of 8 4] s0 s [of "12 + 4 * i" 4 for i]
    by (auto simp: NDIRECT_def add.assoc)
qed

lemma dinode_off_le: "dinode_off inum + 64 \<le> BSIZE"
proof -
  have "inum mod 8 < 8" by simp
  then show ?thesis unfolding dinode_off_def IPB_def BSIZE_def by linarith
qed

lemma length_put_dinode [simp]:
  "length (d_addrs x) = NDIRECT + 1 \<Longrightarrow> off + 64 \<le> length d \<Longrightarrow> length (put_dinode d off x) = length d"
  by (simp add: put_dinode_def)

section \<open>balloc and bfree\<close>

lemma find_append: "find P (xs @ ys) = (case find P xs of None \<Rightarrow> find P ys | Some x \<Rightarrow> Some x)"
  by (induction xs) simp_all

lemma find_shift:
  "find P [a..<a + n] = (case find (\<lambda>i. P (a + i)) [0..<n] of None \<Rightarrow> None | Some i \<Rightarrow> Some (a + i))"
  by (induction n) (auto simp: find_append split: option.splits)

lemma find_split: "a \<le> c \<Longrightarrow> c \<le> n \<Longrightarrow> find P [a..<n] = (case find P [a..<c] of None \<Rightarrow> find P [c..<n] | Some x \<Rightarrow> Some x)"
  using upt_add_eq_append [of a c "n - c"] by (simp add: find_append)

text \<open>One round of the outer loop of \<open>balloc\<close> looks at the part of the disk its bitmap block covers.\<close>

lemma bitmap_round:
  assumes "k * BPB < n"
  shows "find (blk_free sb v) [k * BPB..<n] =
    (case find (bit_free (v (k + sb_bmapstart sb))) [0..<min BPB (n - k * BPB)] of
       Some bi \<Rightarrow> Some (k * BPB + bi) | None \<Rightarrow> find (blk_free sb v) [Suc k * BPB..<n])"
proof -
  let ?m = "min BPB (n - k * BPB)"
  have eq: "blk_free sb v (k * BPB + bi) = bit_free (v (k + sb_bmapstart sb)) bi" if "bi < ?m" for bi
    using that BBLOCK_block [of k "k * BPB + bi" sb] by (simp add: blk_free_def)
  have "find (\<lambda>i. blk_free sb v (k * BPB + i)) [0..<?m] = find (bit_free (v (k + sb_bmapstart sb))) [0..<?m]"
    by (rule find_cong) (simp_all add: eq)
  then have r: "find (blk_free sb v) [k * BPB..<k * BPB + ?m] =
      map_option ((+) (k * BPB)) (find (bit_free (v (k + sb_bmapstart sb))) [0..<?m])"
    by (simp add: find_shift split: option.split)
  show ?thesis
  proof (cases "n \<le> Suc k * BPB")
    case True
    then have "k * BPB + ?m = n" using assms by (auto simp: min_def)
    then show ?thesis using r True by (simp split: option.split)
  next
    case False
    then have mm: "k * BPB + ?m = Suc k * BPB" by (simp add: min_def)
    have "find (blk_free sb v) [k * BPB..<n] = (case find (blk_free sb v) [k * BPB..<Suc k * BPB] of
        None \<Rightarrow> find (blk_free sb v) [Suc k * BPB..<n] | Some x \<Rightarrow> Some x)"
      using False by (intro find_split) simp_all
    then show ?thesis using r unfolding mm
      by (cases "find (bit_free (v (k + sb_bmapstart sb))) [0..<?m]") (simp_all del: mult_Suc)
  qed
qed

definition alloc_view :: "superblock \<Rightarrow> nat \<Rightarrow> (nat \<Rightarrow> bytes) \<Rightarrow> (nat \<Rightarrow> bytes)" where
  "alloc_view sb b v = (v(BBLOCK b sb := mark_used (v (BBLOCK b sb)) (b mod BPB)))(b := replicate BSIZE 0)"

lemma wp_balloc_loop:
  assumes "tst s0 H M v L ic il s" and geom: "fs_geom s0" and sb: "sb = sblk s0" "n = sb_size sb"
    and K: "K = (n + BPB - 1) div BPB"
    and f: "find (blk_free sb v) [k * BPB..<n] = Some b"
    and b: "b \<notin> ran H" "b \<notin> log_blocks s0" "\<forall>c < n. BBLOCK c sb \<notin> ran H" and M: "M \<subseteq> dom H"
    and room: "card (dom H) + length L + 1 < NBUF" "length L + 1 < LOGSIZE - 1"
    and Q: "\<And>s'. tst s0 H M (alloc_view sb b v) (ladd b (ladd (BBLOCK b sb) L)) ic il s' \<Longrightarrow> Q b s'"
  shows "wp (balloc_loop 1 n (map (\<lambda>k. k * BPB) [k..<K])) Q s"
  using assms(1) f
proof (induction "K - k" arbitrary: k s)
  case 0
  then have "n \<le> k * BPB" unfolding K BPB_def by linarith
  then show ?case using 0(3) by simp
next
  case (Suc m)
  have kK: "k < K" using Suc(2) by simp
  then have kn: "k * BPB < n" unfolding K BPB_def by linarith
  have ks: "[k..<K] = k # [Suc k..<K]" using kK by (rule upt_conv_Cons)
  have BB: "BBLOCK (k * BPB) sb = k + sb_bmapstart sb" by (simp add: BBLOCK_def BPB_def)
  let ?bb = "k + sb_bmapstart sb"
  have bb: "?bb < disksize s0" "?bb \<notin> log_blocks s0" "?bb \<notin> ran H"
    using geom b(3) kn BB sb unfolding fs_geom_def Let_def by metis+
  note rnd = bitmap_round [OF kn, of sb v]
  have "wp (bread 1 ?bb) (\<lambda>bp. wp (bdata bp) (\<lambda>d. wp (case find (bit_free d) [0..<min BPB (n - k * BPB)] of
       Some bi \<Rightarrow> kseq (set_bdata bp (mark_used d bi)) (kseq (log_write bp) (kseq (brelse bp)
         (kseq (bzero 1 (k * BPB + bi)) (kret (k * BPB + bi)))))
     | None \<Rightarrow> kseq (brelse bp) (balloc_loop 1 n (map (\<lambda>k. k * BPB) [Suc k..<K]))) Q)) s"
  proof (rule wp_t_bread [OF Suc(3) bb(1,3)])
    show "?bb \<in> set L \<or> card (dom H) + length L < NBUF" using room by simp
    fix i s1 assume i: "H i = None" and s1: "tst s0 (H(i \<mapsto> ?bb)) M v L ic il s1"
    have Mi: "i \<notin> M" "insert i M - {i} = M" using M i by auto
    have Hi: "(H(i \<mapsto> ?bb))(i := None) = H" using i by (simp add: fun_upd_idem)
    show "wp (bdata i) (\<lambda>d. wp (case find (bit_free d) [0..<min BPB (n - k * BPB)] of
       Some bi \<Rightarrow> kseq (set_bdata i (mark_used d bi)) (kseq (log_write i) (kseq (brelse i)
         (kseq (bzero 1 (k * BPB + bi)) (kret (k * BPB + bi)))))
     | None \<Rightarrow> kseq (brelse i) (balloc_loop 1 n (map (\<lambda>k. k * BPB) [Suc k..<K]))) Q) s1"
    proof (rule wp_t_bdata [OF s1, of _ ?bb], simp)
      show "wp (case find (bit_free (v ?bb)) [0..<min BPB (n - k * BPB)] of
         Some bi \<Rightarrow> kseq (set_bdata i (mark_used (v ?bb) bi)) (kseq (log_write i) (kseq (brelse i)
           (kseq (bzero 1 (k * BPB + bi)) (kret (k * BPB + bi)))))
       | None \<Rightarrow> kseq (brelse i) (balloc_loop 1 n (map (\<lambda>k. k * BPB) [Suc k..<K]))) Q s1"
      proof (cases "find (bit_free (v ?bb)) [0..<min BPB (n - k * BPB)]")
        case None
        then have f': "find (blk_free sb v) [Suc k * BPB..<n] = Some b" using rnd Suc(4) by simp
        show ?thesis unfolding None option.case wp_seqs
        proof (rule wp_t_brelse [OF s1])
          fix s2 assume "tst s0 ((H(i \<mapsto> ?bb))(i := None)) M v L ic il s2"
          then have s2: "tst s0 H M v L ic il s2" unfolding Hi .
          show "wp (balloc_loop 1 n (map (\<lambda>k. k * BPB) [Suc k..<K])) Q s2"
            by (rule Suc(1) [OF _ s2 f']) (use Suc(2) in simp)
        qed (use Mi in simp_all)
      next
        case (Some bi)
        then have bi: "b = k * BPB + bi" using rnd Suc(4) by simp
        have bim: "bi < min BPB (n - k * BPB)"
          using Some by (auto simp: find_Some_iff)
        have bB: "BBLOCK b sb = ?bb" "b mod BPB = bi" using BBLOCK_block [of k b sb] bi bim by simp_all
        have rm: "card (dom H) + length (ladd ?bb L) < NBUF" "length (ladd ?bb L) < LOGSIZE - 1"
          using room ladd_simps(2) [of ?bb L] by linarith+
        have bn: "b < disksize s0" using bi bim geom sb unfolding fs_geom_def Let_def by auto
        show ?thesis unfolding Some option.case wp_seqs bi [symmetric]
          apply (rule wp_t_set_bdata [OF s1, of _ ?bb], simp)
           apply (simp add: tstD(9) [OF s1])
          apply (rule wp_t_log_write, assumption, simp)
            apply (use room bb in simp_all)[2]
          apply (rule wp_t_brelse, assumption)
            apply simp_all[2]
          apply (unfold Hi Mi(2))
          apply (rule wp_bzero, assumption, rule bn, rule b, rule b, rule rm, rule rm)
           apply (unfold wp_kret)
           apply (rule Q)
           apply (simp add: alloc_view_def bB)
          apply (rule M)
          done
      qed
    qed
  qed
  then show ?case
    unfolding ks list.map balloc_loop.simps wp_seqs
    by (intro wp_t_kget(1) [OF Suc(3)]) (simp add: BB flip: sb(1))
qed

lemma wp_balloc:
  assumes t: "tst s0 H M v L ic il s" and geom: "fs_geom s0" and sb: "sb = sblk s0"
    and f: "find (blk_free sb v) [0..<sb_size sb] = Some b"
    and b: "b \<notin> ran H" "b \<notin> log_blocks s0" "\<forall>c < sb_size sb. BBLOCK c sb \<notin> ran H" and M: "M \<subseteq> dom H"
    and room: "card (dom H) + length L + 1 < NBUF" "length L + 1 < LOGSIZE - 1"
    and Q: "\<And>s'. tst s0 H M (alloc_view sb b v) (ladd b (ladd (BBLOCK b sb) L)) ic il s' \<Longrightarrow> Q b s'"
  shows "wp (balloc 1) Q s"
  unfolding balloc_def wp_seqs bitmap_starts_def
proof (rule wp_t_kget(1) [OF t])
  show "wp (balloc_loop 1 (sb_size (sblk s0)) (map (\<lambda>k. k * BPB) [0..<(sb_size (sblk s0) + BPB - 1) div BPB])) Q s"
    by (rule wp_balloc_loop [OF t geom refl refl refl, where k = 0 and b = b])
      (use f b M room Q in \<open>simp_all add: sb\<close>)
qed

lemma wp_bfree:
  assumes t: "tst s0 H M v L ic il s" and geom: "fs_geom s0" and sb: "sb = sblk s0"
    and b: "b < sb_size sb" "\<not> blk_free sb v b" "BBLOCK b sb \<notin> ran H" and M: "M \<subseteq> dom H"
    and room: "card (dom H) + length L < NBUF" "length L < LOGSIZE - 1"
    and Q: "\<And>s'. tst s0 H M (v(BBLOCK b sb := mark_free (v (BBLOCK b sb)) (b mod BPB)))
      (ladd (BBLOCK b sb) L) ic il s' \<Longrightarrow> Q () s'"
  shows "wp (bfree 1 b) Q s"
  unfolding bfree_def wp_seqs
proof (rule wp_t_kget(1) [OF t], fold sb, rule wp_t_bread [OF t _ b(3)])
  let ?bb = "BBLOCK b sb"
  have bb: "?bb < disksize s0" "?bb \<notin> log_blocks s0" using geom b(1) sb by (auto simp: fs_geom_def Let_def)
  show "?bb < disksize s0" by (rule bb)
  show "?bb \<in> set L \<or> card (dom H) + length L < NBUF" using room by simp
  fix i s1 assume i: "H i = None" and s1: "tst s0 (H(i \<mapsto> ?bb)) M v L ic il s1"
  have Mi: "i \<notin> M" "insert i M - {i} = M" using M i by auto
  have Hi: "(H(i \<mapsto> ?bb))(i := None) = H" using i by (simp add: fun_upd_idem)
  have nf: "\<not> bit_free (v ?bb) (b mod BPB)" using b(2) by (simp add: blk_free_def)
  show "wp (bdata i) (\<lambda>d. wp (panic_if (bit_free d (b mod BPB)) ''freeing free block'')
     (\<lambda>_. wp (set_bdata i (mark_free d (b mod BPB))) (\<lambda>_. wp (log_write i) (\<lambda>_. wp (brelse i) Q)))) s1"
    apply (rule wp_t_bdata [OF s1, of _ ?bb], simp)
    apply (simp only: wp_panic_if nf simp_thms)
    apply (rule wp_t_set_bdata [OF s1, of _ ?bb], simp)
     apply (simp add: tstD(9) [OF s1])
    apply (rule wp_t_log_write, assumption, simp, rule room, rule bb)
    apply (rule wp_t_brelse, assumption)
      apply simp_all[2]
    apply (unfold Hi Mi(2))
    by (rule Q)
qed

text \<open>\<open>bfree\<close> of a block that is free already stops the kernel.\<close>

lemma bfree_twice:
  assumes t: "tst s0 H M v L ic il s" and geom: "fs_geom s0" and sb: "sb = sblk s0"
    and b: "b < sb_size sb" "blk_free sb v b" "BBLOCK b sb \<notin> ran H"
    and room: "card (dom H) + length L < NBUF"
  shows "bfree 1 b s = Panic ''freeing free block''"
proof -
  let ?bb = "BBLOCK b sb"
  have bb: "?bb < disksize s0" using geom b(1) sb by (auto simp: fs_geom_def Let_def)
  have sbk: "sblk s = sb" using tstD(8) [OF t] sb by simp
  have "wp (bread 1 ?bb) (\<lambda>i s'. \<exists>H'. tst s0 H' M v L ic il s' \<and> H' i = Some ?bb) s"
    by (rule wp_t_bread [OF t bb b(3)]) (use room in \<open>auto intro: exI\<close>)
  then obtain i s' H' where r: "bread 1 ?bb s = Ret i s'" and s': "tst s0 H' M v L ic il s'" "H' i = Some ?bb"
    by (auto simp: wp_iff)
  have "wp (bdata i) (\<lambda>d t. d = v ?bb \<and> t = s') s'" by (rule wp_t_bdata [OF s']) simp
  then have "bdata i s' = Ret (v ?bb) s'" by (auto simp: wp_iff)
  then show ?thesis using r b(2) sbk by (simp add: bfree_def kexec blk_free_def)
qed

section \<open>iupdate and ilock\<close>

lemma wp_iupdate:
  assumes t: "tst s0 H M v L ic il s" and geom: "fs_geom s0" and sb: "sb = sblk s0"
    and ip: "i_dev (ic i) = 1" "i_inum (ic i) < sb_ninodes sb" "length (i_addrs (ic i)) = NDIRECT + 1"
      "IBLOCK (i_inum (ic i)) sb \<notin> ran H" and M: "M \<subseteq> dom H"
    and room: "card (dom H) + length L < NBUF" "length L < LOGSIZE - 1"
    and Q: "\<And>s'. tst s0 H M (v(IBLOCK (i_inum (ic i)) sb :=
        put_dinode (v (IBLOCK (i_inum (ic i)) sb)) (dinode_off (i_inum (ic i))) (dinode_of (ic i))))
      (ladd (IBLOCK (i_inum (ic i)) sb) L) ic il s' \<Longrightarrow> Q () s'"
  shows "wp (iupdate i) Q s"
  unfolding iupdate_def wp_seqs
proof (rule wp_t_kget(2) [OF t], rule wp_t_kget(1) [OF t], fold sb, unfold ip(1), rule wp_t_bread [OF t _ ip(4)])
  let ?ib = "IBLOCK (i_inum (ic i)) sb" and ?o = "dinode_off (i_inum (ic i))"
  have ib: "?ib < disksize s0" "?ib \<notin> log_blocks s0" using geom ip(2) sb by (auto simp: fs_geom_def Let_def)
  show "?ib < disksize s0" by (rule ib)
  show "?ib \<in> set L \<or> card (dom H) + length L < NBUF" using room by simp
  fix j s1 assume j: "H j = None" and s1: "tst s0 (H(j \<mapsto> ?ib)) M v L ic il s1"
  have Mj: "j \<notin> M" "insert j M - {j} = M" using M j by auto
  have Hj: "(H(j \<mapsto> ?ib))(j := None) = H" using j by (simp add: fun_upd_idem)
  have "length (d_addrs (dinode_of (ic i))) = NDIRECT + 1" using ip(3) by (simp add: dinode_of_def)
  then have len: "length (put_dinode (v ?ib) ?o (dinode_of (ic i))) = BSIZE"
    using tstD(9) [OF s1] dinode_off_le by (subst length_put_dinode) simp_all
  show "wp (bdata j) (\<lambda>d. wp (set_bdata j (put_dinode d ?o (dinode_of (ic i))))
     (\<lambda>_. wp (log_write j) (\<lambda>_. wp (brelse j) Q))) s1"
    apply (rule wp_t_bdata [OF s1, of _ ?ib], simp)
    apply (rule wp_t_set_bdata [OF s1, of _ ?ib], simp, rule len)
    apply (rule wp_t_log_write, assumption, simp, rule room, rule ib)
    apply (rule wp_t_brelse, assumption)
      apply simp_all[2]
    apply (unfold Hj Mj(2))
    by (rule Q)
qed

lemma wp_ilock_load:
  assumes t: "tst s0 H M v L ic il s" and geom: "fs_geom s0" and sb: "sb = sblk s0"
    and ip: "i_dev (ic i) = 1" "i_inum (ic i) < sb_ninodes sb" "IBLOCK (i_inum (ic i)) sb \<notin> ran H"
      "\<not> i_valid (ic i)" and M: "M \<subseteq> dom H"
    and room: "card (dom H) + length L < NBUF"
    and x: "x = get_dinode (v (IBLOCK (i_inum (ic i)) sb)) (dinode_off (i_inum (ic i)))" "d_type x \<noteq> 0"
    and Q: "\<And>s'. tst s0 H M v L (ic(i := (load_inode x (ic i))\<lparr>i_valid := True\<rparr>)) il s' \<Longrightarrow> Q () s'"
  shows "wp (ilock_load i) Q s"
  unfolding ilock_load_def wp_seqs
proof (rule wp_t_kget(2) [OF t], simp only: wp_kwhen ip if_True simp_thms wp_seqs,
    rule wp_t_kget(1) [OF t], fold sb, rule wp_t_bread [OF t _ ip(3)])
  let ?ib = "IBLOCK (i_inum (ic i)) sb" and ?o = "dinode_off (i_inum (ic i))"
  show "?ib < disksize s0" using geom ip(2) sb by (auto simp: fs_geom_def Let_def)
  show "?ib \<in> set L \<or> card (dom H) + length L < NBUF" using room by simp
  fix j s1 assume j: "H j = None" and s1: "tst s0 (H(j \<mapsto> ?ib)) M v L ic il s1"
  have Mj: "j \<notin> M" using M j by auto
  have Hj: "(H(j \<mapsto> ?ib))(j := None) = H" using j by (simp add: fun_upd_idem)
  let ?ic = "ic(i := load_inode x (ic i))"
  show "wp (bdata j) (\<lambda>d. wp (kmod_inode i (load_inode (get_dinode d ?o)))
     (\<lambda>_. wp (brelse j) (\<lambda>_. wp (kmod_inode i (\<lambda>x. x\<lparr>i_valid := True\<rparr>))
     (\<lambda>_. wp (kget (\<lambda>s. i_type (icache s i))) (\<lambda>ty. wp (panic_if (ty = 0) ''ilock: no type'') Q))))) s1"
    apply (rule wp_t_bdata [OF s1, of _ ?ib], simp, fold x(1))
    apply (rule wp_t_kmod_inode [OF s1])
    apply (rule wp_t_brelse, assumption)
      apply (use Mj in simp_all)[2]
    apply (unfold Hj)
    apply (rule wp_t_kmod_inode, assumption)
    apply (rule wp_t_kget(2), assumption)
    apply (use x(2) in \<open>simp add: wp_panic_if load_inode_def\<close>)
    apply (rule Q)
    by (simp add: load_inode_def)
qed

end
