(* ===== verification/Fs.thy ===== *)
theory Fs
  imports Console Inode_Spec
begin

text \<open>
  File contents, directories and path names of \<^verbatim>\<open>src/xv6/fs.c\<close>. A kernel buffer the code fills
  is returned as a byte list; one it reads is passed as a byte list of its length. A path is the
  byte list before its NUL; a null inode pointer is \<open>None\<close>.
\<close>

section \<open>Initialisation\<close>

definition iinit :: "nat \<Rightarrow> ('z cstate_scheme, unit) kern" where
  "iinit dev =
     kseq (initlock IcacheLk)
     (kseq (kfor [0..<NINODE] (\<lambda>i. initsleeplock (InodeLk i)))
     (kbind (readsb dev) (\<lambda>sb.
      kseq (kmod (\<lambda>s. s\<lparr>sblk := sb\<rparr>))
      (cprintf (msg ''sb: size %d nblocks %d ninodes %d nlog %d logstart %d inodestart %d bmap start %d\<newline>'')
        (map (\<lambda>f. ArgWord (of_nat (f sb)))
           [sb_size, sb_nblocks, sb_ninodes, sb_nlog, sb_logstart, sb_inodestart, sb_bmapstart])))))"

section \<open>readi and writei\<close>

definition devr :: "nat \<Rightarrow> nat \<Rightarrow> ('z cstate_scheme, int \<times> bytes) kern" where
  "devr i n =
     kbind (kget (\<lambda>s. icache s i)) (\<lambda>ip.
     kbind (kget devsw_read) (\<lambda>dr.
     if sint (i_major ip) < 0 \<or> sint (i_major ip) \<ge> int NDEV then kret (- 1, [])
     else (case dr (unat (i_major ip)) of
             None \<Rightarrow> kret (- 1, [])
           | Some Consoleread \<Rightarrow> consoleread i n
           | Some Consolewrite \<Rightarrow> kundef)))"

definition devw :: "nat \<Rightarrow> bytes \<Rightarrow> ('z cstate_scheme, int) kern" where
  "devw i src =
     kbind (kget (\<lambda>s. icache s i)) (\<lambda>ip.
     kbind (kget devsw_write) (\<lambda>dw.
     if sint (i_major ip) < 0 \<or> sint (i_major ip) \<ge> int NDEV then kret (- 1)
     else (case dw (unat (i_major ip)) of
             None \<Rightarrow> kret (- 1)
           | Some Consolewrite \<Rightarrow> consolewrite i src
           | Some Consoleread \<Rightarrow> kundef)))"

text \<open>
  The copying loop of \<open>readi\<close> with \<open>left = n - tot\<close> bytes to go. Offsets do not wrap here: the
  checks before the loop keep \<open>off + n\<close> below \<open>2 ^ 32\<close>.
\<close>

function readi_loop :: "nat \<Rightarrow> nat \<Rightarrow> nat \<Rightarrow> ('z cstate_scheme, bytes) kern" where
  "readi_loop i off left =
     (if left = 0 then kret []
      else let m = min left (BSIZE - off mod BSIZE) in
        kbind (kget (\<lambda>s. i_dev (icache s i))) (\<lambda>dev.
        kbind (bmap i (off div BSIZE)) (\<lambda>bn.
        kbind (bread dev bn) (\<lambda>bp.
        kbind (bdata bp) (\<lambda>d.
        kseq (brelse bp)
        (kbind (readi_loop i (off + m) (left - m)) (\<lambda>rest.
         kret (slice (off mod BSIZE) m d @ rest))))))))"
  by pat_completeness auto
termination
  by (relation "measure (\<lambda>(i, off, left). left)") (auto simp: BSIZE_def)

definition readi :: "nat \<Rightarrow> u32 \<Rightarrow> u32 \<Rightarrow> ('z cstate_scheme, int \<times> bytes) kern" where
  "readi i off n =
     kbind (kget (\<lambda>s. icache s i)) (\<lambda>ip.
     if i_type ip = T_DEV then devr i (unat n)
     else if off > i_size ip \<or> off + n < off then kret (- 1, [])
     else let n = (if off + n > i_size ip then i_size ip - off else n) in
          kbind (readi_loop i (unat off) (unat n)) (\<lambda>bs. kret (int (unat n), bs)))"

function writei_loop :: "nat \<Rightarrow> nat \<Rightarrow> bytes \<Rightarrow> ('z cstate_scheme, unit) kern" where
  "writei_loop i off src =
     (if src = [] then kret ()
      else let m = min (length src) (BSIZE - off mod BSIZE) in
        kbind (kget (\<lambda>s. i_dev (icache s i))) (\<lambda>dev.
        kbind (bmap i (off div BSIZE)) (\<lambda>bn.
        kbind (bread dev bn) (\<lambda>bp.
        kbind (bdata bp) (\<lambda>d.
        kseq (set_bdata bp (splice (off mod BSIZE) (take m src) d))
        (kseq (log_write bp)
        (kseq (brelse bp)
         (writei_loop i (off + m) (drop m src)))))))))"
  by pat_completeness auto
termination
  by (relation "measure (\<lambda>(i, off, src). length src)") (auto simp: BSIZE_def)

declare readi_loop.simps [simp del] writei_loop.simps [simp del]

definition writei :: "nat \<Rightarrow> bytes \<Rightarrow> u32 \<Rightarrow> ('z cstate_scheme, int) kern" where
  "writei i src off =
     (let n = of_nat (length src) :: u32 in
      kbind (kget (\<lambda>s. icache s i)) (\<lambda>ip.
      if i_type ip = T_DEV then devw i src
      else if off > i_size ip \<or> off + n < off then kret (- 1)
      else if off + n > of_nat (MAXFILE * BSIZE) then kret (- 1)
      else kseq (writei_loop i (unat off) src)
           (kbind (kget (\<lambda>s. i_size (icache s i))) (\<lambda>sz.
            kseq (kwhen (n > 0 \<and> off + n > sz)
              (kseq (kmod_inode i (\<lambda>x. x\<lparr>i_size := off + n\<rparr>)) (iupdate i)))
            (kret (int (unat n)))))))"

record stat_t =
  st_type :: u16
  st_dev :: nat
  st_ino :: nat
  st_nlink :: u16
  st_size :: u32

definition stati :: "nat \<Rightarrow> ('z istate_scheme, stat_t) kern" where
  "stati i = kget (\<lambda>s. let ip = icache s i in
     \<lparr>st_type = i_type ip, st_dev = i_dev ip, st_ino = i_inum ip, st_nlink = i_nlink ip,
      st_size = i_size ip\<rparr>)"

section \<open>Directories\<close>

definition DIRSIZ :: nat where "DIRSIZ = 14"

text \<open>A directory entry on disk: a 16-bit inode number and \<open>DIRSIZ\<close> name bytes.\<close>

record dirent =
  de_inum :: u16
  de_name :: bytes

definition dec_dirent :: "bytes \<Rightarrow> dirent" where
  "dec_dirent d = \<lparr>de_inum = get16 d 0, de_name = slice 2 DIRSIZ d\<rparr>"

definition enc_dirent :: "dirent \<Rightarrow> bytes" where
  "enc_dirent de = le16 (de_inum de) @ de_name de"

text \<open>\<open>strncmp\<close> and \<open>strncpy\<close> on name bytes held in lists; a list that ends is followed by a NUL.\<close>

definition namecmp_eq :: "bytes \<Rightarrow> bytes \<Rightarrow> bool" where
  "namecmp_eq s t \<longleftrightarrow> cstr (take DIRSIZ s) = cstr (take DIRSIZ t)"

definition name_copy :: "bytes \<Rightarrow> bytes" where
  "name_copy t = take DIRSIZ (cstr t @ replicate DIRSIZ 0)"

fun dirlookup_loop :: "nat \<Rightarrow> bytes \<Rightarrow> nat list \<Rightarrow> ('z cstate_scheme, (nat \<times> nat) option) kern" where
  "dirlookup_loop dp name [] = kret None"
| "dirlookup_loop dp name (off # offs) =
     kbind (readi dp (of_nat off) 16) (\<lambda>(r, bs).
     kseq (panic_if (r \<noteq> 16) ''dirlookup read'')
     (let de = dec_dirent bs in
      if de_inum de = 0 then dirlookup_loop dp name offs
      else if namecmp_eq name (de_name de) then
        kbind (kget (\<lambda>s. i_dev (icache s dp))) (\<lambda>dev.
        kbind (iget dev (unat (de_inum de))) (\<lambda>i. kret (Some (i, off))))
      else dirlookup_loop dp name offs))"

definition dir_offs :: "u32 \<Rightarrow> nat list" where
  "dir_offs n = map (\<lambda>k. 16 * k) [0..<(unat n + 15) div 16]"

text \<open>The result is the inode and the offset stored in \<open>*poff\<close>.\<close>

definition dirlookup :: "nat \<Rightarrow> bytes \<Rightarrow> ('z cstate_scheme, (nat \<times> nat) option) kern" where
  "dirlookup dp name =
     kbind (kget (\<lambda>s. icache s dp)) (\<lambda>ip.
     kseq (panic_if (i_type ip \<noteq> T_DIR) ''dirlookup not DIR'')
     (dirlookup_loop dp name (dir_offs (i_size ip))))"

fun dirlink_scan :: "nat \<Rightarrow> nat list \<Rightarrow> nat \<Rightarrow> ('z cstate_scheme, nat) kern" where
  "dirlink_scan dp [] end = kret end"
| "dirlink_scan dp (off # offs) end =
     kbind (readi dp (of_nat off) 16) (\<lambda>(r, bs).
     kseq (panic_if (r \<noteq> 16) ''dirlink read'')
     (if de_inum (dec_dirent bs) = 0 then kret off else dirlink_scan dp offs end))"

definition dirlink :: "nat \<Rightarrow> bytes \<Rightarrow> nat \<Rightarrow> ('z cstate_scheme, int) kern" where
  "dirlink dp name inum =
     kbind (dirlookup dp name) (\<lambda>r. case r of
       Some (i, off) \<Rightarrow> kseq (iput i) (kret (- 1))
     | None \<Rightarrow>
         kbind (kget (\<lambda>s. i_size (icache s dp))) (\<lambda>sz.
         kbind (dirlink_scan dp (dir_offs sz) (16 * ((unat sz + 15) div 16))) (\<lambda>off.
         kbind (writei dp (enc_dirent \<lparr>de_inum = of_nat inum, de_name = name_copy name\<rparr>) (of_nat off)) (\<lambda>r.
         kseq (panic_if (r \<noteq> 16) ''dirlink'')
         (kret 0)))))"

section \<open>Paths\<close>

definition slash :: u8 where "slash = 47"

text \<open>
  \<open>skipelem\<close>: the rest of the path and the first element, cut to \<open>DIRSIZ\<close> bytes; \<open>None\<close> when
  there is no element.
\<close>

definition skipelem :: "bytes \<Rightarrow> (bytes \<times> bytes) option" where
  "skipelem pth =
     (let p = dropWhile (\<lambda>c. c = slash) pth in
      if p = [] then None
      else let e = takeWhile (\<lambda>c. c \<noteq> slash) p; r = dropWhile (\<lambda>c. c \<noteq> slash) p in
           Some (dropWhile (\<lambda>c. c = slash) r, take DIRSIZ e))"

lemma skipelem_shorter: "skipelem pth = Some (r, e) \<Longrightarrow> length r < length pth"
proof -
  assume a: "skipelem pth = Some (r, e)"
  let ?p = "dropWhile (\<lambda>c. c = slash) pth"
  have ne: "?p \<noteq> []" and r: "r = dropWhile (\<lambda>c. c = slash) (dropWhile (\<lambda>c. c \<noteq> slash) ?p)"
    using a by (auto simp: skipelem_def Let_def split: if_splits)
  then obtain x xs where p: "?p = x # xs" by (cases ?p) auto
  then have "x \<noteq> slash" using hd_dropWhile [of "\<lambda>c. c = slash" pth] ne by simp
  then have "length r \<le> length xs" unfolding r p
    by (simp add: le_trans [OF length_dropWhile_le length_dropWhile_le])
  also have "length xs < length ?p" unfolding p by simp
  also have "\<dots> \<le> length pth" by (rule length_dropWhile_le)
  finally show ?thesis .
qed

function namex_loop :: "nat \<Rightarrow> bytes \<Rightarrow> bool \<Rightarrow> bytes \<Rightarrow> ('z cstate_scheme, (nat \<times> bytes) option) kern" where
  "namex_loop ip pth par name =
     (case skipelem pth of
        None \<Rightarrow> if par then kseq (iput ip) (kret None) else kret (Some (ip, name))
      | Some (rest, elem) \<Rightarrow>
          kseq (ilock (Some ip))
          (kbind (kget (\<lambda>s. i_type (icache s ip))) (\<lambda>ty.
           if ty \<noteq> T_DIR then kseq (iunlockput ip) (kret None)
           else if par \<and> rest = [] then kseq (iunlock (Some ip)) (kret (Some (ip, elem)))
           else kbind (dirlookup ip elem) (\<lambda>r. case r of
                  None \<Rightarrow> kseq (iunlockput ip) (kret None)
                | Some (next, off) \<Rightarrow> kseq (iunlockput ip) (namex_loop next rest par elem)))))"
  by pat_completeness auto
termination
  by (relation "measure (\<lambda>(ip, pth, par, name). length pth)") (auto simp: skipelem_shorter)

text \<open>The result carries the last path element \<open>name\<close> with the inode.\<close>

definition namex :: "bytes \<Rightarrow> bool \<Rightarrow> ('z cstate_scheme, (nat \<times> bytes) option) kern" where
  "namex pth par =
     kbind (if pth \<noteq> [] \<and> hd pth = slash then iget ROOTDEV ROOTINO
            else kbind myproc (\<lambda>mp. case mp of
                   None \<Rightarrow> kundef
                 | Some p \<Rightarrow> kbind (kget (\<lambda>s. cwd (ptable s p))) (\<lambda>c. case c of
                     None \<Rightarrow> kundef | Some i \<Rightarrow> idup i))) (\<lambda>ip.
     namex_loop ip pth par [])"

definition namei :: "bytes \<Rightarrow> ('z cstate_scheme, nat option) kern" where
  "namei pth = kbind (namex pth False) (\<lambda>r. kret (map_option fst r))"

definition nameiparent :: "bytes \<Rightarrow> ('z cstate_scheme, (nat \<times> bytes) option) kern" where
  "nameiparent pth = namex pth True"

end
