(* ===== verification/Fifo.thy ===== *)
theory Fifo
  imports Prelude
begin

text \<open>
  The contract of a bounded first-in first-out buffer, and what follows from it for a whole history
  of puts and gets. It is the interface shared by the kernel's pipe, the console input buffer and
  the ring buffers of the laboratory programs; each component interprets it on its own operations.
\<close>

datatype 'a qop = Put 'a | Get

text \<open>A history, with the values taken out; a put into a full buffer and a get from an empty one
  block, so a history that contains one is not possible.\<close>

fun qrun :: "('a \<Rightarrow> 's \<Rightarrow> 's) \<Rightarrow> ('s \<Rightarrow> 'a \<times> 's) \<Rightarrow> ('s \<Rightarrow> nat) \<Rightarrow> nat \<Rightarrow> 'a qop list \<Rightarrow> 's \<Rightarrow> ('a list \<times> 's) option" where
  "qrun put get cnt cap [] s = Some ([], s)"
| "qrun put get cnt cap (Put x # ops) s =
     (if cnt s < cap then qrun put get cnt cap ops (put x s) else None)"
| "qrun put get cnt cap (Get # ops) s =
     (if cnt s = 0 then None
      else let (y, s') = get s in map_option (\<lambda>(ys, t). (y # ys, t)) (qrun put get cnt cap ops s'))"

fun puts :: "'a qop list \<Rightarrow> 'a list" where
  "puts [] = []"
| "puts (Put x # ops) = x # puts ops"
| "puts (Get # ops) = puts ops"

locale fifo =
  fixes put :: "'a \<Rightarrow> 's \<Rightarrow> 's" and get :: "'s \<Rightarrow> 'a \<times> 's"
    and cnt :: "'s \<Rightarrow> nat" and items :: "'s \<Rightarrow> 'a list"
    and cap :: nat and inv :: "'s \<Rightarrow> bool"
  assumes cnt_items: "inv s \<Longrightarrow> cnt s = length (items s)"
    and bounded: "inv s \<Longrightarrow> cnt s \<le> cap"
    and put_inv: "inv s \<Longrightarrow> cnt s < cap \<Longrightarrow> inv (put x s)"
    and put_items: "inv s \<Longrightarrow> cnt s < cap \<Longrightarrow> items (put x s) = items s @ [x]"
    and get_inv: "inv s \<Longrightarrow> cnt s \<noteq> 0 \<Longrightarrow> inv (snd (get s))"
    and get_items: "inv s \<Longrightarrow> cnt s \<noteq> 0 \<Longrightarrow> items s = fst (get s) # items (snd (get s))"
begin

lemma run_inv:
  "inv s \<Longrightarrow> qrun put get cnt cap ops s = Some (ys, t) \<Longrightarrow> inv t"
proof (induction ops arbitrary: s ys)
  case (Cons p ops)
  then show ?case
    by (cases p) (auto split: if_splits prod.splits intro: put_inv dest: get_inv)
qed simp

text \<open>Nothing is lost, duplicated or reordered.\<close>

lemma run_fifo:
  "inv s \<Longrightarrow> qrun put get cnt cap ops s = Some (ys, t) \<Longrightarrow> ys @ items t = items s @ puts ops"
proof (induction ops arbitrary: s ys)
  case (Cons p ops)
  show ?case
  proof (cases p)
    case (Put x)
    then have "cnt s < cap" "qrun put get cnt cap ops (put x s) = Some (ys, t)"
      using Cons.prems by (auto split: if_splits)
    then show ?thesis using Cons.IH [of "put x s" ys] Cons.prems(1) Put
      by (simp add: put_inv put_items)
  next
    case Get
    then obtain zs where ne: "cnt s \<noteq> 0" and ys: "ys = fst (get s) # zs"
      and r: "qrun put get cnt cap ops (snd (get s)) = Some (zs, t)"
      using Cons.prems by (auto split: if_splits prod.splits)
    then show ?thesis using Cons.IH [OF get_inv r] Cons.prems(1) Get get_items [OF Cons.prems(1) ne]
      by simp
  qed
qed simp

lemma run_bounded: "inv s \<Longrightarrow> qrun put get cnt cap ops s = Some (ys, t) \<Longrightarrow> length (items t) \<le> cap"
  using run_inv bounded cnt_items by metis

text \<open>Putting \<open>xs\<close> where it fits, then taking as many out of an empty buffer, gives \<open>xs\<close> back.\<close>

lemma put_all:
  "inv s \<Longrightarrow> cnt s + length xs \<le> cap \<Longrightarrow> inv (fold put xs s) \<and> items (fold put xs s) = items s @ xs"
proof (induction xs arbitrary: s)
  case (Cons x xs)
  have "cnt (put x s) = Suc (cnt s)"
    using Cons.prems by (simp add: cnt_items put_inv put_items)
  then show ?case using Cons.IH [of "put x s"] Cons.prems by (simp add: put_inv put_items)
qed simp

end

section \<open>Wrapping indices\<close>

text \<open>
  The arrangement of \<^verbatim>\<open>pipe.c\<close> and \<^verbatim>\<open>console.c\<close>: unsigned 32-bit counters of what was read and
  written, reduced modulo the size of the array at each access. It is right across the wrap-around
  of the counters because the size divides \<open>2 ^ 32\<close>.
\<close>

definition ring_items :: "nat \<Rightarrow> (nat \<Rightarrow> 'a) \<Rightarrow> u32 \<Rightarrow> u32 \<Rightarrow> 'a list" where
  "ring_items n d r w = map (\<lambda>k. d (unat (r + of_nat k) mod n)) [0..<unat (w - r)]"

lemma length_ring_items [simp]: "length (ring_items n d r w) = unat (w - r)"
  by (simp add: ring_items_def)

lemma mod_ring_neq:
  assumes "n dvd 4294967296" "j < k" "k - j < n" "k \<le> 4294967295"
  shows "unat ((r::u32) + of_nat j) mod n \<noteq> unat (r + of_nat k) mod n"
proof
  assume eq: "unat (r + of_nat j) mod n = unat (r + of_nat k) mod n"
  have m: "unat (r + of_nat i) mod n = (unat r + i) mod n" if "i \<le> 4294967295" for i
    using that assms(1) by (simp add: unat_word_ariths unat_of_nat32 mod_mod_cancel)
  have "(unat r + j) mod n = (unat r + k) mod n"
    using eq m [of j] m [of k] assms(2,4) by simp
  then have "n dvd k - j"
    using assms(2) by (metis add_diff_cancel_left mod_eq_dvd_iff_nat nat_add_left_cancel_le less_imp_le)
  then show False using assms(2,3) by (auto dest: dvd_imp_le)
qed

lemma ring_put:
  assumes "n dvd 4294967296" "unat (w - r) < n" "n < 4294967296"
  shows "ring_items n (d(unat w mod n := x)) r (w + 1) = ring_items n d r w @ [x]"
proof -
  let ?c = "unat (w - r)"
  have c: "unat (w + 1 - r) = Suc ?c"
  proof -
    have "w + 1 - r = (w - r) + 1" by simp
    moreover have "unat (w - r) + 1 < 4294967296" using assms by simp
    ultimately show ?thesis by (subst \<open>w + 1 - r = (w - r) + 1\<close>) (simp add: unat_word_ariths(1))
  qed
  have w: "r + of_nat ?c = w" by simp
  have "unat (r + of_nat k) mod n \<noteq> unat w mod n" if "k < ?c" for k
    using mod_ring_neq [of n k ?c r] that assms by simp
  then show ?thesis unfolding ring_items_def c by (simp add: w cong: map_cong)
qed

lemma ring_get:
  assumes "r \<noteq> w"
  shows "ring_items n d r w = d (unat r mod n) # ring_items n d (r + 1) w"
proof -
  have "w - r \<noteq> 0" using assms by auto
  then have c: "unat (w - r) = Suc (unat (w - (r + 1)))"
  proof -
    have "unat (w - r - 1) = unat (w - r) - 1" using \<open>w - r \<noteq> 0\<close> by (rule unat_minus_one)
    moreover have "0 < unat (w - r)" using \<open>w - r \<noteq> 0\<close> by (simp add: unat_gt_0)
    ultimately show ?thesis by (simp add: diff_diff_eq)
  qed
  have up: "[0..<Suc m] = 0 # map Suc [0..<m]" for m by (simp add: map_Suc_upt upt_conv_Cons del: upt_Suc)
  show ?thesis unfolding ring_items_def c up by (simp add: comp_def add.assoc)
qed

end
