(* ===== verification/Pipe.thy ===== *)
theory Pipe
  imports Fs Fifo
begin

text \<open>
  Pipes, \<^verbatim>\<open>src/xv6/pipe.c\<close> (\<^verbatim>\<open>pipealloc\<close> is in the theory File, with the functions it calls),
  and the record of open files of \<^verbatim>\<open>src/xv6/file.h\<close>. A \<^verbatim>\<open>struct pipe\<close> fills a page of
  \<^verbatim>\<open>kalloc\<close>; \<open>pipes\<close> maps the address of the page to the structure in it. A write and a read that
  must wait end with \<open>Switch\<close>, and \<open>pipewrite_resume\<close>, \<open>piperead_resume\<close> go on from there.
\<close>

section \<open>State\<close>

definition PIPESIZE :: nat where "PIPESIZE = 512"

record pipe =
  p_data :: "nat \<Rightarrow> u8"
  p_nread :: u32
  p_nwrite :: u32
  p_readopen :: bool
  p_writeopen :: bool

datatype fdtype = FD_NONE | FD_PIPE | FD_INODE

record file_t =
  f_type :: fdtype
  f_ref :: int
  f_readable :: bool
  f_writable :: bool
  f_pipe :: u32
  f_ip :: "nat option"
  f_off :: u32

record fstate = cstate +
  pipes :: "u32 \<Rightarrow> pipe"
  ftable :: "nat \<Rightarrow> file_t"

definition kmod_pipe :: "u32 \<Rightarrow> (pipe \<Rightarrow> pipe) \<Rightarrow> ('z fstate_scheme, unit) kern" where
  "kmod_pipe p f = kmod (\<lambda>s. s\<lparr>pipes := (pipes s)(p := f (pipes s p))\<rparr>)"

section \<open>Operations\<close>

definition pipe_full :: "pipe \<Rightarrow> bool" where
  "pipe_full p \<longleftrightarrow> p_nwrite p = p_nread p + of_nat PIPESIZE"

definition pipe_put :: "u8 \<Rightarrow> pipe \<Rightarrow> pipe" where
  "pipe_put c p = p\<lparr>p_data := (p_data p)(unat (p_nwrite p) mod PIPESIZE := c), p_nwrite := p_nwrite p + 1\<rparr>"

definition pipe_get :: "pipe \<Rightarrow> u8 \<times> pipe" where
  "pipe_get p = (p_data p (unat (p_nread p) mod PIPESIZE), p\<lparr>p_nread := p_nread p + 1\<rparr>)"

definition mykilled :: "('z pstate_t_scheme, bool) kern" where
  "mykilled = kbind myproc (\<lambda>mp. case mp of None \<Rightarrow> kundef | Some p \<Rightarrow> kget (\<lambda>s. killed (ptable s p)))"

definition pipeclose :: "u32 \<Rightarrow> bool \<Rightarrow> ('z fstate_scheme, unit) kern" where
  "pipeclose p writable =
     kseq (acquire (PipeLk p))
     (kseq (if writable
        then kseq (kmod_pipe p (\<lambda>x. x\<lparr>p_writeopen := False\<rparr>)) (wakeup (Some (ChanPipeR p)))
        else kseq (kmod_pipe p (\<lambda>x. x\<lparr>p_readopen := False\<rparr>)) (wakeup (Some (ChanPipeW p))))
     (kbind (kget (\<lambda>s. pipes s p)) (\<lambda>x.
      if \<not> p_readopen x \<and> \<not> p_writeopen x then kseq (release (PipeLk p)) (kfree p)
      else release (PipeLk p))))"

text \<open>The loop of \<open>pipewrite\<close>, with \<open>n\<close> the length asked for and the bytes still to write.\<close>

fun pipewrite_loop :: "u32 \<Rightarrow> nat \<Rightarrow> bytes \<Rightarrow> ('z fstate_scheme, int) kern" where
  "pipewrite_loop p n [] =
     kseq (wakeup (Some (ChanPipeR p))) (kseq (release (PipeLk p)) (kret (int n)))"
| "pipewrite_loop p n (c # cs) =
     kbind (kget (\<lambda>s. pipes s p)) (\<lambda>x.
     if pipe_full x then
       kbind (if \<not> p_readopen x then kret True else mykilled) (\<lambda>stop.
       if stop then kseq (release (PipeLk p)) (kret (- 1))
       else kseq (wakeup (Some (ChanPipeR p)))
            (kseq (sleep_on (Some (ChanPipeW p)) (Some (PipeLk p))) khang))
     else kseq (kmod_pipe p (pipe_put c)) (pipewrite_loop p n cs))"

definition pipewrite :: "u32 \<Rightarrow> bytes \<Rightarrow> ('z fstate_scheme, int) kern" where
  "pipewrite p bs = kseq (acquire (PipeLk p)) (pipewrite_loop p (length bs) bs)"

definition pipewrite_resume :: "nat \<Rightarrow> u32 \<Rightarrow> nat \<Rightarrow> bytes \<Rightarrow> ('z fstate_scheme, int) kern" where
  "pipewrite_resume q p n bs = kseq (sleep_return q (PipeLk p)) (pipewrite_loop p n bs)"

fun piperead_copy :: "u32 \<Rightarrow> nat \<Rightarrow> ('z fstate_scheme, bytes) kern" where
  "piperead_copy p 0 = kret []"
| "piperead_copy p (Suc n) =
     kbind (kget (\<lambda>s. pipes s p)) (\<lambda>x.
     if p_nread x = p_nwrite x then kret []
     else kseq (kmod_pipe p (\<lambda>x. snd (pipe_get x)))
          (kbind (piperead_copy p n) (\<lambda>cs. kret (fst (pipe_get x) # cs))))"

definition piperead_try :: "u32 \<Rightarrow> nat \<Rightarrow> ('z fstate_scheme, int \<times> bytes) kern" where
  "piperead_try p n =
     kbind (kget (\<lambda>s. pipes s p)) (\<lambda>x.
     if p_nread x = p_nwrite x \<and> p_writeopen x then
       kbind mykilled (\<lambda>k.
       if k then kseq (release (PipeLk p)) (kret (- 1, []))
       else kseq (sleep_on (Some (ChanPipeR p)) (Some (PipeLk p))) khang)
     else kbind (piperead_copy p n) (\<lambda>bs.
          kseq (wakeup (Some (ChanPipeW p)))
          (kseq (release (PipeLk p)) (kret (int (length bs), bs)))))"

definition piperead :: "u32 \<Rightarrow> nat \<Rightarrow> ('z fstate_scheme, int \<times> bytes) kern" where
  "piperead p n = kseq (acquire (PipeLk p)) (piperead_try p n)"

definition piperead_resume :: "nat \<Rightarrow> u32 \<Rightarrow> nat \<Rightarrow> ('z fstate_scheme, int \<times> bytes) kern" where
  "piperead_resume q p n = kseq (sleep_return q (PipeLk p)) (piperead_try p n)"

section \<open>The pipe as a queue\<close>

definition pipe_count :: "pipe \<Rightarrow> nat" where
  "pipe_count p = unat (p_nwrite p - p_nread p)"

definition pipe_items :: "pipe \<Rightarrow> bytes" where
  "pipe_items p = ring_items PIPESIZE (p_data p) (p_nread p) (p_nwrite p)"

definition pipe_ok :: "pipe \<Rightarrow> bool" where
  "pipe_ok p \<longleftrightarrow> pipe_count p \<le> PIPESIZE"

lemma pipe_count_items: "pipe_count p = length (pipe_items p)"
  by (simp add: pipe_count_def pipe_items_def)

lemma pipe_full_iff: "pipe_full p \<longleftrightarrow> pipe_count p = PIPESIZE"
proof -
  have "pipe_full p \<longleftrightarrow> p_nwrite p - p_nread p = 512"
    by (auto simp: pipe_full_def PIPESIZE_def diff_eq_eq add.commute)
  then show ?thesis by (auto simp: pipe_count_def PIPESIZE_def word_unat_eq_iff)
qed

lemma pipe_empty_iff: "p_nread p = p_nwrite p \<longleftrightarrow> pipe_count p = 0"
  by (auto simp: pipe_count_def word_unat_eq_iff [symmetric] unat_eq_0)

lemma pipe_put_items: "pipe_count p < PIPESIZE \<Longrightarrow> pipe_items (pipe_put c p) = pipe_items p @ [c]"
  using ring_put [of PIPESIZE "p_nwrite p" "p_nread p" "p_data p" c]
  by (simp add: pipe_items_def pipe_put_def pipe_count_def PIPESIZE_def)

lemma pipe_get_items: "pipe_count p \<noteq> 0 \<Longrightarrow> pipe_items p = fst (pipe_get p) # pipe_items (snd (pipe_get p))"
  using ring_get [of "p_nread p" "p_nwrite p" PIPESIZE "p_data p"] pipe_empty_iff [of p]
  by (simp add: pipe_items_def pipe_get_def)

interpretation pipeq: fifo pipe_put pipe_get pipe_count pipe_items PIPESIZE pipe_ok
proof unfold_locales
  fix p :: pipe and c
  assume ok: "pipe_ok p"
  show "pipe_count p = length (pipe_items p)" by (rule pipe_count_items)
  show "pipe_count p \<le> PIPESIZE" using ok by (simp add: pipe_ok_def)
  show "pipe_items (pipe_put c p) = pipe_items p @ [c]" if "pipe_count p < PIPESIZE"
    by (rule pipe_put_items [OF that])
  show "pipe_ok (pipe_put c p)" if "pipe_count p < PIPESIZE"
    using that pipe_put_items [OF that] pipe_count_items [of p] by (simp add: pipe_ok_def pipe_count_items)
  show "pipe_items p = fst (pipe_get p) # pipe_items (snd (pipe_get p))" if "pipe_count p \<noteq> 0"
    by (rule pipe_get_items [OF that])
  show "pipe_ok (snd (pipe_get p))" if "pipe_count p \<noteq> 0"
    using ok pipe_get_items [OF that] pipe_count_items [of p]
    by (simp add: pipe_ok_def pipe_count_items)
qed

section \<open>Reading and writing\<close>

lemma kmod_pipe_run [kexec]:
  "kmod_pipe p f s = Ret () (s\<lparr>pipes := (pipes s)(p := f (pipes s p))\<rparr>)"
  by (simp add: kmod_pipe_def kexec)

lemma pipe_count_put: "pipe_count x < PIPESIZE \<Longrightarrow> pipe_count (pipe_put c x) = Suc (pipe_count x)"
  using pipe_put_items [of x c] by (simp add: pipe_count_items)

text \<open>As long as there is room, the loop only appends.\<close>

lemma pipewrite_loop_room:
  assumes "pipe_count (pipes s p) + length bs \<le> PIPESIZE"
  shows "pipewrite_loop p n (bs @ cs) s
    = pipewrite_loop p n cs (s\<lparr>pipes := (pipes s)(p := fold pipe_put bs (pipes s p))\<rparr>)"
  using assms
proof (induction bs arbitrary: s)
  case (Cons c bs)
  let ?s = "s\<lparr>pipes := (pipes s)(p := pipe_put c (pipes s p))\<rparr>"
  have "pipewrite_loop p n ((c # bs) @ cs) s = pipewrite_loop p n (bs @ cs) ?s"
    using Cons.prems by (simp add: kexec pipe_full_iff)
  also have "\<dots> = pipewrite_loop p n cs (?s\<lparr>pipes := (pipes ?s)(p := fold pipe_put bs (pipes ?s p))\<rparr>)"
    by (rule Cons.IH) (use Cons.prems in \<open>simp add: pipe_count_put\<close>)
  finally show ?case by (simp add: fun_upd_def cong: if_cong)
qed simp

lemma pipewrite_fits:
  assumes "ready s" "pipe_count (pipes s p) + length bs \<le> PIPESIZE"
  shows "pipewrite p bs s = Ret (int (length bs)) (s\<lparr>
    ptable := wake_fun (Some (ChanPipeR p)) (ptable s), pipes := (pipes s)(p := fold pipe_put bs (pipes s p))\<rparr>)"
  using assms pipewrite_loop_room [of "s\<lparr>spin := sp_acq (PipeLk p) (spin s)\<rparr>" p bs "length bs" "[]"]
  by (simp add: pipewrite_def kexec)

definition pipe_room :: "pipe \<Rightarrow> nat" where
  "pipe_room x = PIPESIZE - pipe_count x"

text \<open>A write that does not fit fills the pipe; then it waits, or fails when nobody can read.\<close>

lemma pipewrite_overflow:
  assumes "ready s" "pipe_ok (pipes s p)" "pipe_room (pipes s p) < length bs"
  defines "x \<equiv> fold pipe_put (take (pipe_room (pipes s p)) bs) (pipes s p)"
  shows "pipewrite p bs s =
    (if \<not> p_readopen x \<or> killed (ptable s (curproc s))
     then Ret (- 1) (s\<lparr>pipes := (pipes s)(p := x)\<rparr>)
     else Switch (s\<lparr>spin := sp_acq PtableLk (spin s),
       ptable := asleep (curproc s) (Some (ChanPipeW p)) (wake_fun (Some (ChanPipeR p)) (ptable s)),
       pipes := (pipes s)(p := x)\<rparr>))"
proof -
  let ?k = "pipe_room (pipes s p)" and ?t = "s\<lparr>spin := sp_acq (PipeLk p) (spin s), pipes := (pipes s)(p := x)\<rparr>"
  obtain c cs where cs: "drop ?k bs = c # cs" using assms(3) by (cases "drop ?k bs") auto
  have k: "pipe_count (pipes s p) + ?k = PIPESIZE" using assms(2) by (simp add: pipe_room_def pipe_ok_def)
  have "pipe_items x = pipe_items (pipes s p) @ take ?k bs"
    unfolding x_def using pipeq.put_all [OF assms(2), of "take ?k bs"] k assms(3) by simp
  then have full: "pipe_full x" using k assms(3) by (simp add: pipe_full_iff pipe_count_items)
  have b: "bs = take ?k bs @ c # cs" using cs by (metis append_take_drop_id)
  have "pipewrite p bs s = pipewrite_loop p (length bs) (take ?k bs @ c # cs) (s\<lparr>spin := sp_acq (PipeLk p) (spin s)\<rparr>)"
    using assms(1) b by (simp add: pipewrite_def kexec)
  also have "\<dots> = pipewrite_loop p (length bs) (c # cs) ?t"
    using pipewrite_loop_room [of "s\<lparr>spin := sp_acq (PipeLk p) (spin s)\<rparr>" p "take ?k bs" "length bs" "c # cs"] k assms(3)
    by (simp add: x_def)
  finally show ?thesis
    using full assms(1) ready_cproc [OF assms(1)] ready_ncli [OF assms(1)]
    by (simp add: kexec mykilled_def calmD sleep_on_run [of "spin s"])
qed

lemma piperead_copy_run:
  assumes "pipe_ok (pipes s p)"
  shows "\<exists>x. piperead_copy p n s = Ret (take n (pipe_items (pipes s p))) (s\<lparr>pipes := (pipes s)(p := x)\<rparr>)
    \<and> pipe_ok x \<and> pipe_items x = drop n (pipe_items (pipes s p))
    \<and> p_writeopen x = p_writeopen (pipes s p) \<and> p_readopen x = p_readopen (pipes s p)"
  using assms
proof (induction n arbitrary: s)
  case 0
  then show ?case by (intro exI [of _ "pipes s p"]) (simp add: kexec)
next
  case (Suc n)
  show ?case
  proof (cases "pipe_count (pipes s p) = 0")
    case True
    then show ?thesis
      using Suc.prems by (intro exI [of _ "pipes s p"]) (simp add: kexec pipe_empty_iff pipe_count_items)
  next
    case False
    let ?g = "pipe_get (pipes s p)"
    let ?s = "s\<lparr>pipes := (pipes s)(p := snd ?g)\<rparr>"
    note it = pipe_get_items [OF False]
    have "pipe_ok (pipes ?s p)" using pipeq.get_inv [OF Suc.prems False] by simp
    from Suc.IH [OF this] obtain x where
      "piperead_copy p n ?s = Ret (take n (pipe_items (snd ?g))) (s\<lparr>pipes := (pipes s)(p := x)\<rparr>)"
      and x: "pipe_ok x" "pipe_items x = drop n (pipe_items (snd ?g))"
        "p_writeopen x = p_writeopen (snd ?g)" "p_readopen x = p_readopen (snd ?g)"
      by (elim exE conjE) (simp add: fun_upd_def cong: if_cong)
    then have r: "piperead_copy p (Suc n) s = Ret (fst ?g # take n (pipe_items (snd ?g))) (s\<lparr>pipes := (pipes s)(p := x)\<rparr>)"
      using False by (simp add: kexec pipe_empty_iff)
    show ?thesis
      by (intro exI [of _ x]) (use x it r in \<open>simp add: pipe_get_def fun_upd_def del: piperead_copy.simps\<close>)
  qed
qed

lemma piperead_run:
  assumes "ready s" "pipe_ok (pipes s p)" "pipe_items (pipes s p) \<noteq> [] \<or> \<not> p_writeopen (pipes s p)"
  shows "\<exists>x. piperead p n s = Ret (int (min n (length (pipe_items (pipes s p)))), take n (pipe_items (pipes s p)))
      (s\<lparr>ptable := wake_fun (Some (ChanPipeW p)) (ptable s), pipes := (pipes s)(p := x)\<rparr>)
    \<and> pipe_ok x \<and> pipe_items x = drop n (pipe_items (pipes s p))
    \<and> p_writeopen x = p_writeopen (pipes s p) \<and> p_readopen x = p_readopen (pipes s p)"
proof -
  let ?s = "s\<lparr>spin := sp_acq (PipeLk p) (spin s)\<rparr>"
  have "pipe_ok (pipes ?s p)" using assms(2) by simp
  from piperead_copy_run [OF this, of n] obtain x where
    r: "piperead_copy p n ?s = Ret (take n (pipe_items (pipes s p))) (?s\<lparr>pipes := (pipes s)(p := x)\<rparr>)"
    and x: "pipe_ok x" "pipe_items x = drop n (pipe_items (pipes s p))"
      "p_writeopen x = p_writeopen (pipes s p)" "p_readopen x = p_readopen (pipes s p)" by auto
  have ne: "\<not> (p_nread (pipes s p) = p_nwrite (pipes s p) \<and> p_writeopen (pipes s p))"
    using assms(3) pipe_empty_iff [of "pipes s p"] by (auto simp: pipe_count_items)
  have "piperead p n s = piperead_try p n ?s" using assms(1) by (simp add: piperead_def kexec)
  also have "\<dots> = Ret (int (min n (length (pipe_items (pipes s p)))), take n (pipe_items (pipes s p)))
      (s\<lparr>ptable := wake_fun (Some (ChanPipeW p)) (ptable s), pipes := (pipes s)(p := x)\<rparr>)"
    unfolding piperead_try_def kbind_run [of "kget h" for h] using ne r assms(1) by (auto simp: kexec min.commute)
  finally show ?thesis using x by blast
qed

lemma piperead_waits:
  assumes "ready s" "pipe_items (pipes s p) = []" "p_writeopen (pipes s p)"
  shows "piperead p n s =
    (if killed (ptable s (curproc s)) then Ret (- 1, []) s
     else Switch (s\<lparr>spin := sp_acq PtableLk (spin s),
       ptable := asleep (curproc s) (Some (ChanPipeR p)) (ptable s)\<rparr>))"
  using assms ready_cproc [OF assms(1)] ready_ncli [OF assms(1)] pipe_empty_iff [of "pipes s p"]
  by (simp add: piperead_def piperead_try_def kexec mykilled_def calmD sleep_on_run [of "spin s"]
      pipe_count_items)

end
