(* ===== verification/File.thy ===== *)
theory File
  imports Pipe
begin

text \<open>
  Open files, \<^verbatim>\<open>src/xv6/file.c\<close>, and \<^verbatim>\<open>pipealloc\<close> of \<^verbatim>\<open>src/xv6/pipe.c\<close>. A pointer to a
  \<^verbatim>\<open>struct file\<close> is its index in \<open>ftable\<close>. Reads return the bytes they deliver with the result,
  and writes take the bytes; the system calls move them from and to user memory.
\<close>

section \<open>Operations\<close>

definition NFILE :: nat where "NFILE = 100"

definition kmod_file :: "nat \<Rightarrow> (file_t \<Rightarrow> file_t) \<Rightarrow> ('z fstate_scheme, unit) kern" where
  "kmod_file f u = kmod (\<lambda>s. s\<lparr>ftable := (ftable s)(f := u (ftable s f))\<rparr>)"

definition fileinit :: "('z fstate_scheme, unit) kern" where
  "fileinit = initlock FtableLk"

definition filealloc :: "('z fstate_scheme, nat option) kern" where
  "filealloc =
     kseq (acquire FtableLk)
     (kbind (kget (\<lambda>s. find (\<lambda>f. f_ref (ftable s f) = 0) [0..<NFILE])) (\<lambda>r.
      case r of
        Some f \<Rightarrow> kseq (kmod_file f (\<lambda>x. x\<lparr>f_ref := 1\<rparr>)) (kseq (release FtableLk) (kret (Some f)))
      | None \<Rightarrow> kseq (release FtableLk) (kret None)))"

definition filedup :: "nat \<Rightarrow> ('z fstate_scheme, nat) kern" where
  "filedup f =
     kseq (acquire FtableLk)
     (kbind (kget (\<lambda>s. f_ref (ftable s f))) (\<lambda>r.
      kseq (panic_if (r < 1) ''filedup'')
      (kseq (kmod_file f (\<lambda>x. x\<lparr>f_ref := f_ref x + 1\<rparr>))
      (kseq (release FtableLk) (kret f)))))"

definition fileclose :: "nat \<Rightarrow> ('z fstate_scheme, unit) kern" where
  "fileclose f =
     kseq (acquire FtableLk)
     (kbind (kget (\<lambda>s. f_ref (ftable s f))) (\<lambda>r.
      kseq (panic_if (r < 1) ''fileclose'')
      (kseq (kmod_file f (\<lambda>x. x\<lparr>f_ref := f_ref x - 1\<rparr>))
      (if r - 1 > 0 then release FtableLk
       else kbind (kget (\<lambda>s. ftable s f)) (\<lambda>ff.
            kseq (kmod_file f (\<lambda>x. x\<lparr>f_ref := 0, f_type := FD_NONE\<rparr>))
            (kseq (release FtableLk)
            (if f_type ff = FD_PIPE then pipeclose (f_pipe ff) (f_writable ff)
             else if f_type ff = FD_INODE then
               kseq begin_op
               (kseq (case f_ip ff of None \<Rightarrow> kundef | Some ip \<Rightarrow> iput ip)
                end_op)
             else kret ())))))))"

text \<open>The structure \<open>*st\<close> is filled only when the result is \<open>0\<close>.\<close>

definition filestat :: "nat \<Rightarrow> ('z fstate_scheme, stat_t option) kern" where
  "filestat f =
     kbind (kget (\<lambda>s. ftable s f)) (\<lambda>x.
     if f_type x = FD_INODE then
       kseq (ilock (f_ip x))
       (kbind (stati (the (f_ip x))) (\<lambda>st.
        kseq (iunlock (f_ip x)) (kret (Some st))))
     else kret None)"

definition fileread :: "nat \<Rightarrow> nat \<Rightarrow> ('z fstate_scheme, int \<times> bytes) kern" where
  "fileread f n =
     kbind (kget (\<lambda>s. ftable s f)) (\<lambda>x.
     if \<not> f_readable x then kret (- 1, [])
     else if f_type x = FD_PIPE then piperead (f_pipe x) n
     else if f_type x = FD_INODE then
       kseq (ilock (f_ip x))
       (kbind (kget (\<lambda>s. f_off (ftable s f))) (\<lambda>off.
        kbind (readi (the (f_ip x)) off (of_nat n)) (\<lambda>(r, bs).
        kseq (kwhen (r > 0) (kmod_file f (\<lambda>y. y\<lparr>f_off := f_off y + of_int r\<rparr>)))
        (kseq (iunlock (f_ip x)) (kret (r, bs))))))
     else kpanic ''fileread'')"

definition max_write :: nat where
  "max_write = ((MAXOPBLOCKS - 1 - 1 - 2) div 2) * 512"

text \<open>The writing loop: \<open>rest\<close> is what \<open>addr + i\<close> still points to.\<close>

function filewrite_loop :: "nat \<Rightarrow> bytes \<Rightarrow> ('z fstate_scheme, bool) kern" where
  "filewrite_loop f rest =
     (if rest = [] then kret True
      else let n1 = min (length rest) max_write in
        kseq begin_op
        (kbind (kget (\<lambda>s. f_ip (ftable s f))) (\<lambda>ip.
         kseq (ilock ip)
         (kbind (kget (\<lambda>s. f_off (ftable s f))) (\<lambda>off.
          kbind (writei (the ip) (take n1 rest) off) (\<lambda>r.
          kseq (kwhen (r > 0) (kmod_file f (\<lambda>y. y\<lparr>f_off := f_off y + of_int r\<rparr>)))
          (kseq (iunlock ip)
          (kseq end_op
          (if r < 0 then kret False
           else kseq (panic_if (r \<noteq> int n1) ''short filewrite'')
                (filewrite_loop f (drop n1 rest)))))))))))"
  by pat_completeness auto
termination
  by (relation "measure (\<lambda>(f, rest). length rest)") (auto simp: max_write_def MAXOPBLOCKS_def)

declare filewrite_loop.simps [simp del]

definition filewrite :: "nat \<Rightarrow> bytes \<Rightarrow> ('z fstate_scheme, int) kern" where
  "filewrite f bs =
     kbind (kget (\<lambda>s. ftable s f)) (\<lambda>x.
     if \<not> f_writable x then kret (- 1)
     else if f_type x = FD_PIPE then pipewrite (f_pipe x) bs
     else if f_type x = FD_INODE then
       kbind (filewrite_loop f bs) (\<lambda>all. kret (if all then int (length bs) else - 1))
     else kpanic ''filewrite'')"

definition pipealloc_bad :: "nat option \<Rightarrow> nat option \<Rightarrow> ('z fstate_scheme, (nat \<times> nat) option) kern" where
  "pipealloc_bad f0 f1 =
     kseq (case f0 of None \<Rightarrow> kret () | Some f \<Rightarrow> fileclose f)
     (kseq (case f1 of None \<Rightarrow> kret () | Some f \<Rightarrow> fileclose f)
      (kret None))"

definition pipealloc :: "('z fstate_scheme, (nat \<times> nat) option) kern" where
  "pipealloc =
     kbind filealloc (\<lambda>r0. case r0 of
       None \<Rightarrow> pipealloc_bad None None
     | Some f0 \<Rightarrow>
         kbind filealloc (\<lambda>r1. case r1 of
           None \<Rightarrow> pipealloc_bad (Some f0) None
         | Some f1 \<Rightarrow>
             kbind kalloc (\<lambda>p.
             if p = 0 then pipealloc_bad (Some f0) (Some f1)
             else
               kseq (kmod_pipe p (\<lambda>x. x\<lparr>p_readopen := True, p_writeopen := True, p_nwrite := 0, p_nread := 0\<rparr>))
               (kseq (initlock (PipeLk p))
               (kseq (kmod_file f0 (\<lambda>x. x\<lparr>f_type := FD_PIPE, f_readable := True, f_writable := False, f_pipe := p\<rparr>))
               (kseq (kmod_file f1 (\<lambda>x. x\<lparr>f_type := FD_PIPE, f_readable := False, f_writable := True, f_pipe := p\<rparr>))
                (kret (Some (f0, f1)))))))))"

end
