(* ===== verification/Vm.thy ===== *)
theory Vm
  imports Console
begin

text \<open>
  Page tables, \<^verbatim>\<open>src/xv6/vm.c\<close> with the macros of \<^verbatim>\<open>src/xv6/mmu.h\<close> and
  \<^verbatim>\<open>src/xv6/memlayout.h\<close> (\<^verbatim>\<open>switchuvm\<close> and \<^verbatim>\<open>switchkvm\<close> are in Proc_Table,
  \<^verbatim>\<open>loaduvm\<close> is in Exec). Page directories and page tables are words of the physical memory
  \<open>pmem\<close>, as in the code; a pointer to an entry is its address, \<open>0\<close> the null pointer.
  \<open>translate\<close> is the page walk of the hardware.
\<close>

section \<open>Addresses and entries\<close>

definition PDX :: "u32 \<Rightarrow> u32" where "PDX va = drop_bit 22 va AND 0x3FF"
definition PTX :: "u32 \<Rightarrow> u32" where "PTX va = drop_bit 12 va AND 0x3FF"

definition PGADDR :: "u32 \<Rightarrow> u32 \<Rightarrow> u32 \<Rightarrow> u32" where
  "PGADDR d t o' = push_bit 22 d OR push_bit 12 t OR o'"

definition PTE_P :: u32 where "PTE_P = 1"
definition PTE_W :: u32 where "PTE_W = 2"
definition PTE_U :: u32 where "PTE_U = 4"
definition PTE_ADDR :: "u32 \<Rightarrow> u32" where "PTE_ADDR pte = pte AND NOT 0xFFF"
definition PTE_FLAGS :: "u32 \<Rightarrow> u32" where "PTE_FLAGS pte = pte AND 0xFFF"
definition NPDENTRIES :: nat where "NPDENTRIES = 1024"
definition NPTENTRIES :: nat where "NPTENTRIES = 1024"
definition EXTMEM :: u32 where "EXTMEM = 0x100000"
definition DEVSPACE :: u32 where "DEVSPACE = 0xFE000000"
definition KERNLINK :: u32 where "KERNLINK = KERNBASE + EXTMEM"

definition present :: "u32 \<Rightarrow> bool" where "present pte \<longleftrightarrow> pte AND PTE_P \<noteq> 0"

definition kload32 :: "u32 \<Rightarrow> ('z kmstate_scheme, u32) kern" where
  "kload32 a = kget (\<lambda>s. load32 (pmem s) a)"

definition kstore32 :: "u32 \<Rightarrow> u32 \<Rightarrow> ('z kmstate_scheme, unit) kern" where
  "kstore32 a v = kmod_mem (\<lambda>m. store32 m a v)"

section \<open>Operations\<close>

definition walkpgdir :: "u32 \<Rightarrow> u32 \<Rightarrow> bool \<Rightarrow> ('z kmstate_scheme, u32) kern" where
  "walkpgdir pgd va alloc =
     (let pde = pgd + 4 * PDX va in
      kbind (kload32 pde) (\<lambda>e.
      if present e then kret (P2V (PTE_ADDR e) + 4 * PTX va)
      else if \<not> alloc then kret 0
      else kbind kalloc (\<lambda>pgtab.
           if pgtab = 0 then kret 0
           else kseq (kmod_mem (\<lambda>m. memset m pgtab 0 PGSIZE))
                (kseq (kstore32 pde (V2P pgtab OR PTE_P OR PTE_W OR PTE_U))
                 (kret (pgtab + 4 * PTX va))))))"

text \<open>
  The endless loop of \<open>mappages\<close>; the first argument bounds the rounds. The range has
  \<open>(lst - a) / PGSIZE + 1\<close> pages, so \<open>mappages\<close> gives the loop exactly that many.
\<close>

fun mappages_loop :: "nat \<Rightarrow> u32 \<Rightarrow> u32 \<Rightarrow> u32 \<Rightarrow> u32 \<Rightarrow> u32 \<Rightarrow> ('z kmstate_scheme, int) kern" where
  "mappages_loop 0 pgd a lst pa perm = khang"
| "mappages_loop (Suc k) pgd a lst pa perm =
     kbind (walkpgdir pgd a True) (\<lambda>pte.
     if pte = 0 then kret (- 1)
     else kbind (kload32 pte) (\<lambda>e.
          kseq (panic_if (present e) ''remap'')
          (kseq (kstore32 pte (pa OR perm OR PTE_P))
          (if a = lst then kret 0
           else mappages_loop k pgd (a + PGSIZE) lst (pa + PGSIZE) perm))))"

definition mappages :: "u32 \<Rightarrow> u32 \<Rightarrow> u32 \<Rightarrow> u32 \<Rightarrow> u32 \<Rightarrow> ('z kmstate_scheme, int) kern" where
  "mappages pgd va n pa perm =
     (let a = PGROUNDDOWN va; lst = PGROUNDDOWN (va + n - 1) in
      mappages_loop (unat (lst - a) div 4096 + 1) pgd a lst pa perm)"

text \<open>
  \<open>deallocuvm\<close>: each round moves \<open>a\<close> up by at least a page, so there are at most
  \<open>oldsz / PGSIZE + 2\<close> tests unless \<open>a\<close> wraps around.
\<close>

fun deallocuvm_loop :: "nat \<Rightarrow> u32 \<Rightarrow> u32 \<Rightarrow> u32 \<Rightarrow> ('z kmstate_scheme, unit) kern" where
  "deallocuvm_loop 0 pgd a oldsz = khang"
| "deallocuvm_loop (Suc k) pgd a oldsz =
     (if \<not> a < oldsz then kret ()
      else kbind (walkpgdir pgd a False) (\<lambda>pte.
           if pte = 0 then deallocuvm_loop k pgd (PGADDR (PDX a + 1) 0 0 - PGSIZE + PGSIZE) oldsz
           else kbind (kload32 pte) (\<lambda>e.
                kseq (kwhen (present e)
                  (let pa = PTE_ADDR e in
                   kseq (panic_if (pa = 0) ''kfree'')
                   (kseq (kfree (P2V pa))
                    (kstore32 pte 0))))
                (deallocuvm_loop k pgd (a + PGSIZE) oldsz))))"

definition deallocuvm :: "u32 \<Rightarrow> u32 \<Rightarrow> u32 \<Rightarrow> ('z kmstate_scheme, u32) kern" where
  "deallocuvm pgd oldsz newsz =
     (if newsz \<ge> oldsz then kret oldsz
      else kseq (deallocuvm_loop (unat oldsz div 4096 + 2) pgd (PGROUNDUP newsz) oldsz) (kret newsz))"

definition freevm :: "u32 \<Rightarrow> ('z kmstate_scheme, unit) kern" where
  "freevm pgd =
     kseq (panic_if (pgd = 0) ''freevm: no pgdir'')
     (kseq (deallocuvm pgd KERNBASE 0)
     (kseq (kfor [0..<NPDENTRIES] (\<lambda>i.
        kbind (kload32 (pgd + 4 * of_nat i)) (\<lambda>e.
        kwhen (present e) (kfree (P2V (PTE_ADDR e))))))
      (kfree pgd)))"

definition kmap :: "u32 \<Rightarrow> (u32 \<times> u32 \<times> u32 \<times> u32) list" where
  "kmap dat =
     [(KERNBASE, 0, EXTMEM, PTE_W),
      (KERNLINK, V2P KERNLINK, V2P dat, 0),
      (dat, V2P dat, PHYSTOP, PTE_W),
      (DEVSPACE, DEVSPACE, 0, PTE_W)]"

fun setupkvm_loop :: "u32 \<Rightarrow> (u32 \<times> u32 \<times> u32 \<times> u32) list \<Rightarrow> ('z kmstate_scheme, u32) kern" where
  "setupkvm_loop pgd [] = kret pgd"
| "setupkvm_loop pgd ((virt, phys_start, phys_end, perm) # ks) =
     kbind (mappages pgd virt (phys_end - phys_start) phys_start perm) (\<lambda>r.
     if r < 0 then kseq (freevm pgd) (kret 0) else setupkvm_loop pgd ks)"

definition setupkvm :: "('z kmstate_scheme, u32) kern" where
  "setupkvm =
     kbind kalloc (\<lambda>pgd.
     if pgd = 0 then kret 0
     else kseq (kmod_mem (\<lambda>m. memset m pgd 0 PGSIZE))
          (kseq (panic_if (P2V PHYSTOP > DEVSPACE) ''PHYSTOP too high'')
          (kbind (kget kdata) (\<lambda>dat. setupkvm_loop pgd (kmap dat)))))"

definition kvmalloc :: "('z kmstate_scheme, unit) kern" where
  "kvmalloc =
     kbind setupkvm (\<lambda>pgd.
     kseq (kmod (\<lambda>s. s\<lparr>kpgdir := pgd\<rparr>)) switchkvm)"

text \<open>\<open>memmove\<close> from \<open>init\<close>, memory of the kernel image given by its bytes.\<close>

definition put_bytes :: "u32 \<Rightarrow> bytes \<Rightarrow> mem \<Rightarrow> mem" where
  "put_bytes a bs m = (\<lambda>x. if unat (x - a) < length bs then bs ! unat (x - a) else m x)"

definition inituvm :: "u32 \<Rightarrow> bytes \<Rightarrow> ('z kmstate_scheme, unit) kern" where
  "inituvm pgd init =
     kseq (panic_if (length init \<ge> 4096) ''inituvm: more than a page'')
     (kbind kalloc (\<lambda>mem.
      kseq (kmod_mem (\<lambda>m. memset m mem 0 PGSIZE))
      (kbind (mappages pgd 0 PGSIZE (V2P mem) (PTE_W OR PTE_U)) (\<lambda>_.
       kmod_mem (put_bytes mem init)))))"

fun allocuvm_loop :: "nat \<Rightarrow> u32 \<Rightarrow> u32 \<Rightarrow> u32 \<Rightarrow> u32 \<Rightarrow> ('z cstate_scheme, u32) kern" where
  "allocuvm_loop 0 pgd a oldsz newsz = khang"
| "allocuvm_loop (Suc k) pgd a oldsz newsz =
     (if \<not> a < newsz then kret newsz
      else kbind kalloc (\<lambda>mem.
           if mem = 0 then
             kseq (cprintf (msg ''allocuvm out of memory\<newline>'') [])
             (kseq (deallocuvm pgd newsz oldsz) (kret 0))
           else
             kseq (kmod_mem (\<lambda>m. memset m mem 0 PGSIZE))
             (kbind (mappages pgd a PGSIZE (V2P mem) (PTE_W OR PTE_U)) (\<lambda>r.
              if r < 0 then
                kseq (cprintf (msg ''allocuvm out of memory (2)\<newline>'') [])
                (kseq (deallocuvm pgd newsz oldsz)
                (kseq (kfree mem) (kret 0)))
              else allocuvm_loop k pgd (a + PGSIZE) oldsz newsz))))"

definition allocuvm :: "u32 \<Rightarrow> u32 \<Rightarrow> u32 \<Rightarrow> ('z cstate_scheme, u32) kern" where
  "allocuvm pgd oldsz newsz =
     (if newsz \<ge> KERNBASE then kret 0
      else if newsz < oldsz then kret oldsz
      else allocuvm_loop (unat newsz div 4096 + 2) pgd (PGROUNDUP oldsz) oldsz newsz)"

definition clearpteu :: "u32 \<Rightarrow> u32 \<Rightarrow> ('z kmstate_scheme, unit) kern" where
  "clearpteu pgd uva =
     kbind (walkpgdir pgd uva False) (\<lambda>pte.
     kseq (panic_if (pte = 0) ''clearpteu'')
     (kbind (kload32 pte) (\<lambda>e. kstore32 pte (e AND NOT PTE_U))))"

fun copyuvm_loop :: "nat \<Rightarrow> u32 \<Rightarrow> u32 \<Rightarrow> u32 \<Rightarrow> u32 \<Rightarrow> ('z kmstate_scheme, u32) kern" where
  "copyuvm_loop 0 pgd d i n = khang"
| "copyuvm_loop (Suc k) pgd d i n =
     (if \<not> i < n then kret d
      else kbind (walkpgdir pgd i False) (\<lambda>pte.
           kseq (panic_if (pte = 0) ''copyuvm: pte should exist'')
           (kbind (kload32 pte) (\<lambda>e.
            kseq (panic_if (\<not> present e) ''copyuvm: page not present'')
            (kbind kalloc (\<lambda>mem.
             if mem = 0 then kseq (freevm d) (kret 0)
             else
               kseq (kmod_mem (\<lambda>m. memmove m mem (P2V (PTE_ADDR e)) PGSIZE))
               (kbind (mappages d i PGSIZE (V2P mem) (PTE_FLAGS e)) (\<lambda>r.
                if r < 0 then kseq (kfree mem) (kseq (freevm d) (kret 0))
                else copyuvm_loop k pgd d (i + PGSIZE) n))))))))"

definition copyuvm :: "u32 \<Rightarrow> u32 \<Rightarrow> ('z kmstate_scheme, u32) kern" where
  "copyuvm pgd n =
     kbind setupkvm (\<lambda>d.
     if d = 0 then kret 0 else copyuvm_loop (unat n div 4096 + 2) pgd d 0 n)"

text \<open>\<open>uva2ka\<close> reads through the result of \<open>walkpgdir\<close> without a test for null.\<close>

definition uva2ka :: "u32 \<Rightarrow> u32 \<Rightarrow> ('z kmstate_scheme, u32) kern" where
  "uva2ka pgd uva =
     kbind (walkpgdir pgd uva False) (\<lambda>pte.
     if pte = 0 then kundef
     else kbind (kload32 pte) (\<lambda>e.
          if \<not> present e then kret 0
          else if e AND PTE_U = 0 then kret 0
          else kret (P2V (PTE_ADDR e))))"

function copyout :: "u32 \<Rightarrow> u32 \<Rightarrow> bytes \<Rightarrow> ('z kmstate_scheme, int) kern" where
  "copyout pgd va buf =
     (if buf = [] then kret 0
      else let va0 = PGROUNDDOWN va in
        kbind (uva2ka pgd va0) (\<lambda>pa0.
        if pa0 = 0 then kret (- 1)
        else let n = min (4096 - unat (va - va0)) (length buf) in
          if n = 0 then khang
          else kseq (kmod_mem (put_bytes (pa0 + (va - va0)) (take n buf)))
               (copyout pgd (va0 + PGSIZE) (drop n buf))))"
  by pat_completeness auto
termination
  by (relation "measure (\<lambda>(pgd, va, buf). length buf)") auto

declare copyout.simps [simp del]

end
