(* ===== verification/Proc.thy ===== *)
theory Proc
  imports File Vm
begin

text \<open>
  Creating, growing and ending processes: the rest of \<^verbatim>\<open>src/xv6/proc.c\<close>. A new process has its
  trap frame in the field \<open>tf\<close>; the kernel context that \<^verbatim>\<open>allocproc\<close> builds on its stack, which makes
  the first switch to it start in \<open>forkret\<close>, belongs to \<^verbatim>\<open>swtch\<close> and is not represented.
  \<open>pname\<close> is the string in \<^verbatim>\<open>name\<close>, up to its NUL.
\<close>

section \<open>State\<close>

record sstate = fstate +
  ticks :: u32
  trace :: int
  fork_first :: bool
  kbd_shift :: u32

definition SEG_UCODE :: u16 where "SEG_UCODE = 3"
definition SEG_UDATA :: u16 where "SEG_UDATA = 4"
definition DPL_USER :: u16 where "DPL_USER = 3"
definition FL_IF :: u32 where "FL_IF = 0x200"

definition zero_tf :: trapframe where
  "zero_tf = \<lparr>tf_edi = 0, tf_esi = 0, tf_ebp = 0, tf_oesp = 0, tf_ebx = 0, tf_edx = 0, tf_ecx = 0,
     tf_eax = 0, tf_gs = 0, tf_fs = 0, tf_es = 0, tf_ds = 0, tf_trapno = 0, tf_err = 0, tf_eip = 0,
     tf_cs = 0, tf_eflags = 0, tf_esp = 0, tf_ss = 0\<rparr>"

text \<open>\<open>safestrcpy(p->name, s, 16)\<close>.\<close>

definition set_name :: "bytes \<Rightarrow> proc \<Rightarrow> proc" where
  "set_name t p = p\<lparr>pname := take 15 (cstr t)\<rparr>"

section \<open>Creation\<close>

definition allocproc :: "('z kmstate_scheme, nat option) kern" where
  "allocproc =
     kseq (acquire PtableLk)
     (kbind (kget (\<lambda>s. find (\<lambda>i. pstate (ptable s i) = UNUSED) [0..<NPROC])) (\<lambda>r. case r of
        None \<Rightarrow> kseq (release PtableLk) (kret None)
      | Some p \<Rightarrow>
          kseq (kmod_proc p (\<lambda>x. x\<lparr>pstate := EMBRYO\<rparr>))
          (kbind (kget nextpid) (\<lambda>n.
           kseq (kmod_proc p (\<lambda>x. x\<lparr>pid := n\<rparr>))
           (kseq (kmod (\<lambda>s. s\<lparr>nextpid := n + 1\<rparr>))
           (kseq (release PtableLk)
           (kbind kalloc (\<lambda>st.
            kseq (kmod_proc p (\<lambda>x. x\<lparr>kstack := st\<rparr>))
            (if st = 0 then kseq (kmod_proc p (\<lambda>x. x\<lparr>pstate := UNUSED\<rparr>)) (kret None)
             else kret (Some p))))))))))"

definition init_tf :: trapframe where
  "init_tf = zero_tf\<lparr>tf_cs := push_bit 3 SEG_UCODE OR DPL_USER, tf_ds := push_bit 3 SEG_UDATA OR DPL_USER,
     tf_es := push_bit 3 SEG_UDATA OR DPL_USER, tf_ss := push_bit 3 SEG_UDATA OR DPL_USER,
     tf_eflags := FL_IF, tf_esp := PGSIZE, tf_eip := 0\<rparr>"

text \<open>\<open>initcode\<close> is the program linked into the kernel image.\<close>

definition userinit :: "bytes \<Rightarrow> ('z cstate_scheme, unit) kern" where
  "userinit initcode =
     kbind allocproc (\<lambda>r. case r of
       None \<Rightarrow> kundef
     | Some p \<Rightarrow>
         kseq (kmod (\<lambda>s. s\<lparr>initproc := Some p\<rparr>))
         (kbind setupkvm (\<lambda>pgd.
          kseq (kmod_proc p (\<lambda>x. x\<lparr>pgdir := pgd\<rparr>))
          (kseq (panic_if (pgd = 0) ''userinit: out of memory?'')
          (kseq (inituvm pgd initcode)
          (kseq (kmod_proc p (\<lambda>x. x\<lparr>sz := PGSIZE, tf := init_tf\<rparr>))
          (kseq (kmod_proc p (set_name (msg ''initcode'')))
          (kbind (namei [slash]) (\<lambda>d.
           kseq (kmod_proc p (\<lambda>x. x\<lparr>cwd := d\<rparr>))
           (kseq (acquire PtableLk)
           (kseq (kmod_proc p (\<lambda>x. x\<lparr>pstate := RUNNABLE\<rparr>))
            (release PtableLk))))))))))))"

definition with_proc :: "(nat \<Rightarrow> ('z pstate_t_scheme, 'a) kern) \<Rightarrow> ('z pstate_t_scheme, 'a) kern" where
  "with_proc f = kbind myproc (\<lambda>mp. case mp of None \<Rightarrow> kundef | Some p \<Rightarrow> f p)"

definition growproc :: "int \<Rightarrow> ('z cstate_scheme, int) kern" where
  "growproc n =
     with_proc (\<lambda>c.
     kbind (kget (\<lambda>s. ptable s c)) (\<lambda>x.
     kbind (if n > 0 then allocuvm (pgdir x) (sz x) (sz x + of_int n)
            else if n < 0 then deallocuvm (pgdir x) (sz x) (sz x + of_int n)
            else kret (sz x)) (\<lambda>sz'.
     if n \<noteq> 0 \<and> sz' = 0 then kret (- 1)
     else kseq (kmod_proc c (\<lambda>x. x\<lparr>sz := sz'\<rparr>))
          (kseq (switchuvm c) (kret 0)))))"

definition fork :: "('z fstate_scheme, int) kern" where
  "fork =
     with_proc (\<lambda>c.
     kbind allocproc (\<lambda>r. case r of
       None \<Rightarrow> kret (- 1)
     | Some np \<Rightarrow>
         kbind (kget (\<lambda>s. ptable s c)) (\<lambda>cp.
         kbind (copyuvm (pgdir cp) (sz cp)) (\<lambda>pgd.
         kseq (kmod_proc np (\<lambda>x. x\<lparr>pgdir := pgd\<rparr>))
         (if pgd = 0 then
            kbind (kget (\<lambda>s. kstack (ptable s np))) (\<lambda>st.
            kseq (kfree st)
            (kseq (kmod_proc np (\<lambda>x. x\<lparr>kstack := 0\<rparr>))
            (kseq (kmod_proc np (\<lambda>x. x\<lparr>pstate := UNUSED\<rparr>))
             (kret (- 1)))))
          else
            kseq (kmod_proc np (\<lambda>x. x\<lparr>sz := sz cp, parent := Some c, tf := (tf cp)\<lparr>tf_eax := 0\<rparr>\<rparr>))
            (kseq (kfor [0..<NOFILE] (\<lambda>i.
               kbind (kget (\<lambda>s. ofile (ptable s c) ! i)) (\<lambda>o'. case o' of
                 None \<Rightarrow> kret ()
               | Some f \<Rightarrow>
                   kbind (filedup f) (\<lambda>g.
                   kmod_proc np (\<lambda>x. x\<lparr>ofile := (ofile x)[i := Some g]\<rparr>)))))
            (kbind (kget (\<lambda>s. cwd (ptable s c))) (\<lambda>d.
             kbind (case d of None \<Rightarrow> kundef | Some i \<Rightarrow> idup i) (\<lambda>d'.
             kseq (kmod_proc np (\<lambda>x. x\<lparr>cwd := Some d'\<rparr>))
             (kbind (kget (\<lambda>s. pname (ptable s c))) (\<lambda>nm.
              kseq (kmod_proc np (set_name nm))
              (kbind (kget (\<lambda>s. pid (ptable s np))) (\<lambda>k.
               kseq (acquire PtableLk)
               (kseq (kmod_proc np (\<lambda>x. x\<lparr>pstate := RUNNABLE\<rparr>))
               (kseq (release PtableLk) (kret k))))))))))))))))"

section \<open>The end of a process\<close>

definition exit :: "('z fstate_scheme, unit) kern" where
  "exit =
     with_proc (\<lambda>c.
     kbind (kget initproc) (\<lambda>ip.
     kseq (panic_if (Some c = ip) ''init exiting'')
     (kseq (kfor [0..<NOFILE] (\<lambda>fd.
        kbind (kget (\<lambda>s. ofile (ptable s c) ! fd)) (\<lambda>o'. case o' of
          None \<Rightarrow> kret ()
        | Some f \<Rightarrow> kseq (fileclose f) (kmod_proc c (\<lambda>x. x\<lparr>ofile := (ofile x)[fd := None]\<rparr>)))))
     (kseq begin_op
     (kbind (kget (\<lambda>s. cwd (ptable s c))) (\<lambda>d.
      kseq (case d of None \<Rightarrow> kundef | Some i \<Rightarrow> iput i)
      (kseq end_op
      (kseq (kmod_proc c (\<lambda>x. x\<lparr>cwd := None\<rparr>))
      (kseq (acquire PtableLk)
      (kbind (kget (\<lambda>s. parent (ptable s c))) (\<lambda>pr.
       kseq (wakeup1 (map_option ChanProc pr))
       (kseq (kfor [0..<NPROC] (\<lambda>i.
          kbind (kget (\<lambda>s. ptable s i)) (\<lambda>p.
          kwhen (parent p = Some c)
            (kbind (kget initproc) (\<lambda>ip.
             kseq (kmod_proc i (\<lambda>x. x\<lparr>parent := ip\<rparr>))
             (kwhen (pstate p = ZOMBIE) (wakeup1 (map_option ChanProc ip))))))))
       (kseq (kmod_proc c (\<lambda>x. x\<lparr>pstate := ZOMBIE\<rparr>))
       (kseq sched (kpanic ''zombie exit'')))))))))))))))"

text \<open>What \<open>wait\<close> does with a zombie child.\<close>

definition reap :: "nat \<Rightarrow> ('z kmstate_scheme, int) kern" where
  "reap i =
     kbind (kget (\<lambda>s. ptable s i)) (\<lambda>p.
     kseq (kfree (kstack p))
     (kseq (kmod_proc i (\<lambda>x. x\<lparr>kstack := 0\<rparr>))
     (kseq (freevm (pgdir p))
     (kseq (kmod_proc i (\<lambda>x. x\<lparr>pid := 0, parent := None, pname := [], killed := False, pstate := UNUSED\<rparr>))
     (kseq (release PtableLk)
      (kret (pid p)))))))"

text \<open>The scan of the table: a pid when a child was reaped, otherwise whether there are children.\<close>

fun wait_scan :: "nat \<Rightarrow> nat list \<Rightarrow> bool \<Rightarrow> ('z kmstate_scheme, int + bool) kern" where
  "wait_scan c [] havekids = kret (Inr havekids)"
| "wait_scan c (i # is) havekids =
     kbind (kget (\<lambda>s. ptable s i)) (\<lambda>p.
     if parent p \<noteq> Some c then wait_scan c is havekids
     else if pstate p = ZOMBIE then kbind (reap i) (\<lambda>k. kret (Inl k))
     else wait_scan c is True)"

definition wait_try :: "nat \<Rightarrow> ('z kmstate_scheme, int) kern" where
  "wait_try c =
     kbind (wait_scan c [0..<NPROC] False) (\<lambda>r. case r of
       Inl k \<Rightarrow> kret k
     | Inr havekids \<Rightarrow>
         kbind (kget (\<lambda>s. killed (ptable s c))) (\<lambda>kd.
         if \<not> havekids \<or> kd then kseq (release PtableLk) (kret (- 1))
         else kseq (sleep_on (Some (ChanProc c)) (Some PtableLk)) khang))"

definition wait :: "('z kmstate_scheme, int) kern" where
  "wait = with_proc (\<lambda>c. kseq (acquire PtableLk) (wait_try c))"

definition wait_resume :: "nat \<Rightarrow> ('z kmstate_scheme, int) kern" where
  "wait_resume c = kseq (sleep_return c PtableLk) (wait_try c)"

definition forkret :: "('z sstate_scheme, unit) kern" where
  "forkret =
     kseq (release PtableLk)
     (kbind (kget fork_first) (\<lambda>first.
      kwhen first
        (kseq (kmod (\<lambda>s. s\<lparr>fork_first := False\<rparr>))
        (kseq (iinit ROOTDEV) (initlog ROOTDEV)))))"

end
