(* ===== verification/Exec.thy ===== *)
theory Exec
  imports Proc
begin

text \<open>
  \<^verbatim>\<open>src/xv6/exec.c\<close> with \<^verbatim>\<open>loaduvm\<close> of \<^verbatim>\<open>src/xv6/vm.c\<close> and the file formats of
  \<^verbatim>\<open>src/xv6/elf.h\<close>. The jumps to \<^verbatim>\<open>bad\<close> are the value \<open>None\<close> of the helper functions.
\<close>

definition MAXARG :: nat where "MAXARG = 32"
definition ELF_MAGIC :: u32 where "ELF_MAGIC = 0x464C457F"
definition ELF_PROG_LOAD :: u32 where "ELF_PROG_LOAD = 1"

record elfhdr =
  e_magic :: u32
  e_entry :: u32
  e_phoff :: u32
  e_phnum :: u16

record proghdr =
  ph_type :: u32
  ph_off :: u32
  ph_vaddr :: u32
  ph_filesz :: u32
  ph_memsz :: u32

definition dec_elfhdr :: "bytes \<Rightarrow> elfhdr" where
  "dec_elfhdr d = \<lparr>e_magic = get32 d 0, e_entry = get32 d 24, e_phoff = get32 d 28, e_phnum = get16 d 44\<rparr>"

definition dec_proghdr :: "bytes \<Rightarrow> proghdr" where
  "dec_proghdr d = \<lparr>ph_type = get32 d 0, ph_off = get32 d 4, ph_vaddr = get32 d 8,
     ph_filesz = get32 d 16, ph_memsz = get32 d 20\<rparr>"

fun loaduvm_loop :: "nat \<Rightarrow> u32 \<Rightarrow> u32 \<Rightarrow> nat \<Rightarrow> u32 \<Rightarrow> u32 \<Rightarrow> u32 \<Rightarrow> ('z cstate_scheme, int) kern" where
  "loaduvm_loop 0 pgd addr ip offset n i = khang"
| "loaduvm_loop (Suc k) pgd addr ip offset n i =
     (if \<not> i < n then kret 0
      else kbind (walkpgdir pgd (addr + i) False) (\<lambda>pte.
           kseq (panic_if (pte = 0) ''loaduvm: address should exist'')
           (kbind (kload32 pte) (\<lambda>e.
            let pa = PTE_ADDR e; m = (if n - i < PGSIZE then n - i else PGSIZE) in
            kbind (readi ip (offset + i) m) (\<lambda>(r, bs).
            kseq (kmod_mem (put_bytes (P2V pa) bs))
            (if r \<noteq> int (unat m) then kret (- 1)
             else loaduvm_loop k pgd addr ip offset n (i + PGSIZE)))))))"

definition loaduvm :: "u32 \<Rightarrow> u32 \<Rightarrow> nat \<Rightarrow> u32 \<Rightarrow> u32 \<Rightarrow> ('z cstate_scheme, int) kern" where
  "loaduvm pgd addr ip offset n =
     kseq (panic_if (addr mod PGSIZE \<noteq> 0) ''loaduvm: addr must be page aligned'')
     (loaduvm_loop (unat n div 4096 + 2) pgd addr ip offset n 0)"

text \<open>Loading the program segments, \<open>n\<close> headers from \<open>off\<close> on; \<open>Some\<close> the size of the image.\<close>

fun exec_load :: "nat \<Rightarrow> u32 \<Rightarrow> nat \<Rightarrow> u32 \<Rightarrow> u32 \<Rightarrow> ('z cstate_scheme, u32 option) kern" where
  "exec_load 0 pgd ip off sz' = kret (Some sz')"
| "exec_load (Suc n) pgd ip off sz' =
     kbind (readi ip off 32) (\<lambda>(r, bs).
     if r \<noteq> 32 then kret None
     else let ph = dec_proghdr bs in
       if ph_type ph \<noteq> ELF_PROG_LOAD then exec_load n pgd ip (off + 32) sz'
       else if ph_memsz ph < ph_filesz ph then kret None
       else if ph_vaddr ph + ph_memsz ph < ph_vaddr ph then kret None
       else kbind (allocuvm pgd sz' (ph_vaddr ph + ph_memsz ph)) (\<lambda>sz''.
            if sz'' = 0 then kret None
            else if ph_vaddr ph mod PGSIZE \<noteq> 0 then kret None
            else kbind (loaduvm pgd (ph_vaddr ph) ip (ph_off ph) (ph_filesz ph)) (\<lambda>r.
                 if r < 0 then kret None
                 else exec_load n pgd ip (off + 32) sz'')))"

text \<open>Pushing the argument strings; \<open>Some (sp, ustack)\<close> with the addresses pushed so far.\<close>

fun exec_args :: "u32 \<Rightarrow> bytes list \<Rightarrow> u32 \<Rightarrow> u32 list \<Rightarrow> ('z kmstate_scheme, (u32 \<times> u32 list) option) kern" where
  "exec_args pgd [] sp ustack = kret (Some (sp, ustack))"
| "exec_args pgd (a # as) sp ustack =
     (if length ustack \<ge> MAXARG then kret None
      else let sp' = (sp - (of_nat (length a) + 1)) AND NOT 3 in
        kbind (copyout pgd sp' (a @ [0])) (\<lambda>r.
        if r < 0 then kret None else exec_args pgd as sp' (ustack @ [sp'])))"

definition exec_ustack :: "u32 \<Rightarrow> u32 list \<Rightarrow> u32 list" where
  "exec_ustack sp args =
     (let argc = of_nat (length args) in
      [0xffffffff, argc, sp - (argc + 1) * 4] @ args @ [0])"

definition last_elem :: "bytes \<Rightarrow> bytes" where
  "last_elem pth = rev (takeWhile (\<lambda>c. c \<noteq> slash) (rev pth))"

text \<open>Building the stack above \<open>sz'\<close>: the new size and the stack pointer.\<close>

definition exec_stack :: "u32 \<Rightarrow> u32 \<Rightarrow> bytes list \<Rightarrow> ('z cstate_scheme, (u32 \<times> u32) option) kern" where
  "exec_stack pgd sz' argv =
     (let sz1 = PGROUNDUP sz' in
      kbind (allocuvm pgd sz1 (sz1 + 2 * PGSIZE)) (\<lambda>sz2.
      if sz2 = 0 then kret None
      else kseq (clearpteu pgd (sz2 - 2 * PGSIZE))
           (kbind (exec_args pgd argv sz2 []) (\<lambda>r. case r of
              None \<Rightarrow> kret None
            | Some (sp, args) \<Rightarrow>
                let us = exec_ustack sp args; sp' = sp - of_nat (length us) * 4 in
                kbind (copyout pgd sp' (concat (map le32 us))) (\<lambda>r.
                if r < 0 then kret None else kret (Some (sz2, sp')))))))"

definition exec_bad :: "u32 \<Rightarrow> nat option \<Rightarrow> ('z fstate_scheme, int) kern" where
  "exec_bad pgd ip =
     kseq (kwhen (pgd \<noteq> 0) (freevm pgd))
     (kseq (case ip of None \<Rightarrow> kret () | Some i \<Rightarrow> kseq (iunlockput i) end_op)
      (kret (- 1)))"

definition exec :: "bytes \<Rightarrow> bytes list \<Rightarrow> ('z fstate_scheme, int) kern" where
  "exec pth argv =
     with_proc (\<lambda>c.
     kseq begin_op
     (kbind (namei pth) (\<lambda>r. case r of
        None \<Rightarrow> kseq end_op (kseq (cprintf (msg ''exec: fail\<newline>'') []) (kret (- 1)))
      | Some ip \<Rightarrow>
          kseq (ilock (Some ip))
          (kbind (readi ip 0 52) (\<lambda>(r, bs).
           let elf = dec_elfhdr bs in
           if r \<noteq> 52 then exec_bad 0 (Some ip)
           else if e_magic elf \<noteq> ELF_MAGIC then exec_bad 0 (Some ip)
           else kbind setupkvm (\<lambda>pgd.
             if pgd = 0 then exec_bad 0 (Some ip)
             else kbind (exec_load (unat (e_phnum elf)) pgd ip (e_phoff elf) 0) (\<lambda>l. case l of
               None \<Rightarrow> exec_bad pgd (Some ip)
             | Some sz' \<Rightarrow>
                 kseq (iunlockput ip)
                 (kseq end_op
                 (kbind (exec_stack pgd sz' argv) (\<lambda>st. case st of
                    None \<Rightarrow> exec_bad pgd None
                  | Some (sz2, sp) \<Rightarrow>
                      kseq (kmod_proc c (set_name (last_elem pth)))
                      (kbind (kget (\<lambda>s. pgdir (ptable s c))) (\<lambda>old.
                       kseq (kmod_proc c (\<lambda>x. x\<lparr>pgdir := pgd, sz := sz2,
                         tf := (tf x)\<lparr>tf_eip := e_entry elf, tf_esp := sp\<rparr>\<rparr>))
                       (kseq (switchuvm c)
                       (kseq (freevm old)
                        (kret 0)))))))))))))))"

end
