(* ===== verification/Sysargs.thy ===== *)
theory Sysargs
  imports Exec
begin

text \<open>
  System call arguments: \<^verbatim>\<open>fetchint\<close>, \<^verbatim>\<open>fetchstr\<close>, \<^verbatim>\<open>argint\<close>, \<^verbatim>\<open>argptr\<close>, \<^verbatim>\<open>argstr\<close> of
  \<^verbatim>\<open>src/xv6/syscall.c\<close> and \<^verbatim>\<open>argfd\<close>, \<^verbatim>\<open>fdalloc\<close> of \<^verbatim>\<open>src/xv6/sysfile.c\<close>. The kernel reads
  and writes user memory through the page table of the running process: \<open>translate\<close> is the page
  walk of the hardware, and an access it refuses is a trap in kernel mode, which panics
  (\<^verbatim>\<open>src/xv6/trap.c\<close>). A failing \<^verbatim>\<open>arg*\<close> call is \<open>None\<close>; a string argument comes with the bytes
  it points to.
\<close>

section \<open>User memory\<close>

definition pte_at :: "mem \<Rightarrow> u32 \<Rightarrow> u32 \<Rightarrow> u32 option" where
  "pte_at m pgd va =
     (let e = load32 m (pgd + 4 * PDX va) in
      if present e then Some (load32 m (P2V (PTE_ADDR e) + 4 * PTX va)) else None)"

definition translate :: "mem \<Rightarrow> u32 \<Rightarrow> bool \<Rightarrow> u32 \<Rightarrow> u32 option" where
  "translate m pgd wr va =
     (case pte_at m pgd va of
        None \<Rightarrow> None
      | Some e \<Rightarrow> if present e \<and> (wr \<longrightarrow> e AND PTE_W \<noteq> 0)
                  then Some (P2V (PTE_ADDR e) + (va AND 0xFFF)) else None)"

definition cur_pgd :: "('z kmstate_scheme) \<Rightarrow> u32" where
  "cur_pgd s = P2V (cr3 s (cur (spin s)))"

definition uload8 :: "u32 \<Rightarrow> ('z kmstate_scheme, u8) kern" where
  "uload8 va =
     kbind (kget (\<lambda>s. translate (pmem s) (cur_pgd s) False va)) (\<lambda>r. case r of
       None \<Rightarrow> kpanic ''trap''
     | Some a \<Rightarrow> kget (\<lambda>s. pmem s a))"

definition ustore8 :: "u32 \<Rightarrow> u8 \<Rightarrow> ('z kmstate_scheme, unit) kern" where
  "ustore8 va v =
     kbind (kget (\<lambda>s. translate (pmem s) (cur_pgd s) True va)) (\<lambda>r. case r of
       None \<Rightarrow> kpanic ''trap''
     | Some a \<Rightarrow> kmod_mem (\<lambda>m. m(a := v)))"

fun uload :: "nat \<Rightarrow> u32 \<Rightarrow> ('z kmstate_scheme, bytes) kern" where
  "uload 0 va = kret []"
| "uload (Suc n) va = kbind (uload8 va) (\<lambda>b. kbind (uload n (va + 1)) (\<lambda>bs. kret (b # bs)))"

fun ustore :: "u32 \<Rightarrow> bytes \<Rightarrow> ('z kmstate_scheme, unit) kern" where
  "ustore va [] = kret ()"
| "ustore va (b # bs) = kseq (ustore8 va b) (ustore (va + 1) bs)"

section \<open>Fetching arguments\<close>

definition fetchint :: "u32 \<Rightarrow> ('z kmstate_scheme, u32 option) kern" where
  "fetchint addr =
     with_proc (\<lambda>c.
     kbind (kget (\<lambda>s. sz (ptable s c))) (\<lambda>n.
     if addr \<ge> n \<or> addr + 4 > n then kret None
     else kbind (uload 4 addr) (\<lambda>bs. kret (Some (of_le32 bs)))))"

text \<open>The scan for the NUL, over the \<open>n\<close> bytes up to the end of the process.\<close>

fun fetchstr_loop :: "nat \<Rightarrow> u32 \<Rightarrow> ('z kmstate_scheme, bytes option) kern" where
  "fetchstr_loop 0 a = kret None"
| "fetchstr_loop (Suc n) a =
     kbind (uload8 a) (\<lambda>b.
     if b = 0 then kret (Some [])
     else kbind (fetchstr_loop n (a + 1)) (\<lambda>r. kret (map_option (\<lambda>bs. b # bs) r)))"

definition fetchstr :: "u32 \<Rightarrow> ('z kmstate_scheme, bytes option) kern" where
  "fetchstr addr =
     with_proc (\<lambda>c.
     kbind (kget (\<lambda>s. sz (ptable s c))) (\<lambda>n.
     if addr \<ge> n then kret None else fetchstr_loop (unat n - unat addr) addr))"

definition argint :: "u32 \<Rightarrow> ('z kmstate_scheme, u32 option) kern" where
  "argint n = with_proc (\<lambda>c. kbind (kget (\<lambda>s. tf_esp (tf (ptable s c)))) (\<lambda>sp. fetchint (sp + 4 + 4 * n)))"

definition argptr :: "u32 \<Rightarrow> int \<Rightarrow> ('z kmstate_scheme, u32 option) kern" where
  "argptr n k =
     with_proc (\<lambda>c.
     kbind (argint n) (\<lambda>r. case r of
       None \<Rightarrow> kret None
     | Some i \<Rightarrow>
         kbind (kget (\<lambda>s. sz (ptable s c))) (\<lambda>m.
         if k < 0 \<or> i \<ge> m \<or> i + of_int k > m then kret None else kret (Some i))))"

definition argstr :: "u32 \<Rightarrow> ('z kmstate_scheme, bytes option) kern" where
  "argstr n = kbind (argint n) (\<lambda>r. case r of None \<Rightarrow> kret None | Some a \<Rightarrow> fetchstr a)"

text \<open>\<open>argfd\<close>: the descriptor and the file it stands for.\<close>

definition argfd :: "u32 \<Rightarrow> ('z kmstate_scheme, (nat \<times> nat) option) kern" where
  "argfd n =
     kbind (argint n) (\<lambda>r. case r of
       None \<Rightarrow> kret None
     | Some w \<Rightarrow>
         let fd = sint w in
         if fd < 0 \<or> fd \<ge> int NOFILE then kret None
         else with_proc (\<lambda>c. kbind (kget (\<lambda>s. ofile (ptable s c) ! nat fd)) (\<lambda>f.
              kret (map_option (\<lambda>x. (nat fd, x)) f))))"

definition fdalloc :: "nat \<Rightarrow> ('z pstate_t_scheme, nat option) kern" where
  "fdalloc f =
     with_proc (\<lambda>c.
     kbind (kget (\<lambda>s. find (\<lambda>fd. ofile (ptable s c) ! fd = None) [0..<NOFILE])) (\<lambda>r. case r of
       None \<Rightarrow> kret None
     | Some fd \<Rightarrow> kseq (kmod_proc c (\<lambda>x. x\<lparr>ofile := (ofile x)[fd := Some f]\<rparr>)) (kret (Some fd))))"

end
