(* ===== verification/Sysfile.thy ===== *)
theory Sysfile
  imports Sysargs
begin

text \<open>
  The file system calls, \<^verbatim>\<open>src/xv6/sysfile.c\<close>. Each is the whole handler, from the argument checks
  to the return value; the bytes a call reads or writes are moved through user memory. The jumps to
  \<^verbatim>\<open>bad\<close> are functions of their own.
\<close>

definition O_RDONLY :: u32 where "O_RDONLY = 0"
definition O_WRONLY :: u32 where "O_WRONLY = 1"
definition O_RDWR :: u32 where "O_RDWR = 2"
definition O_CREATE :: u32 where "O_CREATE = 0x200"

section \<open>Descriptors\<close>

definition sys_dup :: "('z fstate_scheme, int) kern" where
  "sys_dup =
     kbind (argfd 0) (\<lambda>r. case r of
       None \<Rightarrow> kret (- 1)
     | Some (old, f) \<Rightarrow>
         kbind (fdalloc f) (\<lambda>r. case r of
           None \<Rightarrow> kret (- 1)
         | Some fd \<Rightarrow> kbind (filedup f) (\<lambda>_. kret (int fd))))"

text \<open>The arguments of \<open>read\<close> and \<open>write\<close>: file, address and length.\<close>

definition rw_args :: "('z fstate_scheme, (nat \<times> u32 \<times> int) option) kern" where
  "rw_args =
     kbind (argfd 0) (\<lambda>r. case r of
       None \<Rightarrow> kret None
     | Some (fd, f) \<Rightarrow>
         kbind (argint 2) (\<lambda>r. case r of
           None \<Rightarrow> kret None
         | Some n \<Rightarrow>
             kbind (argptr 1 (sint n)) (\<lambda>r. case r of
               None \<Rightarrow> kret None
             | Some p \<Rightarrow> kret (Some (f, p, sint n)))))"

definition sys_read :: "('z fstate_scheme, int) kern" where
  "sys_read =
     kbind rw_args (\<lambda>r. case r of
       None \<Rightarrow> kret (- 1)
     | Some (f, p, n) \<Rightarrow>
         kbind (fileread f (nat n)) (\<lambda>(r, bs). kseq (ustore p bs) (kret r)))"

definition sys_write :: "('z fstate_scheme, int) kern" where
  "sys_write =
     kbind rw_args (\<lambda>r. case r of
       None \<Rightarrow> kret (- 1)
     | Some (f, p, n) \<Rightarrow> kbind (uload (nat n) p) (\<lambda>bs. filewrite f bs))"

definition sys_close :: "('z fstate_scheme, int) kern" where
  "sys_close =
     kbind (argfd 0) (\<lambda>r. case r of
       None \<Rightarrow> kret (- 1)
     | Some (fd, f) \<Rightarrow>
         with_proc (\<lambda>c.
         kseq (kmod_proc c (\<lambda>x. x\<lparr>ofile := (ofile x)[fd := None]\<rparr>))
         (kseq (fileclose f) (kret 0))))"

text \<open>\<open>struct stat\<close> in memory: a short, two 32-bit words, a short, a 32-bit word, aligned.\<close>

definition enc_stat :: "stat_t \<Rightarrow> bytes \<Rightarrow> bytes" where
  "enc_stat st pad = le16 (st_type st) @ slice 0 2 pad @ le32 (of_nat (st_dev st)) @ le32 (of_nat (st_ino st))
     @ le16 (st_nlink st) @ slice 2 2 pad @ le32 (st_size st)"

text \<open>\<open>pad\<close> is what the four bytes of padding hold, which the code leaves alone.\<close>

definition sys_fstat :: "('z fstate_scheme, int) kern" where
  "sys_fstat =
     kbind (argfd 0) (\<lambda>r. case r of
       None \<Rightarrow> kret (- 1)
     | Some (fd, f) \<Rightarrow>
         kbind (argptr 1 20) (\<lambda>r. case r of
           None \<Rightarrow> kret (- 1)
         | Some p \<Rightarrow>
             kbind (filestat f) (\<lambda>r. case r of
               None \<Rightarrow> kret (- 1)
             | Some st \<Rightarrow>
                 kbind (uload 20 p) (\<lambda>old.
                 kseq (ustore p (enc_stat st (slice 2 2 old @ slice 14 2 old))) (kret 0)))))"

section \<open>Links\<close>

definition end_fail :: "('z lstate_scheme, int) kern" where
  "end_fail = kseq end_op (kret (- 1))"

definition sys_link_bad :: "nat \<Rightarrow> ('z fstate_scheme, int) kern" where
  "sys_link_bad ip =
     kseq (ilock (Some ip))
     (kseq (kmod_inode ip (\<lambda>x. x\<lparr>i_nlink := i_nlink x - 1\<rparr>))
     (kseq (iupdate ip)
     (kseq (iunlockput ip)
      end_fail)))"

definition sys_link_at :: "nat \<Rightarrow> bytes \<Rightarrow> ('z fstate_scheme, int) kern" where
  "sys_link_at ip new =
     kbind (nameiparent new) (\<lambda>r. case r of
       None \<Rightarrow> sys_link_bad ip
     | Some (dp, name) \<Rightarrow>
         kseq (ilock (Some dp))
         (kbind (kget (\<lambda>s. icache s)) (\<lambda>ic.
          kbind (if i_dev (ic dp) \<noteq> i_dev (ic ip) then kret (- 1) else dirlink dp name (i_inum (ic ip))) (\<lambda>r.
          if r < 0 then kseq (iunlockput dp) (sys_link_bad ip)
          else kseq (iunlockput dp)
               (kseq (iput ip)
               (kseq end_op (kret 0)))))))"

definition sys_link :: "('z fstate_scheme, int) kern" where
  "sys_link =
     kbind (argstr 0) (\<lambda>r. case r of
       None \<Rightarrow> kret (- 1)
     | Some old \<Rightarrow>
         kbind (argstr 1) (\<lambda>r. case r of
           None \<Rightarrow> kret (- 1)
         | Some new \<Rightarrow>
             kseq begin_op
             (kbind (namei old) (\<lambda>r. case r of
                None \<Rightarrow> end_fail
              | Some ip \<Rightarrow>
                  kseq (ilock (Some ip))
                  (kbind (kget (\<lambda>s. i_type (icache s ip))) (\<lambda>ty.
                   if ty = T_DIR then kseq (iunlockput ip) end_fail
                   else
                     kseq (kmod_inode ip (\<lambda>x. x\<lparr>i_nlink := i_nlink x + 1\<rparr>))
                     (kseq (iupdate ip)
                     (kseq (iunlock (Some ip))
                      (sys_link_at ip new)))))))))"

fun isdirempty_loop :: "nat \<Rightarrow> nat list \<Rightarrow> ('z cstate_scheme, bool) kern" where
  "isdirempty_loop dp [] = kret True"
| "isdirempty_loop dp (off # offs) =
     kbind (readi dp (of_nat off) 16) (\<lambda>(r, bs).
     kseq (panic_if (r \<noteq> 16) ''isdirempty: readi'')
     (if de_inum (dec_dirent bs) \<noteq> 0 then kret False else isdirempty_loop dp offs))"

definition isdirempty :: "nat \<Rightarrow> ('z cstate_scheme, bool) kern" where
  "isdirempty dp = kbind (kget (\<lambda>s. i_size (icache s dp))) (\<lambda>n. isdirempty_loop dp (drop 2 (dir_offs n)))"

definition sys_unlink_bad :: "nat \<Rightarrow> ('z fstate_scheme, int) kern" where
  "sys_unlink_bad dp = kseq (iunlockput dp) end_fail"

definition sys_unlink_at :: "nat \<Rightarrow> nat \<Rightarrow> nat \<Rightarrow> ('z fstate_scheme, int) kern" where
  "sys_unlink_at dp ip off =
     kseq (ilock (Some ip))
     (kbind (kget (\<lambda>s. icache s ip)) (\<lambda>x.
      kseq (panic_if (sint (i_nlink x) < 1) ''unlink: nlink < 1'')
      (kbind (if i_type x = T_DIR then isdirempty ip else kret True) (\<lambda>e.
       if \<not> e then kseq (iunlockput ip) (sys_unlink_bad dp)
       else
         kbind (writei dp (replicate 16 0) (of_nat off)) (\<lambda>r.
         kseq (panic_if (r \<noteq> 16) ''unlink: writei'')
         (kseq (kwhen (i_type x = T_DIR)
            (kseq (kmod_inode dp (\<lambda>y. y\<lparr>i_nlink := i_nlink y - 1\<rparr>)) (iupdate dp)))
         (kseq (iunlockput dp)
         (kseq (kmod_inode ip (\<lambda>y. y\<lparr>i_nlink := i_nlink y - 1\<rparr>))
         (kseq (iupdate ip)
         (kseq (iunlockput ip)
         (kseq end_op (kret 0))))))))))))"

definition sys_unlink :: "('z fstate_scheme, int) kern" where
  "sys_unlink =
     kbind (argstr 0) (\<lambda>r. case r of
       None \<Rightarrow> kret (- 1)
     | Some pth \<Rightarrow>
         kseq begin_op
         (kbind (nameiparent pth) (\<lambda>r. case r of
            None \<Rightarrow> end_fail
          | Some (dp, name) \<Rightarrow>
              kseq (ilock (Some dp))
              (if namecmp_eq name (msg ''.'') \<or> namecmp_eq name (msg ''..'') then sys_unlink_bad dp
               else kbind (dirlookup dp name) (\<lambda>r. case r of
                      None \<Rightarrow> sys_unlink_bad dp
                    | Some (ip, off) \<Rightarrow> sys_unlink_at dp ip off)))))"

section \<open>Opening and creating\<close>

definition create_dots :: "nat \<Rightarrow> nat \<Rightarrow> ('z fstate_scheme, unit) kern" where
  "create_dots dp ip =
     kseq (kmod_inode dp (\<lambda>x. x\<lparr>i_nlink := i_nlink x + 1\<rparr>))
     (kseq (iupdate dp)
     (kbind (kget (\<lambda>s. i_inum (icache s ip))) (\<lambda>n.
      kbind (dirlink ip (msg ''.'') n) (\<lambda>r1.
      kbind (if r1 < 0 then kret r1
             else kbind (kget (\<lambda>s. i_inum (icache s dp))) (\<lambda>m. dirlink ip (msg ''..'') m)) (\<lambda>r2.
      panic_if (r1 < 0 \<or> r2 < 0) ''create dots'')))))"

text \<open>\<open>create\<close> leaves the inode it returns locked.\<close>

definition create :: "bytes \<Rightarrow> u16 \<Rightarrow> u16 \<Rightarrow> u16 \<Rightarrow> ('z fstate_scheme, nat option) kern" where
  "create pth ty major minor =
     kbind (nameiparent pth) (\<lambda>r. case r of
       None \<Rightarrow> kret None
     | Some (dp, name) \<Rightarrow>
         kseq (ilock (Some dp))
         (kbind (dirlookup dp name) (\<lambda>r. case r of
            Some (ip, off) \<Rightarrow>
              kseq (iunlockput dp)
              (kseq (ilock (Some ip))
              (kbind (kget (\<lambda>s. i_type (icache s ip))) (\<lambda>t.
               if ty = T_FILE \<and> t = T_FILE then kret (Some ip)
               else kseq (iunlockput ip) (kret None))))
          | None \<Rightarrow>
              kbind (kget (\<lambda>s. i_dev (icache s dp))) (\<lambda>dev.
              kbind (ialloc dev ty) (\<lambda>ip.
              kseq (ilock (Some ip))
              (kseq (kmod_inode ip (\<lambda>x. x\<lparr>i_major := major, i_minor := minor, i_nlink := 1\<rparr>))
              (kseq (iupdate ip)
              (kseq (kwhen (ty = T_DIR) (create_dots dp ip))
              (kbind (kget (\<lambda>s. i_inum (icache s ip))) (\<lambda>n.
               kbind (dirlink dp name n) (\<lambda>r.
               kseq (panic_if (r < 0) ''create: dirlink'')
               (kseq (iunlockput dp)
                (kret (Some ip))))))))))))))"

definition sys_open_fd :: "nat \<Rightarrow> u32 \<Rightarrow> ('z fstate_scheme, int) kern" where
  "sys_open_fd ip omode =
     kbind filealloc (\<lambda>r. case r of
       None \<Rightarrow> kseq (iunlockput ip) end_fail
     | Some f \<Rightarrow>
         kbind (fdalloc f) (\<lambda>r. case r of
           None \<Rightarrow> kseq (fileclose f) (kseq (iunlockput ip) end_fail)
         | Some fd \<Rightarrow>
             kseq (iunlock (Some ip))
             (kseq end_op
             (kseq (kmod_file f (\<lambda>x. x\<lparr>f_type := FD_INODE, f_ip := Some ip, f_off := 0,
                f_readable := (omode AND O_WRONLY = 0),
                f_writable := (omode AND O_WRONLY \<noteq> 0 \<or> omode AND O_RDWR \<noteq> 0)\<rparr>))
              (kret (int fd))))))"

definition sys_open :: "('z fstate_scheme, int) kern" where
  "sys_open =
     kbind (argstr 0) (\<lambda>r. case r of
       None \<Rightarrow> kret (- 1)
     | Some pth \<Rightarrow>
         kbind (argint 1) (\<lambda>r. case r of
           None \<Rightarrow> kret (- 1)
         | Some omode \<Rightarrow>
             kseq begin_op
             (if omode AND O_CREATE \<noteq> 0 then
                kbind (create pth T_FILE 0 0) (\<lambda>r. case r of
                  None \<Rightarrow> end_fail
                | Some ip \<Rightarrow> sys_open_fd ip omode)
              else
                kbind (namei pth) (\<lambda>r. case r of
                  None \<Rightarrow> end_fail
                | Some ip \<Rightarrow>
                    kseq (ilock (Some ip))
                    (kbind (kget (\<lambda>s. i_type (icache s ip))) (\<lambda>t.
                     if t = T_DIR \<and> omode \<noteq> O_RDONLY then kseq (iunlockput ip) end_fail
                     else sys_open_fd ip omode))))))"

definition sys_mkdir :: "('z fstate_scheme, int) kern" where
  "sys_mkdir =
     kseq begin_op
     (kbind (argstr 0) (\<lambda>r. case r of
        None \<Rightarrow> end_fail
      | Some pth \<Rightarrow>
          kbind (create pth T_DIR 0 0) (\<lambda>r. case r of
            None \<Rightarrow> end_fail
          | Some ip \<Rightarrow> kseq (iunlockput ip) (kseq end_op (kret 0)))))"

definition sys_mknod :: "('z fstate_scheme, int) kern" where
  "sys_mknod =
     kseq begin_op
     (kbind (argstr 0) (\<lambda>r. case r of
        None \<Rightarrow> end_fail
      | Some pth \<Rightarrow>
          kbind (argint 1) (\<lambda>r. case r of
            None \<Rightarrow> end_fail
          | Some major \<Rightarrow>
              kbind (argint 2) (\<lambda>r. case r of
                None \<Rightarrow> end_fail
              | Some minor \<Rightarrow>
                  kbind (create pth T_DEV (ucast major) (ucast minor)) (\<lambda>r. case r of
                    None \<Rightarrow> end_fail
                  | Some ip \<Rightarrow> kseq (iunlockput ip) (kseq end_op (kret 0)))))))"

definition sys_chdir :: "('z fstate_scheme, int) kern" where
  "sys_chdir =
     with_proc (\<lambda>c.
     kseq begin_op
     (kbind (argstr 0) (\<lambda>r. case r of
        None \<Rightarrow> end_fail
      | Some pth \<Rightarrow>
          kbind (namei pth) (\<lambda>r. case r of
            None \<Rightarrow> end_fail
          | Some ip \<Rightarrow>
              kseq (ilock (Some ip))
              (kbind (kget (\<lambda>s. i_type (icache s ip))) (\<lambda>t.
               if t \<noteq> T_DIR then kseq (iunlockput ip) end_fail
               else
                 kseq (iunlock (Some ip))
                 (kbind (kget (\<lambda>s. cwd (ptable s c))) (\<lambda>d.
                  kseq (case d of None \<Rightarrow> kundef | Some i \<Rightarrow> iput i)
                  (kseq end_op
                  (kseq (kmod_proc c (\<lambda>x. x\<lparr>cwd := Some ip\<rparr>)) (kret 0)))))))))))"

section \<open>exec and pipe\<close>

fun sys_exec_args :: "nat \<Rightarrow> u32 \<Rightarrow> ('z fstate_scheme, bytes list option) kern" where
  "sys_exec_args 0 uargv = kret None"
| "sys_exec_args (Suc n) uargv =
     kbind (fetchint uargv) (\<lambda>r. case r of
       None \<Rightarrow> kret None
     | Some uarg \<Rightarrow>
         if uarg = 0 then kret (Some [])
         else kbind (fetchstr uarg) (\<lambda>r. case r of
                None \<Rightarrow> kret None
              | Some a \<Rightarrow> kbind (sys_exec_args n (uargv + 4)) (\<lambda>r. kret (map_option (\<lambda>as. a # as) r))))"

definition sys_exec :: "('z fstate_scheme, int) kern" where
  "sys_exec =
     kbind (argstr 0) (\<lambda>r. case r of
       None \<Rightarrow> kret (- 1)
     | Some pth \<Rightarrow>
         kbind (argint 1) (\<lambda>r. case r of
           None \<Rightarrow> kret (- 1)
         | Some uargv \<Rightarrow>
             kbind (sys_exec_args MAXARG uargv) (\<lambda>r. case r of
               None \<Rightarrow> kret (- 1)
             | Some argv \<Rightarrow> exec pth argv)))"

definition clear_fd :: "nat \<Rightarrow> ('z pstate_t_scheme, unit) kern" where
  "clear_fd fd = with_proc (\<lambda>c. kmod_proc c (\<lambda>x. x\<lparr>ofile := (ofile x)[fd := None]\<rparr>))"

definition sys_pipe :: "('z fstate_scheme, int) kern" where
  "sys_pipe =
     kbind (argptr 0 8) (\<lambda>r. case r of
       None \<Rightarrow> kret (- 1)
     | Some p \<Rightarrow>
         kbind pipealloc (\<lambda>r. case r of
           None \<Rightarrow> kret (- 1)
         | Some (rf, wrf) \<Rightarrow>
             kbind (fdalloc rf) (\<lambda>r. case r of
               None \<Rightarrow> kseq (fileclose rf) (kseq (fileclose wrf) (kret (- 1)))
             | Some fd0 \<Rightarrow>
                 kbind (fdalloc wrf) (\<lambda>r. case r of
                   None \<Rightarrow> kseq (clear_fd fd0) (kseq (fileclose rf) (kseq (fileclose wrf) (kret (- 1))))
                 | Some fd1 \<Rightarrow>
                     kseq (ustore p (le32 (of_nat fd0) @ le32 (of_nat fd1))) (kret 0)))))"

end
