(* ===== verification/Kbd.thy ===== *)
theory Kbd
  imports Console
begin

text \<open>
  The keyboard, \<^verbatim>\<open>src/xv6/kbd.c\<close> with the tables of \<^verbatim>\<open>src/xv6/kbd.h\<close>. What the controller
  delivers is an argument: \<open>None\<close> when there is no data, otherwise the scan code; the static variable
  \<^verbatim>\<open>shift\<close> is passed along.
\<close>

section \<open>Tables\<close>

definition SHIFT :: u32 where "SHIFT = 1"
definition CTL :: u32 where "CTL = 2"
definition ALT :: u32 where "ALT = 4"
definition CAPSLOCK :: u32 where "CAPSLOCK = 8"
definition NUMLOCK :: u32 where "NUMLOCK = 16"
definition SCROLLLOCK :: u32 where "SCROLLLOCK = 32"
definition E0ESC :: u32 where "E0ESC = 64"

text \<open>An array initialiser: leading entries in order, then designated ones; the rest is zero.\<close>

definition tab :: "u8 list \<Rightarrow> (nat \<times> u8) list \<Rightarrow> nat \<Rightarrow> u8" where
  "tab xs ds i = (case map_of ds i of Some v \<Rightarrow> v | None \<Rightarrow> if i < length xs then xs ! i else 0)"

definition shiftcode :: "nat \<Rightarrow> u32" where
  "shiftcode i = (if i = 0x1D \<or> i = 0x9D then CTL else if i = 0x2A \<or> i = 0x36 then SHIFT
     else if i = 0x38 \<or> i = 0xB8 then ALT else 0)"

definition togglecode :: "nat \<Rightarrow> u32" where
  "togglecode i = (if i = 0x3A then CAPSLOCK else if i = 0x45 then NUMLOCK
     else if i = 0x46 then SCROLLLOCK else 0)"

definition normalmap :: "nat \<Rightarrow> u8" where
  "normalmap = tab
    [0, 27, 49, 50, 51, 52, 53, 54, 55, 56, 57, 48, 45, 61, 8, 9,
     113, 119, 101, 114, 116, 121, 117, 105, 111, 112, 91, 93, 10, 0, 97, 115,
     100, 102, 103, 104, 106, 107, 108, 59, 39, 96, 0, 92, 122, 120, 99, 118,
     98, 110, 109, 44, 46, 47, 0, 42, 0, 32, 0, 0, 0, 0, 0, 0,
     0, 0, 0, 0, 0, 0, 0, 55, 56, 57, 45, 52, 53, 54, 43, 49,
     50, 51, 48, 46, 0, 0, 0, 0]
    [(0x9c, 10), (0xb5, 47), (0xc8, 0xe2), (0xd0, 0xe3), (0xc9, 0xe6), (0xd1, 0xe7), (0xcb, 0xe4), (0xcd, 0xe5), (0x97, 0xe0), (0xcf, 0xe1), (0xd2, 0xe8), (0xd3, 0xe9)]"

definition shiftmap :: "nat \<Rightarrow> u8" where
  "shiftmap = tab
    [0, 27, 33, 64, 35, 36, 37, 94, 38, 42, 40, 41, 95, 43, 8, 9,
     81, 87, 69, 82, 84, 89, 85, 73, 79, 80, 123, 125, 10, 0, 65, 83,
     68, 70, 71, 72, 74, 75, 76, 58, 34, 126, 0, 124, 90, 88, 67, 86,
     66, 78, 77, 60, 62, 63, 0, 42, 0, 32, 0, 0, 0, 0, 0, 0,
     0, 0, 0, 0, 0, 0, 0, 55, 56, 57, 45, 52, 53, 54, 43, 49,
     50, 51, 48, 46, 0, 0, 0, 0]
    [(0x9c, 10), (0xb5, 47), (0xc8, 0xe2), (0xd0, 0xe3), (0xc9, 0xe6), (0xd1, 0xe7), (0xcb, 0xe4), (0xcd, 0xe5), (0x97, 0xe0), (0xcf, 0xe1), (0xd2, 0xe8), (0xd3, 0xe9)]"

definition ctlmap :: "nat \<Rightarrow> u8" where
  "ctlmap = tab
    [0, 0, 0, 0, 0, 0, 0, 0, 0, 0, 0, 0, 0, 0, 0, 0,
     17, 23, 5, 18, 20, 25, 21, 9, 15, 16, 0, 0, 13, 0, 1, 19,
     4, 6, 7, 8, 10, 11, 12, 0, 0, 0, 0, 28, 26, 24, 3, 22,
     2, 14, 13, 0, 0, 239, 0, 0]
    [(0x9c, 13), (0xb5, 0xef), (0xc8, 0xe2), (0xd0, 0xe3), (0xc9, 0xe6), (0xd1, 0xe7), (0xcb, 0xe4), (0xcd, 0xe5), (0x97, 0xe0), (0xcf, 0xe1), (0xd2, 0xe8), (0xd3, 0xe9)]"

section \<open>Reading a key\<close>

definition charcode :: "u32 \<Rightarrow> nat \<Rightarrow> u8" where
  "charcode k = (if k = 0 then normalmap else if k = 1 then shiftmap else ctlmap)"

definition caps_swap :: "u32 \<Rightarrow> u32" where
  "caps_swap c = (if 97 \<le> c \<and> c \<le> 122 then c + (65 - 97)
     else if 65 \<le> c \<and> c \<le> 90 then c + (97 - 65) else c)"

definition kbdgetc :: "u8 option \<Rightarrow> u32 \<Rightarrow> int \<times> u32" where
  "kbdgetc inp shift = (case inp of
     None \<Rightarrow> (- 1, shift)
   | Some d \<Rightarrow>
       let data = ucast d :: u32 in
       if data = 0xE0 then (0, shift OR E0ESC)
       else if data AND 0x80 \<noteq> 0 then
         (let data = (if shift AND E0ESC \<noteq> 0 then data else data AND 0x7F) in
          (0, shift AND NOT (shiftcode (unat data) OR E0ESC)))
       else
         let (data, shift) =
               (if shift AND E0ESC \<noteq> 0 then (data OR 0x80, shift AND NOT E0ESC) else (data, shift));
             shift = shift OR shiftcode (unat data);
             shift = shift XOR togglecode (unat data);
             c = ucast (charcode (shift AND (CTL OR SHIFT)) (unat data)) :: u32
         in (sint (if shift AND CAPSLOCK \<noteq> 0 then caps_swap c else c), shift))"

text \<open>\<open>kbdintr\<close> hands the keys on until the controller has no more data.\<close>

fun kbd_keys :: "u8 list \<Rightarrow> u32 \<Rightarrow> int list \<times> u32" where
  "kbd_keys [] shift = ([], shift)"
| "kbd_keys (d # ds) shift =
     (let (c, shift1) = kbdgetc (Some d) shift; (cs, shift2) = kbd_keys ds shift1 in (c # cs, shift2))"

definition kbdintr :: "u8 list \<Rightarrow> u32 \<Rightarrow> ('z cstate_scheme, u32) kern" where
  "kbdintr ds shift = (let (cs, shift') = kbd_keys ds shift in kseq (consoleintr cs) (kret shift'))"

end
