(* ===== verification/Trap.thy ===== *)
theory Trap
  imports Sysfile Kbd
begin

text \<open>
  The process system calls (\<^verbatim>\<open>src/xv6/sysproc.c\<close>), the dispatch (\<^verbatim>\<open>src/xv6/syscall.c\<close>) and
  \<^verbatim>\<open>trap\<close> (\<^verbatim>\<open>src/xv6/trap.c\<close>). \<^verbatim>\<open>syscall.h\<close> defines \<^verbatim>\<open>SYS_pscnt\<close> twice, as 25 and as 26, and
  \<^verbatim>\<open>SYS_pgcnt\<close> nowhere: the table here has \<^verbatim>\<open>sys_pscnt\<close> under the last of the two numbers, and
  \<^verbatim>\<open>sys_pgcnt\<close> has no number. What the devices deliver to the interrupt handlers is an argument of
  \<open>trap\<close>; acknowledging an interrupt (\<^verbatim>\<open>lapiceoi\<close>) has no effect on the modelled state.
\<close>

section \<open>Process system calls\<close>

definition sys_fork :: "('z fstate_scheme, int) kern" where
  "sys_fork = fork"

definition sys_exit :: "('z fstate_scheme, int) kern" where
  "sys_exit = kseq exit (kret 0)"

definition sys_wait :: "('z fstate_scheme, int) kern" where
  "sys_wait = wait"

definition sys_kill :: "('z fstate_scheme, int) kern" where
  "sys_kill = kbind (argint 0) (\<lambda>r. case r of None \<Rightarrow> kret (- 1) | Some k \<Rightarrow> kill (sint k))"

definition sys_getpid :: "('z fstate_scheme, int) kern" where
  "sys_getpid = with_proc (\<lambda>c. kget (\<lambda>s. pid (ptable s c)))"

definition sys_sbrk :: "('z fstate_scheme, int) kern" where
  "sys_sbrk =
     kbind (argint 0) (\<lambda>r. case r of
       None \<Rightarrow> kret (- 1)
     | Some n \<Rightarrow>
         with_proc (\<lambda>c.
         kbind (kget (\<lambda>s. sint (sz (ptable s c)))) (\<lambda>addr.
         kbind (growproc (sint n)) (\<lambda>r.
         kret (if r < 0 then - 1 else addr)))))"

text \<open>The comparison of \<open>sys_sleep\<close> is unsigned.\<close>

definition sys_sleep_try :: "u32 \<Rightarrow> u32 \<Rightarrow> ('z sstate_scheme, int) kern" where
  "sys_sleep_try n ticks0 =
     kbind (kget (\<lambda>s. ticks s)) (\<lambda>t.
     if t - ticks0 < n then
       kbind mykilled (\<lambda>k.
       if k then kseq (release TicksLk) (kret (- 1))
       else kseq (sleep_on (Some ChanTicks) (Some TicksLk)) khang)
     else kseq (release TicksLk) (kret 0))"

definition sys_sleep :: "('z sstate_scheme, int) kern" where
  "sys_sleep =
     kbind (argint 0) (\<lambda>r. case r of
       None \<Rightarrow> kret (- 1)
     | Some n \<Rightarrow>
         kseq (acquire TicksLk)
         (kbind (kget (\<lambda>s. ticks s)) (\<lambda>t. sys_sleep_try n t)))"

definition sys_sleep_resume :: "nat \<Rightarrow> u32 \<Rightarrow> u32 \<Rightarrow> ('z sstate_scheme, int) kern" where
  "sys_sleep_resume p n ticks0 = kseq (sleep_return p TicksLk) (sys_sleep_try n ticks0)"

definition sys_uptime :: "('z sstate_scheme, int) kern" where
  "sys_uptime =
     kseq (acquire TicksLk)
     (kbind (kget (\<lambda>s. ticks s)) (\<lambda>t. kseq (release TicksLk) (kret (sint t))))"

definition sys_trace :: "('z sstate_scheme, int) kern" where
  "sys_trace =
     kbind (argint 0) (\<lambda>r. case r of
       None \<Rightarrow> kret (- 1)
     | Some n \<Rightarrow> kseq (kmod (\<lambda>s. s\<lparr>trace := sint n\<rparr>)) (kret 0))"

definition sys_answer :: "('z fstate_scheme, int) kern" where
  "sys_answer = kret 42"

definition sys_getppid :: "('z fstate_scheme, int) kern" where
  "sys_getppid = with_proc (\<lambda>c.
     kbind (kget (\<lambda>s. parent (ptable s c))) (\<lambda>p. case p of
       None \<Rightarrow> kundef
     | Some q \<Rightarrow> kget (\<lambda>s. pid (ptable s q))))"

definition pgcnt_table :: "mem \<Rightarrow> u32 \<Rightarrow> nat" where
  "pgcnt_table m pgtab =
     length (filter (\<lambda>j. load32 m (pgtab + 4 * of_nat j) AND (PTE_P OR PTE_U) = PTE_P OR PTE_U) [0..<NPTENTRIES])"

definition pgcnt :: "mem \<Rightarrow> u32 \<Rightarrow> nat" where
  "pgcnt m pgd = sum_list (map (\<lambda>i.
     let e = load32 m (pgd + 4 * of_nat i) in
     if present e then pgcnt_table m (P2V (PTE_ADDR e)) else 0) [0..<NPDENTRIES])"

definition sys_pgcnt :: "('z fstate_scheme, int) kern" where
  "sys_pgcnt = with_proc (\<lambda>c. kget (\<lambda>s. int (pgcnt (pmem s) (pgdir (ptable s c)))))"

section \<open>Dispatch\<close>

definition syscalls :: "(int \<times> string \<times> ('z sstate_scheme, int) kern) list" where
  "syscalls =
     [(1, ''sys_fork'', sys_fork), (2, ''sys_exit'', sys_exit), (3, ''sys_wait'', sys_wait),
      (4, ''sys_pipe'', sys_pipe), (5, ''sys_read'', sys_read), (6, ''sys_kill'', sys_kill),
      (7, ''sys_exec'', sys_exec), (8, ''sys_fstat'', sys_fstat), (9, ''sys_chdir'', sys_chdir),
      (10, ''sys_dup'', sys_dup), (11, ''sys_getpid'', sys_getpid), (12, ''sys_sbrk'', sys_sbrk),
      (13, ''sys_sleep'', sys_sleep), (14, ''sys_uptime'', sys_uptime), (15, ''sys_open'', sys_open),
      (16, ''sys_write'', sys_write), (17, ''sys_mknod'', sys_mknod), (18, ''sys_unlink'', sys_unlink),
      (19, ''sys_link'', sys_link), (20, ''sys_mkdir'', sys_mkdir), (21, ''sys_close'', sys_close),
      (22, ''sys_trace'', sys_trace), (23, ''sys_answer'', sys_answer),
      (24, ''sys_getppid'', sys_getppid), (26, ''sys_pscnt'', sys_pscnt)]"

definition set_eax :: "nat \<Rightarrow> int \<Rightarrow> ('z pstate_t_scheme, unit) kern" where
  "set_eax c r = kmod_proc c (\<lambda>x. x\<lparr>tf := (tf x)\<lparr>tf_eax := of_int r\<rparr>\<rparr>)"

definition syscall :: "('z sstate_scheme, unit) kern" where
  "syscall =
     with_proc (\<lambda>c.
     kbind (kget (\<lambda>s. sint (tf_eax (tf (ptable s c))))) (\<lambda>num.
     case map_of syscalls num of
       Some (name, handler) \<Rightarrow>
         kbind handler (\<lambda>r.
         kseq (set_eax c r)
         (kbind (kget (\<lambda>s. trace s)) (\<lambda>tr.
          kwhen (tr > 0)
            (cprintf (msg ''[%d] %s: %d\<newline>'') [ArgWord (of_int num), ArgStr (Some (msg name)), ArgWord (of_int r)]))))
     | None \<Rightarrow>
         kbind (kget (\<lambda>s. ptable s c)) (\<lambda>p.
         kseq (cprintf (msg ''%d %s: unknown sys call %d\<newline>'')
           [ArgWord (of_int (pid p)), ArgStr (Some (pname p)), ArgWord (of_int num)])
         (set_eax c (- 1)))))"

section \<open>Traps\<close>

definition T_SYSCALL :: u32 where "T_SYSCALL = 64"
definition T_IRQ0 :: u32 where "T_IRQ0 = 32"
definition IRQ_TIMER :: u32 where "IRQ_TIMER = 0"
definition IRQ_KBD :: u32 where "IRQ_KBD = 1"
definition IRQ_COM1 :: u32 where "IRQ_COM1 = 4"
definition IRQ_IDE :: u32 where "IRQ_IDE = 14"
definition IRQ_SPURIOUS :: u32 where "IRQ_SPURIOUS = 31"

text \<open>What the keyboard controller and the serial port deliver, and the fault address register.\<close>

record devin =
  di_kbd :: "u8 list"
  di_uart :: "int list"
  di_cr2 :: u32

definition exit_if_killed :: "('z fstate_scheme, unit) kern" where
  "exit_if_killed = with_proc (\<lambda>c. kbind (kget (\<lambda>s. killed (ptable s c))) (\<lambda>k. kwhen k exit))"

definition timer_tick :: "('z sstate_scheme, unit) kern" where
  "timer_tick =
     kbind cpuid (\<lambda>id.
     kwhen (id = 0)
       (kseq (acquire TicksLk)
       (kseq (kmod (\<lambda>s. s\<lparr>ticks := ticks s + 1\<rparr>))
       (kseq (wakeup (Some ChanTicks))
        (release TicksLk)))))"

text \<open>The default case of the switch: a fault.\<close>

definition trap_fault :: "trapframe \<Rightarrow> u32 \<Rightarrow> ('z sstate_scheme, unit) kern" where
  "trap_fault tfr cr2 =
     kbind myproc (\<lambda>mp. case mp of
       None \<Rightarrow> kpanic ''trap''
     | Some c \<Rightarrow>
         if tf_cs tfr AND 3 = 0 then kpanic ''trap''
         else
           kbind (kget (\<lambda>s. ptable s c)) (\<lambda>p.
           kbind cpuid (\<lambda>id.
           kseq (cprintf (msg ''pid %d %s: trap %d err %d on cpu %d eip 0x%x addr 0x%x--kill proc\<newline>'')
             [ArgWord (of_int (pid p)), ArgStr (Some (pname p)), ArgWord (tf_trapno tfr), ArgWord (tf_err tfr),
              ArgWord (of_nat id), ArgWord (tf_eip tfr), ArgWord cr2])
           (kmod_proc c (\<lambda>x. x\<lparr>killed := True\<rparr>)))))"

definition trap_dispatch :: "trapframe \<Rightarrow> devin \<Rightarrow> ('z sstate_scheme, unit) kern" where
  "trap_dispatch tfr di =
     (let no = tf_trapno tfr in
      if no = T_IRQ0 + IRQ_TIMER then timer_tick
      else if no = T_IRQ0 + IRQ_IDE then kret ()
      else if no = T_IRQ0 + IRQ_IDE + 1 then kret ()
      else if no = T_IRQ0 + IRQ_KBD then
        kbind (kget (\<lambda>s. kbd_shift s)) (\<lambda>sh.
        kbind (kbdintr (di_kbd di) sh) (\<lambda>sh'.
        kmod (\<lambda>s. s\<lparr>kbd_shift := sh'\<rparr>)))
      else if no = T_IRQ0 + IRQ_COM1 then consoleintr (di_uart di)
      else if no = T_IRQ0 + 7 \<or> no = T_IRQ0 + IRQ_SPURIOUS then
        kbind cpuid (\<lambda>id.
        cprintf (msg ''cpu%d: spurious interrupt at %x:%x\<newline>'')
          [ArgWord (of_nat id), ArgWord (ucast (tf_cs tfr)), ArgWord (tf_eip tfr)])
      else trap_fault tfr (di_cr2 di))"

text \<open>The test before the exits at the end of \<open>trap\<close>.\<close>

definition killed_in_user :: "trapframe \<Rightarrow> ('z sstate_scheme, bool) kern" where
  "killed_in_user tfr =
     kbind myproc (\<lambda>mp. case mp of
       None \<Rightarrow> kret False
     | Some c \<Rightarrow> kget (\<lambda>s. killed (ptable s c) \<and> tf_cs tfr AND 3 = DPL_USER))"

definition trap :: "trapframe \<Rightarrow> devin \<Rightarrow> ('z sstate_scheme, unit) kern" where
  "trap tfr di =
     (if tf_trapno tfr = T_SYSCALL then
        kseq exit_if_killed
        (kseq (with_proc (\<lambda>c. kmod_proc c (\<lambda>x. x\<lparr>tf := tfr\<rparr>)))
        (kseq syscall
         exit_if_killed))
      else
        kseq (trap_dispatch tfr di)
        (kbind (killed_in_user tfr) (\<lambda>k.
         kseq (kwhen k exit)
         (kbind myproc (\<lambda>mp.
          kbind (case mp of None \<Rightarrow> kret False | Some c \<Rightarrow> kget (\<lambda>s. pstate (ptable s c) = RUNNING)) (\<lambda>run.
          kseq (kwhen (run \<and> tf_trapno tfr = T_IRQ0 + IRQ_TIMER) yield)
          (kbind (killed_in_user tfr) (\<lambda>k. kwhen k exit))))))))"

end
