(* ===== verification/Fs_Spec.thy ===== *)
theory Fs_Spec
  imports Fs
begin

text \<open>
  File contents as byte sequences. \<open>fblk\<close> is the block that holds the \<open>k\<close>-th block of a file and
  \<open>fbyte\<close> the byte at an offset, both read off the blocks a transaction sees. \<open>readi\<close> returns
  these bytes; \<open>writei\<close> inside the allocated part replaces them.
\<close>

section \<open>The block map\<close>

definition fblk :: "(nat \<Rightarrow> bytes) \<Rightarrow> inode \<Rightarrow> nat \<Rightarrow> nat" where
  "fblk v ip k = (if k < NDIRECT then unat (i_addrs ip ! k)
     else unat (get32 (v (unat (i_addrs ip ! NDIRECT))) (4 * (k - NDIRECT))))"

definition fbyte :: "(nat \<Rightarrow> bytes) \<Rightarrow> inode \<Rightarrow> nat \<Rightarrow> u8" where
  "fbyte v ip off = v (fblk v ip (off div BSIZE)) ! (off mod BSIZE)"

text \<open>The \<open>k\<close>-th block of the file is allocated and on the disk.\<close>

definition mapped :: "nat \<Rightarrow> (nat \<Rightarrow> bytes) \<Rightarrow> inode \<Rightarrow> nat \<Rightarrow> bool" where
  "mapped nb v ip k \<longleftrightarrow> k < MAXFILE \<and> fblk v ip k \<noteq> 0 \<and> fblk v ip k < nb
     \<and> (NDIRECT \<le> k \<longrightarrow> i_addrs ip ! NDIRECT \<noteq> 0 \<and> unat (i_addrs ip ! NDIRECT) < nb)"

text \<open>A transaction that holds no buffer.\<close>

abbreviation tidle :: "('z istate_scheme) \<Rightarrow> (nat \<Rightarrow> bytes) \<Rightarrow> nat list \<Rightarrow> (nat \<Rightarrow> inode)
    \<Rightarrow> (nat \<Rightarrow> sleeplock) \<Rightarrow> ('z istate_scheme) \<Rightarrow> bool" where
  "tidle s0 v L ic il s \<equiv> tst s0 Map.empty {} v L ic il s"

lemma wp_bmap_mapped:
  assumes t: "tidle s0 v L ic il s" and dev: "i_dev (ic i) = 1" and m: "mapped (disksize s0) v (ic i) k"
    and Q: "\<And>s'. tidle s0 v L ic il s' \<Longrightarrow> Q (fblk v (ic i) k) s'"
  shows "wp (bmap i k) Q s"
proof (cases "k < NDIRECT")
  case True
  then have "i_addrs (ic i) ! k \<noteq> 0" "fblk v (ic i) k = unat (i_addrs (ic i) ! k)"
    using m by (auto simp: mapped_def fblk_def)
  then show ?thesis using True Q [OF t]
    unfolding bmap_def wp_seqs by (intro wp_t_kget(2) [OF t]) (simp add: wp_kret)
next
  case False
  let ?a = "unat (i_addrs (ic i) ! NDIRECT)"
  have k: "k - NDIRECT < NINDIRECT" and a: "i_addrs (ic i) ! NDIRECT \<noteq> 0" "?a < disksize s0"
    and g: "get32 (v ?a) (4 * (k - NDIRECT)) \<noteq> 0" "fblk v (ic i) k = unat (get32 (v ?a) (4 * (k - NDIRECT)))"
    using m False by (auto simp: mapped_def fblk_def MAXFILE_def)
  have "length L < LOGSIZE" using tstD(4) [OF t] by (simp add: log_is_def)
  then have r: "length L < NBUF" by (simp add: LOGSIZE_def NBUF_def)
  have "wp (bread 1 ?a) (\<lambda>bp. wp (bdata bp) (\<lambda>a. wp (kbind (if get32 a (4 * (k - NDIRECT)) = 0 then
                kbind (balloc (i_dev (ic i))) (\<lambda>addr.
                kbind (bdata bp) (\<lambda>a.
                kseq (set_bdata bp (put32 a (4 * (k - NDIRECT)) (of_nat addr)))
                (kseq (log_write bp)
                 (kret addr))))
              else kret (unat (get32 a (4 * (k - NDIRECT))))) (\<lambda>addr.
       kseq (brelse bp) (kret addr))) Q)) s"
    apply (rule wp_t_bread [OF t a(2)])
      apply (use r in simp_all)[2]
    apply (rule wp_t_bdata, assumption, simp)
    apply (simp add: g(1) wp_seqs wp_kret)
    apply (rule wp_t_brelse, assumption)
      apply simp_all[2]
    apply (simp add: wp_kret flip: g(2))
    by (rule Q)
  then show ?thesis
    unfolding bmap_def wp_seqs using False k a(1)
    by (intro wp_t_kget(2) [OF t]) (simp add: dev wp_kret wp_seqs)
qed

section \<open>readi\<close>

lemma block_of_offset:
  assumes "off mod BSIZE + j < BSIZE"
  shows "(off + j) div BSIZE = off div BSIZE" "(off + j) mod BSIZE = off mod BSIZE + j"
proof -
  have "off + j = BSIZE * (off div BSIZE) + (off mod BSIZE + j)"
    using mult_div_mod_eq [of BSIZE off] by linarith
  then show "(off + j) div BSIZE = off div BSIZE" "(off + j) mod BSIZE = off mod BSIZE + j"
    using assms by (simp_all only: div_mult_self4 mod_mult_self4 div_mult_self2 mod_mult_self2 mod_less div_less)
qed

lemma slice_fbytes:
  assumes "length (v (fblk v ip (off div BSIZE))) = BSIZE" "m \<le> BSIZE - off mod BSIZE"
  shows "slice (off mod BSIZE) m (v (fblk v ip (off div BSIZE))) = map (fbyte v ip) [off..<off + m]"
proof (rule nth_equalityI)
  have lt: "off mod BSIZE < BSIZE" by (simp add: BSIZE_def)
  show "length (slice (off mod BSIZE) m (v (fblk v ip (off div BSIZE)))) = length (map (fbyte v ip) [off..<off + m])"
    using assms lt by simp
  fix j assume "j < length (slice (off mod BSIZE) m (v (fblk v ip (off div BSIZE))))"
  then have j: "j < m" by simp
  then have "off mod BSIZE + j < BSIZE" using assms(2) lt by linarith
  then have "(off + j) div BSIZE = off div BSIZE" "(off + j) mod BSIZE = off mod BSIZE + j"
    by (rule block_of_offset)+
  then show "slice (off mod BSIZE) m (v (fblk v ip (off div BSIZE))) ! j = map (fbyte v ip) [off..<off + m] ! j"
    using j assms lt by (simp add: slice_def fbyte_def)
qed

lemma wp_readi_loop:
  assumes "tidle s0 v L ic il s" "i_dev (ic i) = 1"
    and "\<forall>k. off \<le> k \<and> k < off + left \<longrightarrow> mapped (disksize s0) v (ic i) (k div BSIZE)"
    and "\<And>s'. tidle s0 v L ic il s' \<Longrightarrow> Q (map (fbyte v (ic i)) [off..<off + left]) s'"
  shows "wp (readi_loop i off left) Q s"
  using assms
proof (induction i off left arbitrary: s Q rule: readi_loop.induct)
  case (1 i off left)
  note t = 1(2) and dev = 1(3) and mp = 1(4) and Q = 1(5)
  show ?case
  proof (cases "left = 0")
    case True
    then show ?thesis using Q [OF t] by (simp add: wp_kret readi_loop.simps)
  next
    case False
    let ?m = "min left (BSIZE - off mod BSIZE)"
    let ?b = "fblk v (ic i) (off div BSIZE)"
    have m: "mapped (disksize s0) v (ic i) (off div BSIZE)" using mp False by simp
    have "length L < LOGSIZE" using tstD(4) [OF t] by (simp add: log_is_def)
    then have r: "length L < NBUF" by (simp add: LOGSIZE_def NBUF_def)
    have rest: "wp (readi_loop i (off + ?m) (left - ?m)) Q' s'"
      if "tidle s0 v L ic il s'" "\<And>s''. tidle s0 v L ic il s'' \<Longrightarrow> Q' (map (fbyte v (ic i)) [off + ?m..<off + left]) s''" for s' Q'
      by (rule 1(1) [OF False refl that(1) dev]) (use mp that(2) in auto)
    have "[off..<off + left] = [off..<off + ?m] @ [off + ?m..<off + left]"
      using upt_add_eq_append [of off "off + ?m" "left - ?m"] by simp
    then have cat: "slice (off mod BSIZE) ?m (v ?b) @ map (fbyte v (ic i)) [off + ?m..<off + left]
        = map (fbyte v (ic i)) [off..<off + left]"
      using slice_fbytes [of v "ic i" off ?m] tstD(9) [OF t] by simp
    have "wp (bmap i (off div BSIZE)) (\<lambda>bn. wp (bread 1 bn) (\<lambda>bp. wp (bdata bp) (\<lambda>d. wp (brelse bp)
        (\<lambda>_. wp (readi_loop i (off + ?m) (left - ?m)) (\<lambda>rest. wp (kret (slice (off mod BSIZE) ?m d @ rest)) Q))))) s"
      apply (rule wp_bmap_mapped [OF t dev m])
      apply (rule wp_t_bread, assumption)
         apply (use m r in \<open>simp_all add: mapped_def\<close>)[3]
      apply (rule wp_t_bdata, assumption, simp)
      apply (rule wp_t_brelse, assumption)
        apply simp_all[2]
      apply (rule rest, simp)
      apply (unfold wp_kret cat)
      by (rule Q)
    then show ?thesis
      unfolding readi_loop.simps [of i off left] using False
      by (simp add: Let_def wp_seqs)
        (rule wp_t_kget(2) [OF t], simp add: dev)
  qed
qed

text \<open>How many bytes a read at \<open>off\<close> of \<open>n\<close> bytes delivers.\<close>

definition read_len :: "inode \<Rightarrow> u32 \<Rightarrow> u32 \<Rightarrow> nat" where
  "read_len ip off n = min (unat n) (unat (i_size ip) - unat off)"

lemma wp_readi:
  assumes t: "tidle s0 v L ic il s" and ip: "i_dev (ic i) = 1" "i_type (ic i) \<noteq> T_DEV" "off \<le> i_size (ic i)"
    and nw: "unat off + unat n < 2 ^ 32"
    and mp: "\<forall>k < unat (i_size (ic i)). mapped (disksize s0) v (ic i) (k div BSIZE)"
    and Q: "\<And>s'. tidle s0 v L ic il s' \<Longrightarrow>
      Q (int (read_len (ic i) off n), map (fbyte v (ic i)) [unat off..<unat off + read_len (ic i) off n]) s'"
  shows "wp (readi i off n) Q s"
proof -
  let ?n = "if off + n > i_size (ic i) then i_size (ic i) - off else n"
  have on: "unat (off + n) = unat off + unat n" using nw by (simp add: unat_word_ariths)
  have le: "unat off \<le> unat (i_size (ic i))" using ip(3) by (simp add: word_le_nat_alt)
  have n: "unat ?n = read_len (ic i) off n"
    using on le ip(3) by (auto simp: read_len_def word_less_nat_alt unat_sub)
  have nc: "\<not> (off > i_size (ic i) \<or> off + n < off)"
    using ip(3) on by (auto simp: word_less_nat_alt word_le_nat_alt)
  have "wp (readi_loop i (unat off) (unat ?n)) (\<lambda>bs. wp (kret (int (unat ?n), bs)) Q) s"
    by (rule wp_readi_loop [OF t ip(1)])
      (use mp le Q in \<open>auto simp: n read_len_def wp_kret\<close>)
  then show ?thesis
    unfolding readi_def wp_seqs using ip(2) nc
    by (intro wp_t_kget(2) [OF t]) (simp add: Let_def wp_seqs)
qed

section \<open>writei\<close>

text \<open>No two blocks of the file are the same block, and none is its indirect block.\<close>

definition file_inj :: "(nat \<Rightarrow> bytes) \<Rightarrow> inode \<Rightarrow> nat \<Rightarrow> bool" where
  "file_inj v ip K \<longleftrightarrow> inj_on (fblk v ip) {..<K}
     \<and> (\<forall>k < K. NDIRECT < K \<longrightarrow> fblk v ip k \<noteq> unat (i_addrs ip ! NDIRECT))"

text \<open>\<open>v'\<close> is \<open>v\<close> with \<open>src\<close> written at \<open>off\<close> of the file, whose first \<open>K\<close> blocks are allocated.\<close>

definition written :: "(nat \<Rightarrow> bytes) \<Rightarrow> (nat \<Rightarrow> bytes) \<Rightarrow> inode \<Rightarrow> nat \<Rightarrow> bytes \<Rightarrow> nat \<Rightarrow> bool" where
  "written v v' ip off src K \<longleftrightarrow> (\<forall>k < K. fblk v' ip k = fblk v ip k)
     \<and> (\<forall>j < K * BSIZE. fbyte v' ip j =
          (if off \<le> j \<and> j < off + length src then src ! (j - off) else fbyte v ip j))
     \<and> (\<forall>b. b \<notin> fblk v ip ` {..<K} \<longrightarrow> v' b = v b)"

lemma written_nil: "written v v ip off [] K"
  by (auto simp: written_def)

lemma written_append:
  assumes "written v v1 ip off xs K" "written v1 v2 ip (off + length xs) ys K"
  shows "written v v2 ip off (xs @ ys) K"
proof -
  have im: "fblk v1 ip ` {..<K} = fblk v ip ` {..<K}" using assms(1) by (auto simp: written_def)
  have "fbyte v2 ip j = (if off \<le> j \<and> j < off + length (xs @ ys) then (xs @ ys) ! (j - off) else fbyte v ip j)"
    if "j < K * BSIZE" for j
    using assms that by (auto simp: written_def nth_append)
  then show ?thesis using assms im by (auto simp: written_def)
qed

lemma file_inj_written: "written v v' ip off src K \<Longrightarrow> file_inj v ip K \<Longrightarrow> file_inj v' ip K"
  by (auto simp: written_def file_inj_def inj_on_def)

lemma mapped_written: "written v v' ip off src K \<Longrightarrow> k < K \<Longrightarrow> mapped nb v ip k \<Longrightarrow> mapped nb v' ip k"
  by (auto simp: written_def mapped_def)

lemma written_block:
  assumes "file_inj v ip K" "off div BSIZE < K" "off mod BSIZE + length src \<le> BSIZE"
    and len: "\<And>b. length (v b) = BSIZE"
  defines "bn \<equiv> fblk v ip (off div BSIZE)"
  shows "written v (v(bn := splice (off mod BSIZE) src (v bn))) ip off src K"
proof -
  let ?v = "v(bn := splice (off mod BSIZE) src (v bn))"
  have fb: "fblk ?v ip k = fblk v ip k" if "k < K" for k
  proof (cases "k < NDIRECT")
    case False
    then have "bn \<noteq> unat (i_addrs ip ! NDIRECT)" using assms(1,2) that by (auto simp: file_inj_def bn_def)
    then show ?thesis using False by (simp add: fblk_def)
  qed (simp add: fblk_def)
  have by1: "fbyte ?v ip j = (if off \<le> j \<and> j < off + length src then src ! (j - off) else fbyte v ip j)"
    if j: "j < K * BSIZE" for j
  proof -
    have jk: "j div BSIZE < K" using j by (simp add: BSIZE_def less_mult_imp_div_less)
    have jm: "j mod BSIZE < BSIZE" by (simp add: BSIZE_def)
    have fj: "fbyte ?v ip j = ?v (fblk v ip (j div BSIZE)) ! (j mod BSIZE)" using fb [OF jk] by (simp add: fbyte_def)
    show ?thesis
    proof (cases "j div BSIZE = off div BSIZE")
      case True
      then have ord: "off \<le> j \<longleftrightarrow> off mod BSIZE \<le> j mod BSIZE"
        "j < off + length src \<longleftrightarrow> j mod BSIZE < off mod BSIZE + length src"
        "j - off = j mod BSIZE - off mod BSIZE"
        using mult_div_mod_eq [of BSIZE off] mult_div_mod_eq [of BSIZE j]
        by (metis nat_add_left_cancel_le, metis add.assoc nat_add_left_cancel_less, metis diff_cancel2 add.commute)
      have "?v bn ! (j mod BSIZE) = (if j mod BSIZE < off mod BSIZE then v bn ! (j mod BSIZE)
         else if j mod BSIZE < off mod BSIZE + length src then src ! (j mod BSIZE - off mod BSIZE) else v bn ! (j mod BSIZE))"
        using nth_splice [of "off mod BSIZE" src "v bn" "j mod BSIZE"] assms(3) len jm by simp
      then show ?thesis using fj True ord by (auto simp: bn_def fbyte_def)
    next
      case False
      then have "fblk v ip (j div BSIZE) \<noteq> bn"
        using assms(1,2) jk by (auto simp: file_inj_def inj_on_def bn_def)
      moreover have "\<not> (off \<le> j \<and> j < off + length src)"
      proof
        assume "off \<le> j \<and> j < off + length src"
        then have "off mod BSIZE + (j - off) < BSIZE" using assms(3) by linarith
        then have "(off + (j - off)) div BSIZE = off div BSIZE" by (rule block_of_offset)
        then show False using False \<open>off \<le> j \<and> j < off + length src\<close> by simp
      qed
      ultimately show ?thesis unfolding fj by (auto simp: fbyte_def)
    qed
  qed
  have "bn \<in> fblk v ip ` {..<K}" using assms(2) by (auto simp: bn_def)
  then show ?thesis using fb by1 by (auto simp: written_def)
qed

lemma tidle_room: "tidle s0 v L ic il s \<Longrightarrow> length L < NBUF"
  using tstD(4) [of s0 Map.empty "{}" v L ic il s] by (auto simp: log_is_def LOGSIZE_def NBUF_def)

text \<open>The number of blocks that \<open>n\<close> bytes at \<open>off\<close> touch.\<close>

definition nblocks :: "nat \<Rightarrow> nat \<Rightarrow> nat" where
  "nblocks off n = (if n = 0 then 0 else (off + n - 1) div BSIZE - off div BSIZE + 1)"

lemma nblocks_step:
  assumes "0 < n" "m = min n (BSIZE - off mod BSIZE)"
  shows "nblocks off n = Suc (nblocks (off + m) (n - m))"
proof -
  define q r where "q = off div BSIZE" and "r = off mod BSIZE"
  have off: "off = BSIZE * q + r" "r < BSIZE" by (simp_all add: q_def r_def BSIZE_def)
  show ?thesis
  proof (cases "n \<le> BSIZE - r")
    case True
    then have m: "m = n" using assms(2) by (simp add: r_def)
    have "(off + n - 1) div BSIZE = q"
      using off True assms(1) by (intro div_nat_eqI) (simp_all add: BSIZE_def)
    then show ?thesis using m assms(1) by (simp add: nblocks_def q_def)
  next
    case False
    then have m: "m = BSIZE - r" using assms(2) by (simp add: r_def)
    have om: "off + m = BSIZE * (q + 1)" using off m by simp
    have "(off + m) div BSIZE = q + 1" unfolding om by (simp add: BSIZE_def)
    moreover have "q + 1 \<le> (off + n - 1) div BSIZE"
      using off False by (simp add: less_eq_div_iff_mult_less_eq BSIZE_def)
    ultimately show ?thesis using False m by (simp add: nblocks_def q_def)
  qed
qed

lemma wp_writei_loop:
  assumes "tidle s0 v L ic il s" "i_dev (ic i) = 1" "file_inj v (ic i) K"
    and "\<forall>k < K. mapped (disksize s0) v (ic i) k \<and> fblk v (ic i) k \<notin> log_blocks s0"
    and "off + length src \<le> K * BSIZE" "length L + nblocks off (length src) \<le> LOGSIZE - 1"
    and "\<And>s' v' L'. tidle s0 v' L' ic il s' \<Longrightarrow> written v v' (ic i) off src K \<Longrightarrow>
      length L' \<le> length L + nblocks off (length src) \<Longrightarrow> Q () s'"
  shows "wp (writei_loop i off src) Q s"
  using assms
proof (induction i off src arbitrary: s v L Q rule: writei_loop.induct)
  case (1 i off src)
  note t = 1(2) and dev = 1(3) and inj = 1(4) and mp = 1(5) and K = 1(6) and room = 1(7) and Q = 1(8)
  show ?case
  proof (cases "src = []")
    case True
    then show ?thesis using Q [OF t] by (simp add: wp_kret written_nil writei_loop.simps)
  next
    case False
    let ?m = "min (length src) (BSIZE - off mod BSIZE)"
    let ?b = "fblk v (ic i) (off div BSIZE)"
    obtain v1 where v1: "v1 = v(?b := splice (off mod BSIZE) (take ?m src) (v ?b))" by simp
    have len: "length (v b) = BSIZE" for b by (rule tstD(9) [OF t])
    have bm: "off mod BSIZE < BSIZE" by (simp add: BSIZE_def)
    have "0 < length src" using False by simp
    then have "off < K * BSIZE" using K by linarith
    then have oK: "off div BSIZE < K" by (rule less_mult_imp_div_less)
    have ml: "length (take ?m src) = ?m" "off mod BSIZE + ?m \<le> BSIZE" using bm by simp_all
    have w: "written v v1 (ic i) off (take ?m src) K"
      unfolding v1 by (rule written_block [OF inj oK]) (use ml len in simp_all)
    have m: "mapped (disksize s0) v (ic i) (off div BSIZE)" "?b \<notin> log_blocks s0" using mp oK by simp_all
    have nb: "nblocks off (length src) = Suc (nblocks (off + ?m) (length (drop ?m src)))"
      using nblocks_step [of "length src" ?m off] False by simp
    have rest: "wp (writei_loop i (off + ?m) (drop ?m src)) Q s'"
      if s': "tidle s0 v1 (ladd ?b L) ic il s'" for s'
    proof (rule 1(1) [OF False refl s' dev file_inj_written [OF w inj]])
      show "\<forall>k < K. mapped (disksize s0) v1 (ic i) k \<and> fblk v1 (ic i) k \<notin> log_blocks s0"
        using mp mapped_written [OF w] w by (auto simp: written_def)
      show "off + ?m + length (drop ?m src) \<le> K * BSIZE" using K by simp
      show "length (ladd ?b L) + nblocks (off + ?m) (length (drop ?m src)) \<le> LOGSIZE - 1"
        using room nb ladd_simps(2) [of ?b L] by linarith
      fix s'' v'' L'' assume "tidle s0 v'' L'' ic il s''" "written v1 v'' (ic i) (off + ?m) (drop ?m src) K"
        "length L'' \<le> length (ladd ?b L) + nblocks (off + ?m) (length (drop ?m src))"
      note h = this
      have "written v v'' (ic i) off (take ?m src @ drop ?m src) K"
        by (rule written_append [OF w]) (use h(2) ml(1) in simp)
      then have w': "written v v'' (ic i) off src K" by simp
      show "Q () s''"
        by (rule Q [OF h(1) w']) (use h(3) nb ladd_simps(2) [of ?b L] in linarith)
    qed
    have lr: "length L < LOGSIZE - 1" using room nb by linarith
    have "wp (bmap i (off div BSIZE)) (\<lambda>bn. wp (bread 1 bn) (\<lambda>bp. wp (bdata bp) (\<lambda>d.
        wp (set_bdata bp (splice (off mod BSIZE) (take ?m src) d)) (\<lambda>_. wp (log_write bp) (\<lambda>_. wp (brelse bp)
        (\<lambda>_. wp (writei_loop i (off + ?m) (drop ?m src)) Q)))))) s"
      apply (rule wp_bmap_mapped [OF t dev m(1)])
      apply (rule wp_t_bread, assumption)
         apply (use m tidle_room [OF t] in \<open>simp_all add: mapped_def\<close>)[3]
      apply (rule wp_t_bdata, assumption, simp)
      apply (rule wp_t_set_bdata, assumption, simp)
       apply (use len ml in simp)
      apply (rule wp_t_log_write, assumption, simp, rule lr, rule m)
      apply (rule wp_t_brelse, assumption)
        apply simp_all[2]
      apply (rule rest)
      by (simp add: v1)
    then show ?thesis
      unfolding writei_loop.simps [of i off src] using False
      by (simp add: Let_def wp_seqs)
        (rule wp_t_kget(2) [OF t], simp add: dev)
  qed
qed

text \<open>\<open>writei\<close> inside the file: the size does not grow, so the inode is not written.\<close>

lemma wp_writei_inplace:
  assumes t: "tidle s0 v L ic il s" and ip: "i_dev (ic i) = 1" "i_type (ic i) \<noteq> T_DEV"
    and sz: "unat off + length src \<le> unat (i_size (ic i))" "unat (i_size (ic i)) \<le> K * BSIZE" "K \<le> MAXFILE"
    and inj: "file_inj v (ic i) K"
    and mp: "\<forall>k < K. mapped (disksize s0) v (ic i) k \<and> fblk v (ic i) k \<notin> log_blocks s0"
    and room: "length L + nblocks (unat off) (length src) \<le> LOGSIZE - 1"
    and Q: "\<And>s' v' L'. tidle s0 v' L' ic il s' \<Longrightarrow> written v v' (ic i) (unat off) src K \<Longrightarrow>
      length L' \<le> length L + nblocks (unat off) (length src) \<Longrightarrow> Q (int (length src)) s'"
  shows "wp (writei i src off) Q s"
proof -
  let ?n = "of_nat (length src) :: u32"
  have K: "K * BSIZE \<le> MAXFILE * BSIZE" using sz(3) by simp
  have small: "MAXFILE * BSIZE = 71680" by (simp add: MAXFILE_def NDIRECT_def NINDIRECT_def BSIZE_def)
  have n: "unat ?n = length src" using sz K small by (simp add: unat_of_nat32)
  have on: "unat (off + ?n) = unat off + length src"
    using sz K small n by (simp add: unat_word_ariths)
  have c: "\<not> (off > i_size (ic i) \<or> off + ?n < off)" "\<not> off + ?n > of_nat (MAXFILE * BSIZE)"
    "\<not> off + ?n > i_size (ic i)"
    using on n sz K small by (auto simp: word_less_nat_alt)
  have "wp (writei_loop i (unat off) src) (\<lambda>_. wp (kget (\<lambda>s. i_size (icache s i))) (\<lambda>sz.
      wp (kwhen (?n > 0 \<and> off + ?n > sz) (kseq (kmod_inode i (\<lambda>x. x\<lparr>i_size := off + ?n\<rparr>)) (iupdate i)))
      (\<lambda>_. wp (kret (int (unat ?n))) Q))) s"
    apply (rule wp_writei_loop [OF t ip(1) inj mp _ room])
     apply (use sz in simp)
    apply (rule wp_t_kget(2), assumption)
    apply (simp add: c(3) wp_kwhen wp_kret n)
    by (rule Q)
  then show ?thesis
    unfolding writei_def Let_def wp_seqs using ip(2) c(1,2)
    by (intro wp_t_kget(2) [OF t]) (simp add: wp_seqs)
qed

end
