(* ===== verification/Dir_Spec.thy ===== *)
theory Dir_Spec
  imports Fs_Spec
begin

text \<open>
  The inode cache and directories: \<open>iget\<close> keeps one slot per inode, \<open>dirlookup\<close> finds the first entry
  with the name, and what \<open>dirlink\<close> stores is what \<open>dirlookup\<close> reads.
\<close>

section \<open>The inode cache\<close>

definition iget_hit :: "(nat \<Rightarrow> inode) \<Rightarrow> nat \<Rightarrow> nat \<Rightarrow> nat option" where
  "iget_hit ic dev inum =
     find (\<lambda>i. i_ref (ic i) > 0 \<and> i_dev (ic i) = dev \<and> i_inum (ic i) = inum) [0..<NINODE]"

definition iget_free :: "(nat \<Rightarrow> inode) \<Rightarrow> nat option" where
  "iget_free ic = find (\<lambda>i. i_ref (ic i) = 0) [0..<NINODE]"

text \<open>The slot \<open>iget\<close> returns and the cache it leaves; \<open>None\<close> is the panic.\<close>

definition iget_slot :: "(nat \<Rightarrow> inode) \<Rightarrow> nat \<Rightarrow> nat \<Rightarrow> (nat \<times> (nat \<Rightarrow> inode)) option" where
  "iget_slot ic dev inum = (case iget_hit ic dev inum of
      Some i \<Rightarrow> Some (i, ic(i := (ic i)\<lparr>i_ref := i_ref (ic i) + 1\<rparr>))
    | None \<Rightarrow> map_option (\<lambda>i. (i, ic(i := (ic i)\<lparr>i_dev := dev, i_inum := inum, i_ref := 1, i_valid := False\<rparr>)))
                (iget_free ic))"

definition one_slot :: "(nat \<Rightarrow> inode) \<Rightarrow> bool" where
  "one_slot ic \<longleftrightarrow> (\<forall>i < NINODE. \<forall>j < NINODE. i_ref (ic i) > 0 \<and> i_ref (ic j) > 0
     \<and> i_dev (ic i) = i_dev (ic j) \<and> i_inum (ic i) = i_inum (ic j) \<longrightarrow> i = j)"

lemma iget_run:
  assumes "ready s"
  shows "iget dev inum s = (case iget_slot (icache s) dev inum of
      None \<Rightarrow> Panic ''iget: no inodes''
    | Some (i, ic) \<Rightarrow> Ret i (s\<lparr>icache := ic\<rparr>))"
  using assms unfolding iget_def iget_slot_def iget_hit_def iget_free_def
  by (simp add: kexec kmod_inode_def split: option.splits)

lemma iget_hitD:
  "iget_hit ic dev inum = Some i \<Longrightarrow> i < NINODE \<and> i_ref (ic i) > 0 \<and> i_dev (ic i) = dev \<and> i_inum (ic i) = inum"
  unfolding iget_hit_def find_Some_iff by auto

lemma iget_freeD: "iget_free ic = Some i \<Longrightarrow> i < NINODE \<and> i_ref (ic i) = 0"
  unfolding iget_free_def find_Some_iff by auto

lemma iget_hit_None:
  "iget_hit ic dev inum = None \<Longrightarrow> i < NINODE \<Longrightarrow> i_ref (ic i) > 0 \<Longrightarrow> \<not> (i_dev (ic i) = dev \<and> i_inum (ic i) = inum)"
  unfolding iget_hit_def find_None_iff by auto

lemma iget_slot_names:
  assumes "iget_slot ic dev inum = Some (i, ic')"
  shows "i < NINODE" "i_dev (ic' i) = dev" "i_inum (ic' i) = inum" "i_ref (ic' i) > 0" "\<And>j. j \<noteq> i \<Longrightarrow> ic' j = ic j"
  using assms iget_hitD [of ic dev inum i] iget_freeD [of ic i]
  by (auto simp: iget_slot_def split: option.splits)

lemma iget_one_slot:
  assumes one: "one_slot ic" and i: "iget_slot ic dev inum = Some (i, ic')"
  shows "one_slot ic'"
proof (cases "iget_hit ic dev inum")
  case (Some k)
  then have ic': "ic' = ic(i := (ic i)\<lparr>i_ref := i_ref (ic i) + 1\<rparr>)" and r: "i_ref (ic i) > 0"
    using i iget_hitD [OF Some] by (auto simp: iget_slot_def)
  have "i_dev (ic' j) = i_dev (ic j)" "i_inum (ic' j) = i_inum (ic j)" "0 < i_ref (ic' j) \<longleftrightarrow> 0 < i_ref (ic j)" for j
    using r by (simp_all add: ic')
  then show ?thesis using one by (simp add: one_slot_def)
next
  case None
  have same: "ic' j = ic j" if "j \<noteq> i" for j using iget_slot_names(5) [OF i that] .
  have new: "\<not> (i_dev (ic' j) = dev \<and> i_inum (ic' j) = inum)" if "j \<noteq> i" "j < NINODE" "0 < i_ref (ic' j)" for j
    using iget_hit_None [OF None] that by (simp add: same)
  show ?thesis
    unfolding one_slot_def
  proof (intro allI impI, elim conjE)
    fix a b
    assume h: "a < NINODE" "b < NINODE" "0 < i_ref (ic' a)" "0 < i_ref (ic' b)"
      "i_dev (ic' a) = i_dev (ic' b)" "i_inum (ic' a) = i_inum (ic' b)"
    consider "a = i" | "b = i" | "a \<noteq> i" "b \<noteq> i" by blast
    then show "a = b"
    proof cases
      case 1
      then show ?thesis using new [of b] h iget_slot_names(2,3) [OF i] by auto
    next
      case 2
      then show ?thesis using new [of a] h iget_slot_names(2,3) [OF i] by auto
    next
      case 3
      then show ?thesis using one h same [of a] same [of b] unfolding one_slot_def by metis
    qed
  qed
qed

lemma tst_icache:
  assumes t: "tst s0 H M v L ic il s"
  shows "tst s0 H M v L ic' il (s\<lparr>icache := ic'\<rparr>)"
proof -
  note td = tstD [OF t]
  let ?s = "s\<lparr>icache := ic'\<rparr>"
  have "bst ?s H M v (set L) (memdisk s0) (wtrace s0) ?s"
    using bst_update [OF td(1), of "\<lambda>s. s\<lparr>icache := ic'\<rparr>"] by (simp add: bstate.truncate_def)
  moreover have "tframe s ?s" by (simp add: tframe_def)
  then have "tframe s0 ?s" using td(2) tframe_trans by blast
  ultimately show ?thesis using td by (simp add: tst_def log_is_def log_blocks_def)
qed

lemma wp_t_iget:
  assumes t: "tst s0 H M v L ic il s" and i: "iget_slot ic dev inum = Some (i, ic')"
    and Q: "\<And>s'. tst s0 H M v L ic' il s' \<Longrightarrow> Q i s'"
  shows "wp (iget dev inum) Q s"
proof (rule wpI)
  have "ready s" using tstD(1) [OF t] by (simp add: bst_def)
  then show "iget dev inum s = Ret i (s\<lparr>icache := ic'\<rparr>)"
    using i tstD(5) [OF t] by (simp add: iget_run)
  show "Q i (s\<lparr>icache := ic'\<rparr>)" by (rule Q [OF tst_icache [OF t]])
qed

section \<open>Directory entries\<close>

lemma enc_dec_dirent:
  assumes "length (de_name de) = DIRSIZ"
  shows "dec_dirent (enc_dirent de) = de"
  using assms by (cases de) (simp add: dec_dirent_def enc_dirent_def get16_def slice_def)

lemma length_name_copy [simp]: "length (name_copy t) = DIRSIZ"
  by (simp add: name_copy_def)

lemma cstr_pad: "0 \<notin> set t \<Longrightarrow> cstr (t @ replicate n 0) = t"
  unfolding cstr_def by (induction t) (auto simp: takeWhile_replicate)

lemma cstr_no_nul: "0 \<notin> set (cstr t)"
  by (auto simp: cstr_def dest: set_takeWhileD)

lemma take_pad: "take n (xs @ replicate n y) = take n xs @ replicate (n - length xs) y"
  by (simp add: min_def)

text \<open>The name \<open>dirlink\<close> stores compares equal to the name it was given.\<close>

lemma namecmp_copy: "namecmp_eq name (name_copy name)"
proof -
  have "takeWhile P (take n xs) = take n (takeWhile P xs)" for P n and xs :: bytes
    by (induction xs arbitrary: n) (auto simp: take_Cons')
  then have "cstr (take DIRSIZ name) = take DIRSIZ (cstr name)" by (simp add: cstr_def)
  moreover have "cstr (name_copy name) = take DIRSIZ (cstr name)"
    unfolding name_copy_def take_pad using cstr_no_nul [of name]
    by (intro cstr_pad) (auto dest: in_set_takeD)
  ultimately show ?thesis by (simp add: namecmp_eq_def)
qed

text \<open>The \<open>k\<close>-th entry of a directory, and the entry \<open>dirlookup\<close> looks for.\<close>

definition dent :: "(nat \<Rightarrow> bytes) \<Rightarrow> inode \<Rightarrow> nat \<Rightarrow> dirent" where
  "dent v ip k = dec_dirent (map (fbyte v ip) [16 * k..<16 * k + 16])"

definition dent_is :: "(nat \<Rightarrow> bytes) \<Rightarrow> inode \<Rightarrow> bytes \<Rightarrow> nat \<Rightarrow> bool" where
  "dent_is v ip name k \<longleftrightarrow> de_inum (dent v ip k) \<noteq> 0 \<and> namecmp_eq name (de_name (dent v ip k))"

text \<open>A directory all of whose blocks are allocated, with whole entries.\<close>

definition dir_ok :: "nat \<Rightarrow> (nat \<Rightarrow> bytes) \<Rightarrow> inode \<Rightarrow> bool" where
  "dir_ok nb v ip \<longleftrightarrow> i_dev ip = 1 \<and> i_type ip = T_DIR \<and> unat (i_size ip) mod 16 = 0
     \<and> unat (i_size ip) \<le> MAXFILE * BSIZE
     \<and> (\<forall>k < unat (i_size ip). mapped nb v ip (k div BSIZE))"

lemma wp_read_dent:
  assumes t: "tidle s0 v L ic il s" and d: "dir_ok (disksize s0) v (ic dp)" and k: "16 * k < unat (i_size (ic dp))"
    and Q: "\<And>s' bs. tidle s0 v L ic il s' \<Longrightarrow> dec_dirent bs = dent v (ic dp) k \<Longrightarrow> Q (16, bs) s'"
  shows "wp (readi dp (of_nat (16 * k)) 16) Q s"
proof (rule wp_readi [OF t])
  let ?n = "unat (i_size (ic dp))"
  have n: "?n mod 16 = 0" "?n \<le> 71680"
    using d by (auto simp: dir_ok_def MAXFILE_def NDIRECT_def NINDIRECT_def BSIZE_def)
  obtain q where q: "?n = 16 * q" using n(1) by (metis mod_eq_0_iff_dvd dvdE)
  then have k16: "16 * k + 16 \<le> ?n" using k by simp
  have off: "unat (of_nat (16 * k) :: u32) = 16 * k" using k n(2) by (intro unat_of_nat32) simp
  have rl: "read_len (ic dp) (of_nat (16 * k)) 16 = 16" using k16 off by (simp add: read_len_def)
  show "of_nat (16 * k) \<le> i_size (ic dp)" using k off by (simp add: word_le_nat_alt)
  show "unat (of_nat (16 * k) :: u32) + unat (16 :: u32) < 2 ^ 32" using off k n(2) by simp
  show "Q (int (read_len (ic dp) (of_nat (16 * k)) 16),
      map (fbyte v (ic dp)) [unat (of_nat (16 * k) :: u32)..<unat (of_nat (16 * k) :: u32) + read_len (ic dp) (of_nat (16 * k)) 16]) s'"
    if "tidle s0 v L ic il s'" for s'
    using Q [OF that, of "map (fbyte v (ic dp)) [16 * k..<16 * k + 16]"] unfolding off rl by (simp add: dent_def)
qed (use d in \<open>simp_all add: dir_ok_def T_DIR_def T_DEV_def\<close>)

lemma wp_dirlookup_loop:
  assumes "tidle s0 v L ic il s" "dir_ok (disksize s0) v (ic dp)" "\<forall>k \<in> set ks. 16 * k < unat (i_size (ic dp))"
    and "case find (dent_is v (ic dp) name) ks of
        None \<Rightarrow> (\<forall>s'. tidle s0 v L ic il s' \<longrightarrow> Q None s')
      | Some k \<Rightarrow> (\<exists>i ic'. iget_slot ic 1 (unat (de_inum (dent v (ic dp) k))) = Some (i, ic')
          \<and> (\<forall>s'. tidle s0 v L ic' il s' \<longrightarrow> Q (Some (i, 16 * k)) s'))"
  shows "wp (dirlookup_loop dp name (map (\<lambda>k. 16 * k) ks)) Q s"
  using assms
proof (induction ks arbitrary: s)
  case Nil
  then show ?case by (simp add: wp_kret)
next
  case (Cons k ks)
  note t = Cons.prems(1) and d = Cons.prems(2)
  let ?R = "\<lambda>(r, bs). kseq (panic_if (r \<noteq> 16) ''dirlookup read'')
     (let de = dec_dirent bs in
      if de_inum de = 0 then dirlookup_loop dp name (map (\<lambda>k. 16 * k) ks)
      else if namecmp_eq name (de_name de) then
        kbind (kget (\<lambda>s. i_dev (icache s dp))) (\<lambda>dev.
        kbind (iget dev (unat (de_inum de))) (\<lambda>i. kret (Some (i, 16 * k))))
      else dirlookup_loop dp name (map (\<lambda>k. 16 * k) ks))"
  have "wp (readi dp (of_nat (16 * k)) 16) (\<lambda>a. wp (?R a) Q) s"
  proof (rule wp_read_dent [OF t d])
    show "16 * k < unat (i_size (ic dp))" using Cons.prems(3) by simp
    fix s' bs assume s': "tidle s0 v L ic il s'" and bs: "dec_dirent bs = dent v (ic dp) k"
    have dev: "i_dev (ic dp) = 1" using d by (simp add: dir_ok_def)
    show "wp (?R (16, bs)) Q s'"
    proof (cases "dent_is v (ic dp) name k")
      case True
      then obtain i ic' where i: "iget_slot ic 1 (unat (de_inum (dent v (ic dp) k))) = Some (i, ic')"
        and Q: "\<And>s'. tidle s0 v L ic' il s' \<Longrightarrow> Q (Some (i, 16 * k)) s'"
        using Cons.prems(4) by auto
      have "wp (kget (\<lambda>s. i_dev (icache s dp))) (\<lambda>dev. wp (iget dev (unat (de_inum (dent v (ic dp) k))))
          (\<lambda>i. wp (kret (Some (i, 16 * k))) Q)) s'"
        by (rule wp_t_kget(2) [OF s'], unfold dev, rule wp_t_iget [OF s' i], simp add: wp_kret Q)
      then show ?thesis using True by (simp add: bs Let_def wp_seqs dent_is_def panic_if_def wp_kret)
    next
      case False
      have "wp (dirlookup_loop dp name (map (\<lambda>k. 16 * k) ks)) Q s'"
        by (rule Cons.IH [OF s' d]) (use Cons.prems False in simp_all)
      then show ?thesis using False by (auto simp: bs Let_def wp_seqs dent_is_def panic_if_def wp_kret)
    qed
  qed
  then show ?case by (simp add: wp_seqs)
qed

lemma dir_offs_map: "dir_ok nb v ip \<Longrightarrow> dir_offs (i_size ip) = map (\<lambda>k. 16 * k) [0..<unat (i_size ip) div 16]"
proof -
  assume "dir_ok nb v ip"
  then have "16 dvd unat (i_size ip)" by (simp add: dir_ok_def mod_eq_0_iff_dvd)
  then obtain q where "unat (i_size ip) = 16 * q" by (elim dvdE)
  then have "(unat (i_size ip) + 15) div 16 = unat (i_size ip) div 16" by simp
  then show ?thesis by (simp add: dir_offs_def)
qed

lemma wp_dirlookup:
  assumes t: "tidle s0 v L ic il s" and d: "dir_ok (disksize s0) v (ic dp)"
    and Q: "case find (dent_is v (ic dp) name) [0..<unat (i_size (ic dp)) div 16] of
        None \<Rightarrow> (\<forall>s'. tidle s0 v L ic il s' \<longrightarrow> Q None s')
      | Some k \<Rightarrow> (\<exists>i ic'. iget_slot ic 1 (unat (de_inum (dent v (ic dp) k))) = Some (i, ic')
          \<and> (\<forall>s'. tidle s0 v L ic' il s' \<longrightarrow> Q (Some (i, 16 * k)) s'))"
  shows "wp (dirlookup dp name) Q s"
proof -
  have "wp (dirlookup_loop dp name (map (\<lambda>k. 16 * k) [0..<unat (i_size (ic dp)) div 16])) Q s"
    by (rule wp_dirlookup_loop [OF t d _ Q]) auto
  then show ?thesis unfolding dirlookup_def wp_seqs
    by (intro wp_t_kget(2) [OF t, where g = "\<lambda>x. x"]) (use d in \<open>simp add: wp_panic_if dir_offs_map [OF d] dir_ok_def\<close>)
qed

section \<open>dirlink\<close>

lemma wp_dirlink_scan:
  assumes "tidle s0 v L ic il s" "dir_ok (disksize s0) v (ic dp)" "\<forall>k \<in> set ks. 16 * k < unat (i_size (ic dp))"
    and "\<And>s'. tidle s0 v L ic il s' \<Longrightarrow>
      Q (case find (\<lambda>k. de_inum (dent v (ic dp) k) = 0) ks of Some k \<Rightarrow> 16 * k | None \<Rightarrow> e) s'"
  shows "wp (dirlink_scan dp (map (\<lambda>k. 16 * k) ks) e) Q s"
  using assms
proof (induction ks arbitrary: s)
  case Nil
  then show ?case by (simp add: wp_kret)
next
  case (Cons k ks)
  let ?R = "\<lambda>(r, bs). kseq (panic_if (r \<noteq> 16) ''dirlink read'')
     (if de_inum (dec_dirent bs) = 0 then kret (16 * k) else dirlink_scan dp (map (\<lambda>k. 16 * k) ks) e)"
  have "wp (readi dp (of_nat (16 * k)) 16) (\<lambda>a. wp (?R a) Q) s"
  proof (rule wp_read_dent [OF Cons.prems(1,2)])
    show "16 * k < unat (i_size (ic dp))" using Cons.prems(3) by simp
    fix s' bs assume s': "tidle s0 v L ic il s'" and bs: "dec_dirent bs = dent v (ic dp) k"
    have "wp (dirlink_scan dp (map (\<lambda>k. 16 * k) ks) e) Q s'" if "de_inum (dent v (ic dp) k) \<noteq> 0"
      by (rule Cons.IH [OF s' Cons.prems(2)]) (use Cons.prems(3,4) that in simp_all)
    then show "wp (?R (16, bs)) Q s'"
      using Cons.prems(4) [OF s'] by (auto simp: bs wp_seqs panic_if_def wp_kret)
  qed
  then show ?case by (simp add: wp_seqs)
qed

text \<open>Writing one entry of a directory changes that entry only.\<close>

lemma dent_written:
  assumes w: "written v v' ip (16 * k) (enc_dirent de) K" and l: "length (de_name de) = DIRSIZ"
    and j: "16 * j + 16 \<le> K * BSIZE"
  shows "dent v' ip j = (if j = k then de else dent v ip j)"
proof -
  have e: "length (enc_dirent de) = 16" using l by (simp add: enc_dirent_def le16_def DIRSIZ_def)
  have b: "fbyte v' ip i = (if 16 * k \<le> i \<and> i < 16 * k + 16 then enc_dirent de ! (i - 16 * k) else fbyte v ip i)"
    if "i < 16 * j + 16" for i using w that j e by (simp add: written_def)
  show ?thesis
  proof (cases "j = k")
    case True
    have "map (fbyte v' ip) [16 * j..<16 * j + 16] = enc_dirent de"
      by (rule nth_equalityI) (use e b True in simp_all)
    then show ?thesis using enc_dec_dirent [OF l] True by (simp add: dent_def)
  next
    case False
    then have "map (fbyte v' ip) [16 * j..<16 * j + 16] = map (fbyte v ip) [16 * j..<16 * j + 16]"
      using b by (intro map_cong) auto
    then show ?thesis unfolding dent_def if_not_P [OF False] by (rule arg_cong)
  qed
qed

lemma nblocks_entry: "nblocks (16 * k) 16 = 1"
proof -
  have "(16 * k + 15) div 512 = (16 * k + 15) div 16 div 32" by (simp add: div_mult2_eq [symmetric])
  also have "\<dots> = 16 * k div 512" by (simp add: div_mult2_eq [of _ 16 32, simplified])
  finally have "(16 * k + 15) div 512 = 16 * k div 512" .
  then show ?thesis by (simp add: nblocks_def BSIZE_def)
qed

lemma wp_dirlink:
  assumes t: "tidle s0 v L ic il s" and d: "dir_ok (disksize s0) v (ic dp)"
    and new: "find (dent_is v (ic dp) name) [0..<unat (i_size (ic dp)) div 16] = None"
    and k: "find (\<lambda>k. de_inum (dent v (ic dp) k) = 0) [0..<unat (i_size (ic dp)) div 16] = Some k"
    and K: "unat (i_size (ic dp)) \<le> K * BSIZE" "K \<le> MAXFILE" and inj: "file_inj v (ic dp) K"
    and mp: "\<forall>k < K. mapped (disksize s0) v (ic dp) k \<and> fblk v (ic dp) k \<notin> log_blocks s0"
    and room: "length L + 1 < LOGSIZE"
    and Q: "\<And>s' v' L'. tidle s0 v' L' ic il s' \<Longrightarrow> written v v' (ic dp) (16 * k)
        (enc_dirent \<lparr>de_inum = of_nat inum, de_name = name_copy name\<rparr>) K \<Longrightarrow> Q 0 s'"
  shows "wp (dirlink dp name inum) Q s"
proof -
  let ?de = "enc_dirent \<lparr>de_inum = of_nat inum, de_name = name_copy name\<rparr>" and ?n = "unat (i_size (ic dp))"
  have k16: "16 * k + 16 \<le> ?n" using k by (auto simp: find_Some_iff)
  have small: "?n \<le> 71680" using d by (simp add: dir_ok_def MAXFILE_def NDIRECT_def NINDIRECT_def BSIZE_def)
  have off: "unat (of_nat (16 * k) :: u32) = 16 * k" using k16 small by (intro unat_of_nat32) simp
  have e: "length ?de = 16" by (simp add: enc_dirent_def le16_def DIRSIZ_def)
  have ip: "i_dev (ic dp) = 1" "i_type (ic dp) \<noteq> T_DEV" using d by (simp_all add: dir_ok_def T_DIR_def T_DEV_def)
  have w: "wp (writei dp ?de (of_nat (16 * k))) (\<lambda>r. wp (kseq (panic_if (r \<noteq> 16) ''dirlink'') (kret 0)) Q) s'"
    if "tidle s0 v L ic il s'" for s'
  proof (rule wp_writei_inplace [OF that ip _ K inj mp], unfold off e nblocks_entry)
    show "wp (kseq (panic_if (int 16 \<noteq> 16) ''dirlink'') (kret 0)) Q s1"
      if "tidle s0 v1 L1 ic il s1" "written v v1 (ic dp) (16 * k) ?de K" for s1 v1 L1
      using Q [OF that] by (simp add: wp_seqs wp_panic_if wp_kret)
  qed (use k16 room in simp_all)
  have sc: "wp (dirlink_scan dp (dir_offs (i_size (ic dp))) (16 * ((?n + 15) div 16)))
      (\<lambda>off. wp (writei dp ?de (of_nat off)) (\<lambda>r. wp (kseq (panic_if (r \<noteq> 16) ''dirlink'') (kret 0)) Q)) s'"
    if "tidle s0 v L ic il s'" for s'
    unfolding dir_offs_map [OF d] by (rule wp_dirlink_scan [OF that d]) (auto simp: k simp del: of_nat_mult intro: w)
  have "wp (dirlookup dp name) (\<lambda>r. wp (case r of
       Some (i, off) \<Rightarrow> kseq (iput i) (kret (- 1))
     | None \<Rightarrow>
         kbind (kget (\<lambda>s. i_size (icache s dp))) (\<lambda>sz.
         kbind (dirlink_scan dp (dir_offs sz) (16 * ((unat sz + 15) div 16))) (\<lambda>off.
         kbind (writei dp ?de (of_nat off)) (\<lambda>r. kseq (panic_if (r \<noteq> 16) ''dirlink'') (kret 0))))) Q) s"
  proof (rule wp_dirlookup [OF t d], unfold new option.case, intro allI impI)
    fix s' assume s': "tidle s0 v L ic il s'"
    show "wp (kbind (kget (\<lambda>s. i_size (icache s dp))) (\<lambda>sz.
         kbind (dirlink_scan dp (dir_offs sz) (16 * ((unat sz + 15) div 16))) (\<lambda>off.
         kbind (writei dp ?de (of_nat off)) (\<lambda>r. kseq (panic_if (r \<noteq> 16) ''dirlink'') (kret 0))))) Q s'"
      unfolding wp_seqs(1) by (rule wp_t_kget(2) [OF s']) (rule sc [OF s'])
  qed
  then show ?thesis unfolding dirlink_def wp_seqs(1) .
qed

end
