(* ===== verification/Log_Crash.thy ===== *)
theory Log_Crash
  imports Log_Spec
begin

text \<open>
  Recovery and crash safety of the log. A crash keeps the disk, with some prefix of the writes of
  the running commit applied, and loses everything else; the rebooted kernel runs
  \<open>recover_from_log\<close>. Outside the log area the disk then holds the blocks of before the commit or
  those of after it, never a mixture.
\<close>

section \<open>Reading the header\<close>

definition head_blocks :: "bytes \<Rightarrow> nat \<Rightarrow> nat list" where
  "head_blocks e k = map (\<lambda>i. unat (get32 e (4 + 4 * i))) [0..<k]"

definition with_head :: "bytes \<Rightarrow> ('z lstate_scheme) \<Rightarrow> ('z lstate_scheme)" where
  "with_head e s = (let n = sint (get32 e 0) in
     s\<lparr>lh_n := n, lh_block := head_blocks e (nat n) @ drop (nat n) (lh_block s)\<rparr>)"

lemma bst_same: "bst s0 H M v D d w s \<Longrightarrow> s0 = s1 \<Longrightarrow> bst s1 H M v D d w s"
  by simp

lemma wp_read_head:
  fixes s :: "'z lstate_scheme"
  assumes st: "idle s0 v D d w s" and ok: "log_geom s0" "card D < NBUF"
    and n: "sint (get32 (v (lg_start s0)) 0) \<le> int LOGSIZE"
    and Q: "\<And>s'. idle (with_head (v (lg_start s0)) s0) v D d w s' \<Longrightarrow> Q () s'"
  shows "wp read_head Q s"
  unfolding read_head_def wp_seqs
proof (rule wp_get_log [OF st])+
  let ?a = "lg_start s0"
  let ?e = "v ?a"
  let ?n = "sint (get32 ?e 0)"
  let ?B = "\<lambda>k. head_blocks ?e k @ drop k (lh_block s0)"
  have dev: "lg_dev s0 = 1" and a: "?a < disksize s0" and len: "length (lh_block s0) = LOGSIZE"
    using ok(1) by (auto simp: log_geom_def LOGSIZE_def)
  show "wp (bread (lg_dev s0) ?a) (\<lambda>buf. wp (bdata buf) (\<lambda>d. wp (kmod (\<lambda>s. s\<lparr>lh_n := sint (get32 d 0)\<rparr>))
      (\<lambda>_. wp (kfor [0..<nat (sint (get32 d 0))] (\<lambda>i. set_lh_block i (unat (get32 d (4 + 4 * i)))))
      (\<lambda>_. wp (brelse buf) Q)))) s"
    unfolding dev
  proof (rule wp_bread [OF st a])
    fix i s1 assume s1: "bst s0 (Map.empty(i \<mapsto> ?a)) {} v D d w s1"
    let ?P = "\<lambda>k. bst (s0\<lparr>lh_n := ?n, lh_block := ?B k\<rparr>) (Map.empty(i \<mapsto> ?a)) {} v D d w"
    show "wp (bdata i) (\<lambda>d. wp (kmod (\<lambda>s. s\<lparr>lh_n := sint (get32 d 0)\<rparr>))
      (\<lambda>_. wp (kfor [0..<nat (sint (get32 d 0))] (\<lambda>i. set_lh_block i (unat (get32 d (4 + 4 * i)))))
      (\<lambda>_. wp (brelse i) Q))) s1"
    proof (rule wp_bdata [OF s1], simp, unfold wp_kmod)
      show "wp (kfor [0..<nat ?n] (\<lambda>i. set_lh_block i (unat (get32 ?e (4 + 4 * i)))))
        (\<lambda>_. wp (brelse i) Q) (s1\<lparr>lh_n := ?n\<rparr>)"
      proof (rule wp_kfor_upt [where P = ?P])
        have "s0\<lparr>lh_n := ?n, lh_block := ?B 0\<rparr> = s0\<lparr>lh_n := ?n\<rparr>" by (simp add: head_blocks_def)
        then show "?P 0 (s1\<lparr>lh_n := ?n\<rparr>)" using bst_upd_log(1) [OF s1] by (simp only:)
        fix k t assume k: "k < nat ?n" and t: "?P k t"
        have kl: "k < LOGSIZE" using k n by simp
        have tb: "lh_block t = ?B k" using dframe_log(5) [OF bstD(7) [OF t]] by simp
        have B: "(?B k)[k := unat (get32 ?e (4 + 4 * k))] = ?B (Suc k)"
          using kl len by (simp add: head_blocks_def list_update_append Cons_nth_drop_Suc [symmetric])
        show "wp (set_lh_block k (unat (get32 ?e (4 + 4 * k)))) (\<lambda>_. ?P (Suc k)) t"
        proof (rule wpI)
          show "set_lh_block k (unat (get32 ?e (4 + 4 * k))) t = Ret () (t\<lparr>lh_block := ?B (Suc k)\<rparr>)"
            using kl len tb B by (simp add: set_lh_block_def head_blocks_def)
          have "s0\<lparr>lh_n := ?n, lh_block := ?B k\<rparr>\<lparr>lh_block := ?B (Suc k)\<rparr> = s0\<lparr>lh_n := ?n, lh_block := ?B (Suc k)\<rparr>"
            by simp
          then show "?P (Suc k) (t\<lparr>lh_block := ?B (Suc k)\<rparr>)"
            using bst_upd_log(2) [OF t, of "?B (Suc k)"] by (simp only:)
        qed
      next
        fix t assume t: "?P (nat ?n) t"
        show "wp (brelse i) Q t"
        proof (rule wp_brelse [OF t])
          fix s' assume "bst (s0\<lparr>lh_n := ?n, lh_block := ?B (nat ?n)\<rparr>) ((Map.empty(i \<mapsto> ?a))(i := None)) {} v D d w s'"
          then show "Q () s'" by (intro Q) (simp add: with_head_def Let_def)
        qed simp_all
      qed
    qed
  qed (use ok in simp_all)
qed

section \<open>Recovery\<close>

definition recovered :: "nat \<Rightarrow> (nat \<Rightarrow> bytes) \<Rightarrow> nat \<Rightarrow> bytes" where
  "recovered a d = (let n = nat (sint (get32 (d a) 0)) in
     (installed a (head_blocks (d a) n) d d n)(a := put32 (d a) 0 0))"

text \<open>The header on disk names at most \<open>LOGSIZE - 1\<close> distinct blocks outside the log area.\<close>

definition head_ok :: "nat \<Rightarrow> nat \<Rightarrow> (nat \<Rightarrow> bytes) \<Rightarrow> bool" where
  "head_ok a nb d \<longleftrightarrow> (let n = sint (get32 (d a) 0); L = head_blocks (d a) (nat n) in
     0 \<le> n \<and> n < int LOGSIZE \<and> distinct L \<and> (\<forall>b \<in> set L. b < nb \<and> b \<notin> {a..<a + LOGSIZE}))"

lemma with_head_entries:
  assumes "log_geom s" "head_ok (lg_start s) (disksize s) d"
  defines "e \<equiv> d (lg_start s)"
  shows "entries (with_head e s) = head_blocks e (nat (sint (get32 e 0)))"
    "log_geom (with_head e s)" "entries_ok (with_head e s)"
    "lg_start (with_head e s) = lg_start s"
proof -
  let ?n = "nat (sint (get32 e 0))"
  have n: "?n < LOGSIZE" using assms(2) by (auto simp: head_ok_def e_def Let_def)
  have [simp]: "length (head_blocks e ?n) = ?n" by (simp add: head_blocks_def)
  show ent: "entries (with_head e s) = head_blocks e ?n"
    by (simp add: entries_def with_head_def Let_def)
  show "log_geom (with_head e s)" using assms(1) n by (simp add: log_geom_def with_head_def Let_def)
  show "entries_ok (with_head e s)"
    using assms(2) ent unfolding entries_ok_def
    by (simp add: with_head_def Let_def head_ok_def log_blocks_def e_def)
  show "lg_start (with_head e s) = lg_start s" by (simp add: with_head_def Let_def)
qed

lemma wp_recover:
  fixes s :: "'z lstate_scheme"
  assumes st: "idle s0 d {} d w s" and ok: "log_geom s0" "head_ok (lg_start s0) (disksize s0) d"
    and Q: "\<And>s' s1 w'. idle s1 (recovered (lg_start s0) d) {} (recovered (lg_start s0) d) w' s' \<Longrightarrow> Q () s'"
  shows "wp recover_from_log Q s"
  unfolding recover_from_log_def wp_seqs
proof (rule wp_read_head [OF st ok(1)])
  let ?a = "lg_start s0"
  let ?e = "d ?a"
  let ?n = "nat (sint (get32 ?e 0))"
  let ?s1 = "with_head ?e s0" and ?L = "head_blocks ?e ?n"
  note h = with_head_entries [OF ok]
  show "sint (get32 ?e 0) \<le> int LOGSIZE" using ok(2) by (simp add: head_ok_def Let_def)
  have L: "length ?L = ?n" by (simp add: head_blocks_def)
  fix s1 assume s1: "idle ?s1 d {} d w s1"
  show "wp install_trans (\<lambda>_. wp (kmod (\<lambda>s. s\<lparr>lh_n := 0\<rparr>)) (\<lambda>_. wp write_head Q)) s1"
  proof (rule wp_install_trans [OF s1 h(2,3)])
    let ?d2 = "installed ?a ?L d d ?n"
    fix s2 assume "idle ?s1 (installed (lg_start ?s1) (entries ?s1) d d (length (entries ?s1))) {}
        (installed (lg_start ?s1) (entries ?s1) d d (length (entries ?s1)))
        (w @ inst_writes (lg_start ?s1) (entries ?s1) d (length (entries ?s1))) s2"
    then have s2: "idle ?s1 ?d2 {} ?d2 (w @ inst_writes ?a ?L d ?n) s2" by (simp only: h(1,4) L)
    have "?a \<notin> set ?L" using ok(2) by (auto simp: head_ok_def Let_def LOGSIZE_def)
    then have e2: "?d2 ?a = ?e" using L by (intro installed_out) simp_all
    show "wp (kmod (\<lambda>s. s\<lparr>lh_n := 0\<rparr>)) (\<lambda>_. wp write_head Q) s2"
      unfolding wp_kmod
    proof (rule wp_write_head [where hdr = "put32 ?e 0 0", OF bst_upd_log(1) [OF s2]])
      fix s3 assume "idle (?s1\<lparr>lh_n := 0\<rparr>) (?d2(lg_start (?s1\<lparr>lh_n := 0\<rparr>) := put32 ?e 0 0)) {}
         (?d2(lg_start (?s1\<lparr>lh_n := 0\<rparr>) := put32 ?e 0 0))
         ((w @ inst_writes ?a ?L d ?n) @ [(lg_start (?s1\<lparr>lh_n := 0\<rparr>), put32 ?e 0 0)]) s3"
      then have "idle (?s1\<lparr>lh_n := 0\<rparr>) (recovered ?a d) {} (recovered ?a d)
         ((w @ inst_writes ?a ?L d ?n) @ [(lg_start (?s1\<lparr>lh_n := 0\<rparr>), put32 ?e 0 0)]) s3"
        by (simp add: recovered_def Let_def h(4))
      then show "Q () s3" by (rule Q)
    qed (use h(2) h(4) e2 in \<open>simp_all add: log_geom_def LOGSIZE_def NBUF_def\<close>)
  qed simp
qed (simp add: NBUF_def)

section \<open>Crash safety\<close>

lemma home_in: "b \<in> set L \<Longrightarrow> distinct L \<Longrightarrow> (\<And>i. i < length L \<Longrightarrow> d (a + i + 1) = v (L ! i)) \<Longrightarrow>
  installed a L d d (length L) b = v b"
  by (auto simp: in_set_conv_nth installed_in)

text \<open>\<open>outside a f g\<close>: the two disks agree outside the log area.\<close>

definition outside :: "nat \<Rightarrow> (nat \<Rightarrow> bytes) \<Rightarrow> (nat \<Rightarrow> bytes) \<Rightarrow> bool" where
  "outside a f g \<longleftrightarrow> (\<forall>b. b \<notin> {a..<a + LOGSIZE} \<longrightarrow> f b = g b)"

lemma recovered_empty:
  "sint (get32 (d a) 0) = 0 \<Longrightarrow> outside a (recovered a d) d \<and> head_ok a nb d"
  by (auto simp: recovered_def outside_def Let_def LOGSIZE_def head_ok_def head_blocks_def)

lemma sint_small: "0 \<le> n \<Longrightarrow> n < int LOGSIZE \<Longrightarrow> sint (of_int n :: u32) = n"
  by (simp add: signed_of_int signed_take_bit_int_eq_self LOGSIZE_def)

lemma unat_small: "b < 2 ^ 32 \<Longrightarrow> unat (of_nat b :: u32) = b"
  by (simp add: unat_of_nat32)

lemma commit_hdr_read:
  assumes "log_geom s" "entries_ok s" "length (v (lg_start s)) = BSIZE"
  shows "sint (get32 (commit_hdr s v) 0) = lh_n s"
    "head_blocks (commit_hdr s v) (nat (lh_n s)) = entries s"
    "sint (get32 (put32 (commit_hdr s v) 0 0) 0) = 0" "length (commit_hdr s v) = BSIZE"
proof -
  have n: "0 \<le> lh_n s" "lh_n s < int LOGSIZE" "nat (lh_n s) \<le> LOGSIZE"
    using assms(2) by (auto simp: entries_ok_def)
  show "sint (get32 (commit_hdr s v) 0) = lh_n s"
    using head_img_n [OF assms(3) n(3)] sint_small [OF n(1,2)] by (simp add: commit_hdr_def)
  show "head_blocks (commit_hdr s v) (nat (lh_n s)) = entries s"
  proof (rule nth_equalityI)
    show "length (head_blocks (commit_hdr s v) (nat (lh_n s))) = length (entries s)"
      using length_entries [OF assms(2,1)] by (simp add: head_blocks_def)
    fix i assume "i < length (head_blocks (commit_hdr s v) (nat (lh_n s)))"
    then have i: "i < nat (lh_n s)" "i < length (entries s)"
      using length_entries [OF assms(2,1)] by (simp_all add: head_blocks_def)
    have "lh_block s ! i < 2 ^ 32"
      using entries_nth(3) [OF assms(2,1) i(2)] assms(1) by (simp add: log_geom_def)
    then show "head_blocks (commit_hdr s v) (nat (lh_n s)) ! i = entries s ! i"
      using head_img_block [OF assms(3) n(3) i(1)] i unat_small entries_nth(1) [OF assms(2,1) i(2)]
      by (simp add: head_blocks_def commit_hdr_def)
  qed
  show l: "length (commit_hdr s v) = BSIZE"
    using length_head_img [OF assms(3) n(3)] by (simp add: commit_hdr_def)
  show "sint (get32 (put32 (commit_hdr s v) 0 0) 0) = 0"
    using l by (simp add: get32_put32_same BSIZE_def)
qed

text \<open>
  Three kinds of prefix: only log blocks written (the old header is still there), the header and
  some home blocks written, everything written.
\<close>

lemma prefix_cases:
  assumes "commit_writes s v = ws1 @ ws2"
  obtains (log) ws3 where "log_writes (lg_start s) (entries s) (length (entries s)) v = ws1 @ ws3"
  | (home) hs hs' where "home_writes (entries s) v = hs @ hs'"
      "ws1 = log_writes (lg_start s) (entries s) (length (entries s)) v @ (lg_start s, commit_hdr s v) # hs"
  | (all) "ws1 = commit_writes s v"
proof -
  let ?l = "log_writes (lg_start s) (entries s) (length (entries s)) v" and ?h = "home_writes (entries s) v"
  let ?f = "(lg_start s, put32 (commit_hdr s v) 0 0)"
  have "ws1 @ ws2 = ?l @ (lg_start s, commit_hdr s v) # ?h @ [?f]"
    using assms by (simp add: commit_writes_def)
  then consider (A) us where "ws1 @ us = ?l"
    | (B) us where "ws1 = ?l @ us" "us @ ws2 = (lg_start s, commit_hdr s v) # ?h @ [?f]"
    by (auto simp: append_eq_append_conv2)
  then show thesis
  proof cases
    case A
    then show ?thesis using log [of us] by simp
  next
    case B
    show ?thesis
    proof (cases us)
      case Nil
      then show ?thesis using B(1) log [of "[]"] by simp
    next
      case (Cons u hs)
      then have e: "u = (lg_start s, commit_hdr s v)" "hs @ ws2 = ?h @ [?f]" using B(2) by simp_all
      then consider (C) hs' where "hs @ hs' = ?h" | (D) "hs = ?h @ [?f]"
        by (auto simp: append_eq_append_conv2 append_eq_Cons_conv Cons_eq_append_conv)
      then show ?thesis
      proof cases
        case C
        then show ?thesis using home [of hs hs'] B(1) Cons e(1) by simp
      next
        case D
        then show ?thesis using all B(1) Cons e(1) by (simp add: commit_writes_def)
      qed
    qed
  qed
qed

lemma apply_writes_out: "b \<notin> fst ` set ws \<Longrightarrow> apply_writes d ws b = d b"
proof (induction ws arbitrary: d)
  case (Cons w ws)
  then show ?case by (cases w) simp
qed simp

lemma outside_trans: "outside a f g \<Longrightarrow> outside a g h \<Longrightarrow> outside a f h"
  by (simp add: outside_def)

lemma crash_log:
  assumes "sint (get32 (d a) 0) = 0" "\<forall>b \<in> fst ` set ws. a < b \<and> b < a + LOGSIZE"
  shows "head_ok a nb (apply_writes d ws)" "outside a (recovered a (apply_writes d ws)) d"
proof -
  have keep: "apply_writes d ws b = d b" if "\<not> (a < b \<and> b < a + LOGSIZE)" for b
    using that assms(2) by (intro apply_writes_out) blast
  have "sint (get32 (apply_writes d ws a) 0) = 0" using keep [of a] assms(1) by simp
  then have r: "outside a (recovered a (apply_writes d ws)) (apply_writes d ws) \<and> head_ok a nb (apply_writes d ws)"
    by (rule recovered_empty)
  show "head_ok a nb (apply_writes d ws)" using r by blast
  have "outside a (apply_writes d ws) d" using keep by (simp add: outside_def)
  then show "outside a (recovered a (apply_writes d ws)) d" using r outside_trans by blast
qed

lemma crash_home:
  assumes hd: "nat (sint (get32 (e a) 0)) = length L" "head_blocks (e a) (length L) = L"
    and L: "distinct L" "a \<notin> set L"
    and lg: "\<And>i. i < length L \<Longrightarrow> e (a + i + 1) = v (L ! i)"
    and out: "\<And>b. b \<notin> {a..<a + LOGSIZE} \<Longrightarrow> b \<notin> set L \<Longrightarrow> e b = v b"
  shows "outside a (recovered a e) v"
  unfolding outside_def
proof (intro allI impI)
  fix b assume b: "b \<notin> {a..<a + LOGSIZE}"
  then have "b \<noteq> a" by (auto simp: LOGSIZE_def)
  then have r: "recovered a e b = installed a L e e (length L) b"
    unfolding recovered_def Let_def hd by simp
  show "recovered a e b = v b"
  proof (cases "b \<in> set L")
    case True
    then show ?thesis unfolding r using L(1) lg by (rule home_in)
  next
    case False
    then show ?thesis unfolding r using out [OF b False] by (simp add: installed_out)
  qed
qed

lemma crash_disk:
  fixes s :: "'z lstate_scheme"
  assumes ok: "log_geom s" "entries_ok s" and len: "\<And>b. length (v b) = BSIZE"
    and old: "sint (get32 (d (lg_start s)) 0) = 0"
    and clean: "\<And>b. b \<notin> set (entries s) \<Longrightarrow> v b = d b"
    and ws: "commit_writes s v = ws1 @ ws2"
  shows "head_ok (lg_start s) (disksize s) (apply_writes d ws1)
    \<and> (outside (lg_start s) (recovered (lg_start s) (apply_writes d ws1)) d
       \<or> outside (lg_start s) (recovered (lg_start s) (apply_writes d ws1)) v)"
proof -
  let ?a = "lg_start s" and ?L = "entries s" and ?d = "apply_writes d ws1"
  let ?n = "length ?L"
  have nL: "nat (lh_n s) = ?n" using length_entries [OF ok(2,1)] by simp
  have L: "distinct ?L" "?n < LOGSIZE" "\<And>b. b \<in> set ?L \<Longrightarrow> b < disksize s \<and> b \<notin> {?a..<?a + LOGSIZE}"
    using ok(2) nL by (auto simp: entries_ok_def log_blocks_def)
  have a0: "?a \<notin> set ?L" using L(3) [of ?a] by (auto simp: LOGSIZE_def)
  have a1: "?a + i + 1 \<notin> set ?L" if "i < ?n" for i
    using L(2) L(3) [of "?a + i + 1"] that by (auto simp: LOGSIZE_def)
  note hdr = commit_hdr_read [OF ok len]
  from ws show ?thesis
  proof (cases rule: prefix_cases)
    case (log ws3)
    have "set ws1 \<subseteq> set (log_writes ?a ?L ?n v)" unfolding log by simp
    then have "\<forall>b \<in> fst ` set ws1. ?a < b \<and> b < ?a + LOGSIZE"
      using L(2) by (force simp: log_writes_def)
    then show ?thesis using crash_log(1) [of d ?a ws1] crash_log(2) [of d ?a ws1] old by blast
  next
    case (home hs hs')
    have "set hs \<subseteq> set (home_writes ?L v)" unfolding home(1) by simp
    then have sub: "fst ` set hs \<subseteq> set ?L" by (force simp: home_writes_def)
    let ?d1 = "(logged ?a ?L ?n v d)(?a := commit_hdr s v)"
    have d1: "?d = apply_writes ?d1 hs" unfolding home(2) by (simp add: apply_log_writes)
    have keep: "?d b = ?d1 b" if "b \<notin> set ?L" for b
      unfolding d1 using that sub by (intro apply_writes_out) blast
    have h: "?d ?a = commit_hdr s v" using keep [OF a0] by simp
    have lg: "?d (?a + i + 1) = v (?L ! i)" if "i < ?n" for i
      using keep [OF a1 [OF that]] that by (simp add: logged_def)
    have out: "?d b = v b" if "b \<notin> {?a..<?a + LOGSIZE}" "b \<notin> set ?L" for b
      using keep [OF that(2)] clean [OF that(2)] that(1) L(2) by (auto simp: logged_def)
    have hb: "nat (sint (get32 (?d ?a) 0)) = ?n" "head_blocks (?d ?a) ?n = ?L"
      using hdr(1,2) nL by (simp_all add: h)
    have "head_ok ?a (disksize s) ?d"
      using L ok(2) hdr(1,2) nL by (simp add: head_ok_def Let_def h entries_ok_def)
    then show ?thesis using crash_home [OF hb L(1) a0 lg out] by blast
  next
    case all
    have d: "?d = (\<lambda>b. if b \<in> set ?L then v b else ((logged ?a ?L ?n v d)(?a := commit_hdr s v)) b)
        (?a := put32 (commit_hdr s v) 0 0)"
      unfolding all commit_writes_def by (simp add: apply_log_writes apply_home_writes)
    then have "sint (get32 (?d ?a) 0) = 0" using hdr(3) by simp
    then have r: "outside ?a (recovered ?a ?d) ?d \<and> head_ok ?a (disksize s) ?d" by (rule recovered_empty)
    have "?d b = v b" if b: "b \<notin> {?a..<?a + LOGSIZE}" for b
      unfolding d using b clean [of b] L(2) by (auto simp: logged_def)
    then have "outside ?a ?d v" by (simp add: outside_def)
    then show ?thesis using r outside_trans by blast
  qed
qed

end
