(* ===== verification/Example.thy ===== *)
theory Example
  imports Trap Dir_Spec Log_Crash
begin

text \<open>
  A family of concrete kernel states, for the witnesses of the properties: one CPU runs process 0,
  no lock is held, the disk \<open>d\<close> has 1000 blocks laid out as \<^verbatim>\<open>src/xv6/mkfs.c\<close> does, and a
  transaction is open that has logged the blocks of \<open>cs\<close>, each in its own dirty buffer.
\<close>

definition ex_spin :: spinst where
  "ex_spin = \<lparr>cur = 0, lapic = (\<lambda>i. i), eflags_if = (\<lambda>_. True),
     cpus = (\<lambda>i. \<lparr>apicid = i, ncli = 0, intena = True, cproc = Some 0\<rparr>), ncpu = 1, locks = (\<lambda>_. free_lk)\<rparr>"

definition ex_proc :: proc where
  "ex_proc = \<lparr>sz = 8192, pgdir = 0x80400000, kstack = 0x80401000, pstate = RUNNING, pid = 1, parent = None,
     tf = zero_tf, pchan = None, killed = False, ofile = replicate 16 None, cwd = Some 0, pname = []\<rparr>"

definition no_proc :: proc where
  "no_proc = ex_proc\<lparr>pstate := UNUSED, pid := 0, kstack := 0, pgdir := 0, cwd := None\<rparr>"

definition ex_bufs :: "(nat \<times> bytes) list \<Rightarrow> nat \<Rightarrow> buf" where
  "ex_bufs cs i = \<lparr>b_valid = (i < length cs), b_dirty = (i < length cs),
     b_dev = (if i < length cs then 1 else 0), b_blockno = (if i < length cs then fst (cs ! i) else 0),
     b_refcnt = 0, b_prev = (if i = 0 then NBUF else i - 1), b_next = (if i = NBUF then 0 else Suc i),
     b_data = (if i < length cs then snd (cs ! i) else replicate BSIZE 0)\<rparr>"

definition ex_sb :: superblock where
  "ex_sb = \<lparr>sb_size = 1000, sb_nblocks = 941, sb_ninodes = 200, sb_nlog = 30, sb_logstart = 2,
     sb_inodestart = 32, sb_bmapstart = 58\<rparr>"

definition no_pipe :: pipe where
  "no_pipe = \<lparr>p_data = (\<lambda>_. 0), p_nread = 0, p_nwrite = 0, p_readopen = True, p_writeopen = True\<rparr>"

definition no_file :: file_t where
  "no_file = \<lparr>f_type = FD_NONE, f_ref = 0, f_readable = False, f_writable = False, f_pipe = 0, f_ip = None, f_off = 0\<rparr>"

definition no_inode :: inode where
  "no_inode = \<lparr>i_dev = 0, i_inum = 0, i_ref = 0, i_valid = False, i_type = 0, i_major = 0, i_minor = 0,
     i_nlink = 0, i_size = 0, i_addrs = replicate 13 0\<rparr>"

definition ex :: "(nat \<times> bytes) list \<Rightarrow> (nat \<Rightarrow> bytes) \<Rightarrow> (nat \<Rightarrow> inode) \<Rightarrow> sstate" where
  "ex cs d ic = \<lparr>spin = ex_spin,
     ptable = (\<lambda>i. if i = 0 then ex_proc else no_proc), nextpid = 2, initproc = Some 1, kpgdir = 0x80400000,
     cr3 = (\<lambda>_. 0x400000), ts_esp0 = (\<lambda>_. 0),
     slocks = (\<lambda>_. free_sl),
     pmem = (\<lambda>_. 0), kfreelist = 0, kuse_lock = True, kend = 0x80116000, kdata = 0x80108000,
     memdisk = d, disksize = 1000, wtrace = [], bufs = ex_bufs cs,
     lg_start = 2, lg_size = 30, lg_outstanding = 1, lg_committing = False, lg_dev = 1,
     lh_n = int (length cs), lh_block = map fst cs @ replicate (30 - length cs) 0,
     sblk = ex_sb, icache = ic,
     in_buf = (\<lambda>_. 0), in_r = 0, in_w = 0, in_e = 0, con_out = [], cons_locking = True,
     devsw_read = (\<lambda>_. None), devsw_write = (\<lambda>_. None),
     pipes = (\<lambda>_. no_pipe), ftable = (\<lambda>_. no_file),
     ticks = 0, trace = 0, fork_first = False, kbd_shift = 0\<rparr>"

text \<open>The blocks as the cache shows them.\<close>

definition ex_view :: "(nat \<times> bytes) list \<Rightarrow> (nat \<Rightarrow> bytes) \<Rightarrow> nat \<Rightarrow> bytes" where
  "ex_view cs d b = (case map_of cs b of Some x \<Rightarrow> x | None \<Rightarrow> d b)"

lemma ex_view_nil [simp]: "ex_view [] d = d"
  by (simp add: ex_view_def fun_eq_iff)

definition ex_ok :: "(nat \<times> bytes) list \<Rightarrow> (nat \<Rightarrow> bytes) \<Rightarrow> bool" where
  "ex_ok cs d \<longleftrightarrow> distinct (map fst cs) \<and> length cs < 30 \<and> (\<forall>b. length (d b) = BSIZE)
     \<and> (\<forall>(b, x) \<in> set cs. b < 1000 \<and> (b < 2 \<or> 32 \<le> b) \<and> length x = BSIZE)"

lemma ex_fields [simp]:
  "spin (ex cs d ic) = ex_spin" "memdisk (ex cs d ic) = d" "disksize (ex cs d ic) = 1000"
  "wtrace (ex cs d ic) = []" "bufs (ex cs d ic) = ex_bufs cs" "slocks (ex cs d ic) = (\<lambda>_. free_sl)"
  "lg_start (ex cs d ic) = 2" "lg_size (ex cs d ic) = 30" "lg_outstanding (ex cs d ic) = 1"
  "lg_dev (ex cs d ic) = 1" "lh_n (ex cs d ic) = int (length cs)"
  "lh_block (ex cs d ic) = map fst cs @ replicate (30 - length cs) 0"
  "sblk (ex cs d ic) = ex_sb" "icache (ex cs d ic) = ic" "lg_committing (ex cs d ic) = False"
  "ptable (ex cs d ic) = (\<lambda>i. if i = 0 then ex_proc else no_proc)"
  by (simp_all add: ex_def)

lemma ex_calm: "calm ex_spin"
  by (auto simp: calm_def cpu_wf_def cli_ok_def ex_spin_def inj_on_def)

lemma ex_ready [simp]: "ready (ex cs d ic)"
  by (simp add: ready_def ex_calm) (simp add: ex_spin_def)

lemma ex_bring: "bring (ex cs d ic) [0..<30]"
proof -
  have "path (\<lambda>i. if i = 30 then 0 else Suc i) (30 :: nat) [0..<30] 30"
    "path (\<lambda>i. if i = 0 then 30 else i - 1) (30 :: nat) (rev [0..<30]) 30"
    by code_simp+
  then show ?thesis unfolding NBUF_def bring_def ring_def by (auto simp: ex_bufs_def NBUF_def cong: if_cong)
qed

lemma ex_caches:
  assumes "ex_ok cs d"
  shows "caches (ex cs d ic) b i \<longleftrightarrow> i < length cs \<and> fst (cs ! i) = b"
  by (auto simp: caches_def ex_bufs_def)

lemma ex_bview:
  assumes ok: "ex_ok cs d"
  shows "bview (ex cs d ic) = ex_view cs d"
proof
  fix b
  have dist: "distinct (map fst cs)" and n: "length cs < NBUF" using ok by (auto simp: ex_ok_def NBUF_def)
  show "bview (ex cs d ic) b = ex_view cs d b"
  proof (cases "\<exists>i < length cs. fst (cs ! i) = b")
    case True
    then obtain i where i: "i < length cs" "fst (cs ! i) = b" by blast
    have "find (caches (ex cs d ic) b) [0..<NBUF] = Some i"
      by (rule find_upt_unique)
        (use i n dist in \<open>auto simp: ex_caches [OF ok] distinct_conv_nth\<close>)
    moreover have "map_of cs b = Some (snd (cs ! i))"
      using dist i by (intro map_of_is_SomeI) (auto simp: in_set_conv_nth intro!: exI [of _ i] prod_eqI)
    ultimately show ?thesis using i by (simp add: bview_def ex_view_def ex_bufs_def)
  next
    case False
    then have "find (caches (ex cs d ic) b) [0..<NBUF] = None"
      by (auto simp: find_None_iff ex_caches [OF ok])
    moreover have "map_of cs b = None"
      using False by (metis (no_types, lifting) in_set_conv_nth length_map map_of_eq_None_iff nth_map set_map)
    ultimately show ?thesis by (simp add: bview_def ex_view_def)
  qed
qed

lemma ex_dirtyb:
  assumes "ex_ok cs d"
  shows "dirtyb (ex cs d ic) = set (map fst cs)"
proof -
  have n: "length cs < NBUF" using assms by (simp add: ex_ok_def NBUF_def)
  have "dirtyb (ex cs d ic) = {fst (cs ! i) | i. i < length cs}"
  proof -
    have "i < NBUF \<and> b_dirty (ex_bufs cs i) \<longleftrightarrow> i < length cs" for i using n by (auto simp: ex_bufs_def)
    moreover have "i < length cs \<Longrightarrow> b_blockno (ex_bufs cs i) = fst (cs ! i)" for i by (simp add: ex_bufs_def)
    ultimately show ?thesis unfolding dirtyb_def ex_fields by (intro Collect_cong) (metis (no_types, lifting))
  qed
  also have "\<dots> = set (map fst cs)" unfolding set_map by (auto simp: set_conv_nth)
  finally show ?thesis .
qed

lemma ex_binv:
  assumes ok: "ex_ok cs d"
  shows "binv {} {} (ex cs d ic)"
proof -
  have cs: "fst (cs ! i) < 1000" "length (snd (cs ! i)) = BSIZE" if "i < length cs" for i
    using ok nth_mem [OF that] by (cases "cs ! i", force simp: ex_ok_def)+
  have "buf_ok (ex cs d ic) {} {} i" for i
    using cs [of i] by (auto simp: buf_ok_def ex_bufs_def free_sl_def)
  moreover have "one_buf (ex cs d ic)"
    using ok by (auto simp: one_buf_def ex_bufs_def ex_ok_def distinct_conv_nth split: if_splits)
  moreover have "\<forall>b. length (d b) = BSIZE" using ok by (simp add: ex_ok_def)
  ultimately show ?thesis using ex_bring [of cs d ic] by (auto simp: binv_def)
qed

lemma ex_idle:
  assumes "ex_ok cs d"
  shows "idle (ex cs d ic) (ex_view cs d) (set (map fst cs)) d [] (ex cs d ic)"
  using ex_bview [OF assms] ex_dirtyb [OF assms] ex_binv [OF assms] by (simp add: bst_def)

lemma ex_trans:
  assumes "ex_ok cs d"
  shows "tst (ex cs d ic) Map.empty {} (ex_view cs d) (map fst cs) ic (\<lambda>_. free_sl) (ex cs d ic)"
proof -
  have "\<forall>b \<in> set (map fst cs). b < 1000 \<and> b \<notin> {2..<32}" using assms by (force simp: ex_ok_def)
  moreover have "distinct (map fst cs)" "length cs < 30" using assms by (auto simp: ex_ok_def)
  ultimately show ?thesis
    using ex_idle [OF assms, of ic] unfolding tst_def in_trans_def log_is_def log_blocks_def
    by (simp add: LOGSIZE_def MAXOPBLOCKS_def)
qed

lemma ex_geom: "fs_geom (ex cs d ic)"
  by (auto simp: fs_geom_def ex_sb_def BBLOCK_def IBLOCK_def BPB_def IPB_def BSIZE_def log_blocks_def LOGSIZE_def)

abbreviation ex0 :: sstate where
  "ex0 \<equiv> ex [] (\<lambda>_. replicate BSIZE 0) (\<lambda>_. no_inode)"

lemma ex_spin_wf: "cpu_wf ex_spin" "cli_ok ex_spin" "calm ex_spin" "cur ex_spin = 0" "cproc (cpus ex_spin 0) = Some 0"
  "ncli (cpus ex_spin 0) = 0" "locks ex_spin l = free_lk" "eflags_if ex_spin 0"
  using ex_calm by (simp_all add: calm_def) (simp_all add: ex_spin_def)

lemma ex_curproc [simp]: "curproc (ex cs d ic) = 0" "curpid (ex cs d ic) = 1"
  by (simp_all add: curproc_def curpid_def) (simp_all add: ex_spin_def ex_proc_def)

end
