(* ===== verification/Fs_Props.thy ===== *)
theory Fs_Props
  imports Example
begin

text \<open>
  The properties of the storage stack (buffer cache, log, inodes, files, directories), each with a
  witness at a state of the theory Example.
\<close>

section \<open>Crash safety of the log\<close>

text \<open>The state in which \<open>end_op\<close> calls \<open>commit\<close>: the dirty buffers are the logged blocks, nothing is
  held, and the log on disk is empty.\<close>

definition can_commit :: "('z lstate_scheme) \<Rightarrow> bool" where
  "can_commit s \<longleftrightarrow> idle s (bview s) (dirtyb s) (memdisk s) (wtrace s) s \<and> log_geom s \<and> entries_ok s
     \<and> set (entries s) = dirtyb s \<and> 0 < lh_n s \<and> sint (get32 (memdisk s (lg_start s)) 0) = 0"

text \<open>A machine that was started again on the disk \<open>d\<close> that \<open>s\<close> left: nothing is cached.\<close>

definition rebooted :: "('z lstate_scheme) \<Rightarrow> (nat \<Rightarrow> bytes) \<Rightarrow> ('z lstate_scheme) \<Rightarrow> bool" where
  "rebooted s d r \<longleftrightarrow> idle r d {} d (wtrace r) r \<and> log_geom r \<and> lg_start r = lg_start s \<and> disksize r = disksize s"

lemma bview_undirty:
  assumes "binv H {} s" "b \<notin> dirtyb s"
  shows "bview s b = memdisk s b"
proof (cases "find (caches s b) [0..<NBUF]")
  case (Some i)
  then have i: "i < NBUF" "caches s b i" by (auto simp: find_Some_iff)
  then have "\<not> b_dirty (bufs s i)" using assms(2) by (auto simp: dirtyb_def caches_def)
  moreover have "buf_ok s H {} i" using assms(1) i(1) by (simp add: binv_def)
  ultimately show ?thesis using i Some by (simp add: bview_def buf_ok_def caches_def)
qed (simp add: bview_def)

lemma apply_commit_outside:
  assumes "log_geom s" "entries_ok s" "\<And>b. b \<notin> set (entries s) \<Longrightarrow> v b = d b"
  shows "outside (lg_start s) (apply_writes d (commit_writes s v)) v"
  unfolding outside_def
proof (intro allI impI)
  fix b assume b: "b \<notin> {lg_start s..<lg_start s + LOGSIZE}"
  let ?L = "entries s" and ?a = "lg_start s"
  have n: "length ?L < LOGSIZE" using assms(2) length_entries [OF assms(2,1)] by (auto simp: entries_ok_def nat_less_iff)
  have home: "apply_writes e (home_writes L v) b = (if b \<in> set L then v b else e b)" for e L
    by (induction L arbitrary: e) (auto simp: home_writes_def)
  have "b \<noteq> ?a" using b by (auto simp: LOGSIZE_def MAXOPBLOCKS_def)
  moreover have "logged ?a ?L (length ?L) v d b = d b" using b n by (auto simp: logged_def)
  ultimately show "apply_writes d (commit_writes s v) b = v b"
    using assms(3) [of b] by (simp add: commit_writes_def apply_log_writes home)
qed

text \<open>
  C1. Crash safety. \<open>commit\<close> runs to its end, and the disk then holds every logged block. If the
  machine stops after any prefix of the disk writes of \<open>commit\<close> and starts again, recovery runs to its
  end, and outside the log area the disk holds either all blocks of before the transaction or all
  blocks of after it.
\<close>

theorem commit_crash_safe:
  assumes c: "can_commit s"
  shows "\<exists>s' ws. commit s = Ret () s' \<and> lh_n s' = 0 \<and> wtrace s' = wtrace s @ ws
    \<and> outside (lg_start s) (memdisk s') (bview s)
    \<and> (\<forall>ws1 ws2 r. ws = ws1 @ ws2 \<and> rebooted s (apply_writes (memdisk s) ws1) r \<longrightarrow>
        (\<exists>r'. recover_from_log r = Ret () r'
           \<and> (outside (lg_start s) (memdisk r') (memdisk s) \<or> outside (lg_start s) (memdisk r') (bview s))))"
proof -
  let ?ws = "commit_writes s (bview s)"
  have st: "idle s (bview s) (dirtyb s) (memdisk s) (wtrace s) s" and geo: "log_geom s" and ok: "entries_ok s"
    and D: "set (entries s) = dirtyb s" and n: "0 < lh_n s" and e: "sint (get32 (memdisk s (lg_start s)) 0) = 0"
    using c by (simp_all add: can_commit_def)
  have inv: "binv {} {} s" using st by (simp add: bst_def)
  have clean: "bview s b = memdisk s b" if "b \<notin> set (entries s)" for b
    using bview_undirty [OF inv] that D by simp
  have len: "length (bview s b) = BSIZE" for b using bstD(10) [OF st] .
  have "wp commit (\<lambda>_ s'. idle (s\<lparr>lh_n := 0\<rparr>) (apply_writes (bview s) ?ws) {} (apply_writes (memdisk s) ?ws)
      (wtrace s @ ?ws) s') s"
    by (rule wp_commit [OF st geo ok D n])
  then obtain s' where s': "commit s = Ret () s'"
    and i: "idle (s\<lparr>lh_n := 0\<rparr>) (apply_writes (bview s) ?ws) {} (apply_writes (memdisk s) ?ws) (wtrace s @ ?ws) s'"
    by (auto simp: wp_iff)
  have n': "lh_n s' = 0" using dframe_log(4) [OF bstD(7) [OF i]] by simp
  have w: "wtrace s' = wtrace s @ ?ws" "memdisk s' = apply_writes (memdisk s) ?ws"
    using bstD(5,6) [OF i] by simp_all
  have out: "outside (lg_start s) (apply_writes (memdisk s) ?ws) (bview s)"
    by (rule apply_commit_outside [OF geo ok clean])
  have rec: "\<exists>r'. recover_from_log r = Ret () r'
      \<and> (outside (lg_start s) (memdisk r') (memdisk s) \<or> outside (lg_start s) (memdisk r') (bview s))"
    if "?ws = ws1 @ ws2" "rebooted s (apply_writes (memdisk s) ws1) r" for ws1 ws2 r
  proof -
    let ?d = "apply_writes (memdisk s) ws1"
    have r: "idle r ?d {} ?d (wtrace r) r" "log_geom r" "lg_start r = lg_start s" "disksize r = disksize s"
      using that(2) by (simp_all add: rebooted_def)
    have cd: "head_ok (lg_start s) (disksize s) ?d \<and> (outside (lg_start s) (recovered (lg_start s) ?d) (memdisk s)
        \<or> outside (lg_start s) (recovered (lg_start s) ?d) (bview s))"
      by (rule crash_disk [OF geo ok len e clean that(1)])
    have "wp recover_from_log (\<lambda>_ r'. memdisk r' = recovered (lg_start s) ?d) r"
    proof (rule wp_recover [OF r(1,2)])
      show "head_ok (lg_start r) (disksize r) ?d" using cd r(3,4) by simp
      show "memdisk r' = recovered (lg_start s) ?d"
        if "idle s1 (recovered (lg_start r) ?d) {} (recovered (lg_start r) ?d) w' r'" for r' s1 w'
        using bstD(5) [OF that] r(3) by simp
    qed
    then obtain r' where "recover_from_log r = Ret () r'" "memdisk r' = recovered (lg_start s) ?d"
      by (auto simp: wp_iff)
    then show ?thesis using cd by (intro exI [of _ r']) simp
  qed
  show ?thesis
    by (rule exI [of _ s'], rule exI [of _ ?ws]) (use s' n' w out rec in simp)
qed

definition ex_disk :: "nat \<Rightarrow> bytes" where
  "ex_disk b = replicate BSIZE 0"

definition ex_seven :: "(nat \<times> bytes) list" where
  "ex_seven = [(600, replicate BSIZE 7)]"

lemma ex_seven_ok: "ex_ok ex_seven ex_disk" "ex_ok [] ex_disk"
  by (simp_all add: ex_ok_def ex_seven_def ex_disk_def)

lemma ex_can_commit: "can_commit (ex ex_seven ex_disk ic)"
proof -
  have "idle (ex ex_seven ex_disk ic) (bview (ex ex_seven ex_disk ic)) (dirtyb (ex ex_seven ex_disk ic)) ex_disk [] (ex ex_seven ex_disk ic)"
    using ex_idle [OF ex_seven_ok(1), of ic] ex_bview [OF ex_seven_ok(1)] ex_dirtyb [OF ex_seven_ok(1)] by simp
  moreover have "get32 (ex_disk 2) 0 = 0" unfolding ex_disk_def BSIZE_def by code_simp
  ultimately show ?thesis
    using ex_dirtyb [OF ex_seven_ok(1), of ic]
    by (simp add: can_commit_def log_geom_def entries_ok_def entries_def log_blocks_def LOGSIZE_def MAXOPBLOCKS_def)
      (simp add: ex_seven_def)
qed

lemma ex_rebooted: "rebooted (ex ex_seven ex_disk ic) ex_disk (ex [] ex_disk ic)"
  using ex_idle [OF ex_seven_ok(2), of ic]
  by (simp add: rebooted_def log_geom_def LOGSIZE_def MAXOPBLOCKS_def ex_view_def cong: if_cong)

theorem commit_crash_safe_witness:
  "\<exists>s' r'. commit (ex ex_seven ex_disk (\<lambda>_. no_inode)) = Ret () s' \<and> lh_n s' = 0
     \<and> recover_from_log (ex [] ex_disk (\<lambda>_. no_inode)) = Ret () r'"
proof -
  let ?s = "ex ex_seven ex_disk (\<lambda>_. no_inode)" and ?r = "ex [] ex_disk (\<lambda>_. no_inode)"
  from commit_crash_safe [OF ex_can_commit, of "\<lambda>_. no_inode"]
  obtain s' ws where s': "commit ?s = Ret () s'" "lh_n s' = 0"
    and r: "\<forall>ws1 ws2 r. ws = ws1 @ ws2 \<and> rebooted ?s (apply_writes (memdisk ?s) ws1) r \<longrightarrow>
        (\<exists>r'. recover_from_log r = Ret () r'
           \<and> (outside (lg_start ?s) (memdisk r') (memdisk ?s) \<or> outside (lg_start ?s) (memdisk r') (bview ?s)))"
    by (elim exE conjE)
  have "rebooted ?s (apply_writes (memdisk ?s) []) ?r" using ex_rebooted by simp
  then obtain r' where "recover_from_log ?r = Ret () r'"
    using r [rule_format, of "[]" ws ?r] by (auto simp del: ex_fields)
  then show ?thesis using s' by (intro exI conjI)
qed

section \<open>Blocks\<close>

text \<open>A transaction of file-system code that holds no buffer and has logged \<open>L\<close>.\<close>

definition in_fs :: "nat list \<Rightarrow> ('z istate_scheme) \<Rightarrow> bool" where
  "in_fs L s \<longleftrightarrow> tst s Map.empty {} (bview s) L (icache s) (\<lambda>i. slocks s (InodeLk i)) s \<and> fs_geom s"

text \<open>What a step inside the transaction leaves alone: the disk itself, and the inode cache.\<close>

definition same_trans :: "('z istate_scheme) \<Rightarrow> ('z istate_scheme) \<Rightarrow> bool" where
  "same_trans s s' \<longleftrightarrow> memdisk s' = memdisk s \<and> wtrace s' = wtrace s \<and> sblk s' = sblk s \<and> ready s'"

lemma tst_bview: "tst s0 H M v L ic il s \<Longrightarrow> bview s = v"
  by (simp add: tst_def bst_def)

lemma tst_same: "tst s0 H M v L ic il s \<Longrightarrow> same_trans s0 s"
  using tstD(8,10,11) [of s0 H M v L ic il s] bstD(1) [OF tstD(1)] by (simp add: same_trans_def)

lemma in_fs_ex: "ex_ok cs d \<Longrightarrow> in_fs (map fst cs) (ex cs d ic)"
  using ex_trans [of cs d ic] ex_geom [of cs d ic] ex_bview [of cs d ic] by (simp add: in_fs_def)

lemma BPB_bits: "length d = BSIZE \<Longrightarrow> c mod BPB < 8 * length d"
  by (simp add: BPB_def BSIZE_def)

lemma blk_free_mark:
  assumes "length (v (BBLOCK b sb)) = BSIZE"
  shows "blk_free sb (v(BBLOCK b sb := mark_used (v (BBLOCK b sb)) (b mod BPB))) c \<longleftrightarrow> c \<noteq> b \<and> blk_free sb v c"
    "blk_free sb (v(BBLOCK b sb := mark_free (v (BBLOCK b sb)) (b mod BPB))) c \<longleftrightarrow> c = b \<or> blk_free sb v c"
proof -
  have eq: "BBLOCK c sb = BBLOCK b sb \<and> c mod BPB = b mod BPB \<longleftrightarrow> c = b"
    by (auto simp: BBLOCK_def) (metis div_mult_mod_eq)
  show "blk_free sb (v(BBLOCK b sb := mark_used (v (BBLOCK b sb)) (b mod BPB))) c \<longleftrightarrow> c \<noteq> b \<and> blk_free sb v c"
    "blk_free sb (v(BBLOCK b sb := mark_free (v (BBLOCK b sb)) (b mod BPB))) c \<longleftrightarrow> c = b \<or> blk_free sb v c"
    using eq bit_free_marks [OF BPB_bits [OF assms, of b] BPB_bits [OF assms, of c]]
    by (auto simp: blk_free_def)
qed

text \<open>
  C2. \<open>balloc\<close> returns the first block that the bitmap marks free, marks it used and fills it with zeros.
  No other block changes its mark, and no block other than it and its bitmap block changes. The disk is
  not written: the changes wait in the log.
\<close>

theorem balloc_allocates:
  assumes s: "in_fs L s" and f: "find (blk_free (sblk s) (bview s)) [0..<sb_size (sblk s)] = Some b"
    and b: "b \<notin> log_blocks s" "\<forall>c. b \<noteq> BBLOCK c (sblk s)"
    and room: "length L + 2 < LOGSIZE"
  shows "\<exists>s'. balloc 1 s = Ret b s' \<and> same_trans s s' \<and> bview s' b = replicate BSIZE 0
    \<and> (\<forall>c. blk_free (sblk s) (bview s') c \<longleftrightarrow> c \<noteq> b \<and> blk_free (sblk s) (bview s) c)
    \<and> (\<forall>c. c \<noteq> b \<and> c \<noteq> BBLOCK b (sblk s) \<longrightarrow> bview s' c = bview s c)"
proof -
  let ?sb = "sblk s" and ?v = "bview s" and ?il = "\<lambda>i. slocks s (InodeLk i)"
  have t: "tst s Map.empty {} ?v L (icache s) ?il s" and g: "fs_geom s" using s by (simp_all add: in_fs_def)
  let ?v' = "alloc_view ?sb b ?v"
  have "wp (balloc 1) (\<lambda>r s'. r = b \<and> tst s Map.empty {} ?v' (ladd b (ladd (BBLOCK b ?sb) L)) (icache s) ?il s') s"
    by (rule wp_balloc [OF t g refl f]) (use b(1) room in \<open>simp_all add: NBUF_def LOGSIZE_def\<close>)
  then obtain s' where s': "balloc 1 s = Ret b s'"
    and t': "tst s Map.empty {} ?v' (ladd b (ladd (BBLOCK b ?sb) L)) (icache s) ?il s'"
    by (auto simp: wp_iff)
  have v': "bview s' = ?v'" by (rule tst_bview [OF t'])
  have len: "length (?v (BBLOCK b ?sb)) = BSIZE" by (rule tstD(9) [OF t])
  have "blk_free ?sb ?v' c \<longleftrightarrow> blk_free ?sb (?v(BBLOCK b ?sb := mark_used (?v (BBLOCK b ?sb)) (b mod BPB))) c" for c
    using b(2) [rule_format, of c] by (simp add: blk_free_def alloc_view_def)
  then have "blk_free ?sb ?v' c \<longleftrightarrow> c \<noteq> b \<and> blk_free ?sb ?v c" for c
    using blk_free_mark(1) [of ?v b ?sb c, OF len] by simp
  then show ?thesis
    by (intro exI [of _ s']) (use s' v' tst_same [OF t'] in \<open>simp add: alloc_view_def\<close>)
qed

lemma ex_all_free: "find (blk_free ex_sb ex_disk) [0..<1000] = Some 0"
proof -
  have "blk_free ex_sb ex_disk 0" by (simp add: blk_free_def ex_disk_def bit_free_def BSIZE_def BPB_def)
  then show ?thesis by (subst upt_conv_Cons) simp_all
qed

theorem balloc_allocates_witness:
  "\<exists>s'. balloc 1 (ex [] ex_disk (\<lambda>_. no_inode)) = Ret 0 s' \<and> bview s' 0 = replicate BSIZE 0
     \<and> \<not> blk_free ex_sb (bview s') 0 \<and> blk_free ex_sb (bview s') 1"
proof -
  let ?s = "ex [] ex_disk (\<lambda>_. no_inode)"
  have v: "bview ?s = ex_disk" using ex_bview [OF ex_seven_ok(2)] by simp
  have "blk_free ex_sb ex_disk 1" by (simp add: blk_free_def ex_disk_def bit_free_def BSIZE_def BPB_def)
  then show ?thesis
    using balloc_allocates [of "[]" ?s 0] in_fs_ex [OF ex_seven_ok(2), of "\<lambda>_. no_inode"] ex_all_free
    by (auto simp: v ex_sb_def log_blocks_def BBLOCK_def LOGSIZE_def)
qed

text \<open>
  C3. Freeing an allocated block clears exactly its bit of the bitmap, and freeing a block that is
  already free panics instead of corrupting the bitmap.
\<close>

theorem bfree_frees:
  assumes s: "in_fs L s" and b: "b < sb_size (sblk s)" and room: "length L + 1 < LOGSIZE"
  shows "if blk_free (sblk s) (bview s) b then bfree 1 b s = Panic ''freeing free block''
    else \<exists>s'. bfree 1 b s = Ret () s' \<and> same_trans s s'
      \<and> (\<forall>c. blk_free (sblk s) (bview s') c \<longleftrightarrow> c = b \<or> blk_free (sblk s) (bview s) c)
      \<and> (\<forall>c. c \<noteq> BBLOCK b (sblk s) \<longrightarrow> bview s' c = bview s c)"
proof -
  let ?sb = "sblk s" and ?v = "bview s" and ?il = "\<lambda>i. slocks s (InodeLk i)"
  have t: "tst s Map.empty {} ?v L (icache s) ?il s" and g: "fs_geom s" using s by (simp_all add: in_fs_def)
  have len: "length (?v (BBLOCK b ?sb)) = BSIZE" by (rule tstD(9) [OF t])
  show ?thesis
  proof (cases "blk_free ?sb ?v b")
    case True
    then show ?thesis
      using bfree_twice [OF t g refl b True] room by (simp add: NBUF_def LOGSIZE_def)
  next
    case False
    let ?v' = "?v(BBLOCK b ?sb := mark_free (?v (BBLOCK b ?sb)) (b mod BPB))"
    have "wp (bfree 1 b) (\<lambda>_ s'. tst s Map.empty {} ?v' (ladd (BBLOCK b ?sb) L) (icache s) ?il s') s"
      by (rule wp_bfree [OF t g refl b False]) (use room in \<open>simp_all add: NBUF_def LOGSIZE_def\<close>)
    then obtain s' where s': "bfree 1 b s = Ret () s'"
      and t': "tst s Map.empty {} ?v' (ladd (BBLOCK b ?sb) L) (icache s) ?il s'" by (auto simp: wp_iff)
    have v': "bview s' = ?v'" by (rule tst_bview [OF t'])
    have "\<forall>c. blk_free ?sb (bview s') c \<longleftrightarrow> c = b \<or> blk_free ?sb ?v c"
      unfolding v' using blk_free_mark(2) [of ?v b ?sb, OF len] by blast
    moreover have "\<forall>c. c \<noteq> BBLOCK b ?sb \<longrightarrow> bview s' c = ?v c" unfolding v' by simp
    ultimately show ?thesis
      unfolding if_not_P [OF False] by (intro exI [of _ s'] conjI s' tst_same [OF t'])
  qed
qed

definition ex_full :: "nat \<Rightarrow> bytes" where
  "ex_full b = replicate BSIZE 255"

lemma ex_full_ok: "ex_ok [] ex_full"
  by (simp add: ex_ok_def ex_full_def)

theorem bfree_frees_witness:
  "bfree 1 7 (ex [] ex_disk (\<lambda>_. no_inode)) = Panic ''freeing free block''
   \<and> (\<exists>s'. bfree 1 7 (ex [] ex_full (\<lambda>_. no_inode)) = Ret () s')"
proof -
  let ?s = "ex [] ex_disk (\<lambda>_. no_inode)" and ?t = "ex [] ex_full (\<lambda>_. no_inode)"
  have v: "bview ?s = ex_disk" "bview ?t = ex_full"
    using ex_bview [OF ex_seven_ok(2)] ex_bview [OF ex_full_ok] by simp_all
  have "blk_free ex_sb ex_disk 7" "\<not> blk_free ex_sb ex_full 7"
    by (simp_all add: blk_free_def ex_disk_def ex_full_def bit_free_bit BSIZE_def BPB_def)
  then show ?thesis
    using bfree_frees [of "[]" ?s 7] bfree_frees [of "[]" ?t 7] in_fs_ex [OF ex_seven_ok(2), of "\<lambda>_. no_inode"]
      in_fs_ex [OF ex_full_ok, of "\<lambda>_. no_inode"]
    by (auto simp: v ex_sb_def LOGSIZE_def)
qed

section \<open>Files\<close>

text \<open>
  The inode in slot \<open>i\<close> is a file of the root device whose first \<open>K\<close> blocks are allocated, pairwise
  different, outside the log, and hold all its bytes.
\<close>

definition file_on :: "nat \<Rightarrow> nat \<Rightarrow> ('z istate_scheme) \<Rightarrow> bool" where
  "file_on i K s \<longleftrightarrow> (let ip = icache s i in i_dev ip = 1 \<and> i_type ip \<noteq> T_DEV \<and> unat (i_size ip) \<le> K * BSIZE
     \<and> K \<le> MAXFILE \<and> file_inj (bview s) ip K
     \<and> (\<forall>k < K. mapped (disksize s) (bview s) ip k \<and> fblk (bview s) ip k \<notin> log_blocks s))"

text \<open>The byte at \<open>j\<close> of the file in slot \<open>i\<close>.\<close>

definition file_byte :: "('z istate_scheme) \<Rightarrow> nat \<Rightarrow> nat \<Rightarrow> u8" where
  "file_byte s i j = fbyte (bview s) (icache s i) j"

lemma written_mapped:
  assumes "written v v' ip off src K" "\<forall>k < K. mapped nb v ip k" "N \<le> K * BSIZE"
  shows "\<forall>j < N. mapped nb v' ip (j div BSIZE)"
proof (intro allI impI)
  fix j assume "j < N"
  then have "j div BSIZE < K" using assms(3) by (simp add: less_mult_imp_div_less)
  then show "mapped nb v' ip (j div BSIZE)" using assms(1,2) by (auto simp: written_def mapped_def)
qed

text \<open>
  C4. Bytes written inside a file are the bytes read back. A read of any range after the write returns
  the new bytes where it overlaps them and the old bytes elsewhere, clipped at the end of the file.
\<close>

theorem write_then_read:
  assumes s: "in_fs L s" and f: "file_on i K s"
    and sz: "unat off + length src \<le> unat (i_size (icache s i))"
    and room: "length L + nblocks (unat off) (length src) < LOGSIZE"
    and rd: "off' \<le> i_size (icache s i)" "unat off' + unat n < 2 ^ 32"
  shows "\<exists>s' s''. writei i src off s = Ret (int (length src)) s' \<and> same_trans s s'
    \<and> readi i off' n s' = Ret (int (read_len (icache s i) off' n),
        map (\<lambda>j. if unat off \<le> j \<and> j < unat off + length src then src ! (j - unat off) else file_byte s i j)
          [unat off'..<unat off' + read_len (icache s i) off' n]) s''"
proof -
  let ?ip = "icache s i" and ?il = "\<lambda>i. slocks s (InodeLk i)" and ?v = "bview s"
  have t: "tidle s ?v L (icache s) ?il s" using s by (simp add: in_fs_def)
  have ip: "i_dev ?ip = 1" "i_type ?ip \<noteq> T_DEV" and K: "unat (i_size ?ip) \<le> K * BSIZE" "K \<le> MAXFILE"
    and inj: "file_inj ?v ?ip K" and mp: "\<forall>k < K. mapped (disksize s) ?v ?ip k \<and> fblk ?v ?ip k \<notin> log_blocks s"
    using f by (simp_all add: file_on_def Let_def)
  have mp1: "\<forall>k < K. mapped (disksize s) ?v ?ip k" using mp by simp
  have "wp (writei i src off) (\<lambda>r s'. r = int (length src)
      \<and> (\<exists>v' L'. tidle s v' L' (icache s) ?il s' \<and> written ?v v' ?ip (unat off) src K)) s"
    by (rule wp_writei_inplace [OF t ip sz K inj mp]) (use room in auto)
  then obtain s' v' L' where w: "writei i src off s = Ret (int (length src)) s'"
    and t': "tidle s v' L' (icache s) ?il s'" and wr: "written ?v v' ?ip (unat off) src K"
    by (auto simp: wp_iff)
  let ?r = "[unat off'..<unat off' + read_len ?ip off' n]"
  have "wp (readi i off' n) (\<lambda>r _. r = (int (read_len ?ip off' n), map (fbyte v' ?ip) ?r)) s'"
    by (rule wp_readi [OF t' ip rd written_mapped [OF wr mp1 K(1)]]) simp
  then obtain s'' where r: "readi i off' n s' = Ret (int (read_len ?ip off' n), map (fbyte v' ?ip) ?r) s''"
    by (auto simp: wp_iff)
  have "map (fbyte v' ?ip) ?r = map (\<lambda>j. if unat off \<le> j \<and> j < unat off + length src then src ! (j - unat off)
      else file_byte s i j) ?r"
  proof (rule map_cong [OF refl])
    fix j assume "j \<in> set ?r"
    then have "j < unat (i_size ?ip)" using rd(1) by (auto simp: read_len_def word_le_nat_alt)
    then have "j < K * BSIZE" using K(1) by simp
    then show "fbyte v' ?ip j = (if unat off \<le> j \<and> j < unat off + length src then src ! (j - unat off)
      else file_byte s i j)" using wr by (simp add: written_def file_byte_def)
  qed
  then show ?thesis using w r tst_same [OF t'] by (intro exI [of _ s'] exI [of _ s'']) simp
qed

definition ex_file :: "nat \<Rightarrow> inode" where
  "ex_file = (\<lambda>_. no_inode)(0 := no_inode\<lparr>i_dev := 1, i_inum := 2, i_ref := 1, i_valid := True, i_type := T_FILE,
     i_nlink := 1, i_size := 100, i_addrs := 700 # replicate 12 0\<rparr>)"

lemma ex_file_on: "file_on 0 1 (ex [] ex_disk ex_file)"
  by (simp add: file_on_def ex_file_def file_inj_def mapped_def fblk_def NDIRECT_def MAXFILE_def NINDIRECT_def
      T_DEV_def T_FILE_def BSIZE_def log_blocks_def LOGSIZE_def lessThan_Suc)

theorem write_then_read_witness:
  "\<exists>s' s''. writei 0 [1, 2, 3] 10 (ex [] ex_disk ex_file) = Ret 3 s' \<and> readi 0 11 3 s' = Ret (3, [2, 3, 0]) s''"
proof -
  let ?s = "ex [] ex_disk ex_file"
  have v: "bview ?s = ex_disk" using ex_bview [OF ex_seven_ok(2)] by simp
  have z: "file_byte ?s 0 j = 0" for j by (simp add: file_byte_def v fbyte_def ex_disk_def BSIZE_def)
  have l: "read_len (ex_file 0) 11 3 = 3" by (simp add: read_len_def ex_file_def)
  have u: "[11..<14] = [11, 12, 13::nat]" by code_simp
  have i: "i_size (ex_file 0) = 100" by (simp add: ex_file_def)
  have "nblocks (unat (10 :: u32)) (length [1, 2, 3 :: u8]) < LOGSIZE" by (simp add: nblocks_def BSIZE_def LOGSIZE_def)
  then have "\<exists>s' s''. writei 0 [1, 2, 3] 10 ?s = Ret (int (length [1, 2, 3 :: u8])) s' \<and> same_trans ?s s'
    \<and> readi 0 11 3 s' = Ret (int (read_len (icache ?s 0) 11 3),
        map (\<lambda>j. if unat (10 :: u32) \<le> j \<and> j < unat (10 :: u32) + length [1, 2, 3 :: u8]
            then [1, 2, 3] ! (j - unat (10 :: u32)) else file_byte ?s 0 j)
          [unat (11 :: u32)..<unat (11 :: u32) + read_len (icache ?s 0) 11 3]) s''"
    by (intro write_then_read [OF in_fs_ex [OF ex_seven_ok(2)] ex_file_on]) (simp_all add: i)
  then show ?thesis by (simp add: u z l) blast
qed

section \<open>Directories\<close>

text \<open>The index of the first entry of directory \<open>dp\<close> that has the name.\<close>

definition dir_find :: "('z istate_scheme) \<Rightarrow> nat \<Rightarrow> bytes \<Rightarrow> nat option" where
  "dir_find s dp name =
     find (dent_is (bview s) (icache s dp) name) [0..<unat (i_size (icache s dp)) div 16]"

definition dir_entry :: "('z istate_scheme) \<Rightarrow> nat \<Rightarrow> nat \<Rightarrow> dirent" where
  "dir_entry s dp k = dent (bview s) (icache s dp) k"

text \<open>A directory: a file of whole entries.\<close>

definition dir_on :: "nat \<Rightarrow> nat \<Rightarrow> ('z istate_scheme) \<Rightarrow> bool" where
  "dir_on dp K s \<longleftrightarrow> file_on dp K s \<and> i_type (icache s dp) = T_DIR \<and> unat (i_size (icache s dp)) mod 16 = 0"

lemma file_on_mapped:
  assumes "file_on i K s"
  shows "\<forall>k < unat (i_size (icache s i)). mapped (disksize s) (bview s) (icache s i) (k div BSIZE)"
proof (intro allI impI)
  fix k assume "k < unat (i_size (icache s i))"
  then have "k < K * BSIZE" using assms by (simp add: file_on_def Let_def)
  then have "k div BSIZE < K" by (simp add: less_mult_imp_div_less)
  then show "mapped (disksize s) (bview s) (icache s i) (k div BSIZE)" using assms by (simp add: file_on_def Let_def)
qed

lemma dir_on_ok:
  assumes "dir_on dp K s"
  shows "dir_ok (disksize s) (bview s) (icache s dp)"
proof -
  have f: "file_on dp K s" using assms by (simp add: dir_on_def)
  have "unat (i_size (icache s dp)) \<le> K * BSIZE" "K * BSIZE \<le> MAXFILE * BSIZE"
    using f by (simp_all add: file_on_def Let_def)
  then have "unat (i_size (icache s dp)) \<le> MAXFILE * BSIZE" by (rule le_trans)
  then show ?thesis
    using assms file_on_mapped [OF f] f by (simp add: dir_ok_def dir_on_def file_on_def Let_def)
qed

text \<open>
  C6. \<open>dirlookup\<close> returns the first entry with the name, with the inode it names taken from the inode
  cache, and nothing when no entry has it. It changes no block.
\<close>

theorem dirlookup_first:
  assumes s: "in_fs L s" and d: "dir_on dp K s"
    and slot: "\<forall>k. dir_find s dp name = Some k \<longrightarrow> iget_slot (icache s) 1 (unat (de_inum (dir_entry s dp k))) \<noteq> None"
  shows "\<exists>s'. same_trans s s' \<and> bview s' = bview s \<and>
    (case dir_find s dp name of
       None \<Rightarrow> dirlookup dp name s = Ret None s' \<and> icache s' = icache s
     | Some k \<Rightarrow> \<exists>i. dirlookup dp name s = Ret (Some (i, 16 * k)) s'
         \<and> iget_slot (icache s) 1 (unat (de_inum (dir_entry s dp k))) = Some (i, icache s'))"
proof -
  let ?v = "bview s" and ?ic = "icache s" and ?il = "\<lambda>i. slocks s (InodeLk i)"
  have t: "tidle s ?v L ?ic ?il s" using s by (simp add: in_fs_def)
  note w = wp_dirlookup [OF t dir_on_ok [OF d], folded dir_find_def]
  show ?thesis
  proof (cases "dir_find s dp name")
    case None
    have "wp (dirlookup dp name) (\<lambda>r s'. r = None \<and> tidle s ?v L ?ic ?il s') s"
      by (rule w) (simp add: None)
    then obtain s' where "dirlookup dp name s = Ret None s'" "tidle s ?v L ?ic ?il s'" by (auto simp: wp_iff)
    then show ?thesis using tst_same tst_bview tstD(5) None by (intro exI [of _ s']) auto
  next
    case (Some k)
    then obtain i ic' where i: "iget_slot ?ic 1 (unat (de_inum (dir_entry s dp k))) = Some (i, ic')"
      using slot by (cases "iget_slot ?ic 1 (unat (de_inum (dir_entry s dp k)))") auto
    have "wp (dirlookup dp name) (\<lambda>r s'. r = Some (i, 16 * k) \<and> tidle s ?v L ic' ?il s') s"
      by (rule w) (use i in \<open>simp add: Some dir_entry_def\<close>)
    then obtain s' where s': "dirlookup dp name s = Ret (Some (i, 16 * k)) s'" "tidle s ?v L ic' ?il s'"
      by (auto simp: wp_iff)
    then have "icache s' = ic'" "bview s' = ?v" "same_trans s s'"
      using tstD(5) [OF s'(2)] tst_bview [OF s'(2)] tst_same [OF s'(2)] by simp_all
    then show ?thesis using s'(1) i Some by (intro exI [of _ s']) simp
  qed
qed

definition ex_dir :: "nat \<Rightarrow> inode" where
  "ex_dir = (\<lambda>_. no_inode)(0 := no_inode\<lparr>i_dev := 1, i_inum := 1, i_ref := 1, i_valid := True, i_type := T_DIR,
     i_nlink := 1, i_size := 64, i_addrs := 700 # replicate 12 0\<rparr>)"

lemma ex_dir_on: "dir_on 0 1 (ex [] ex_disk ex_dir)"
  by (simp add: dir_on_def file_on_def ex_dir_def file_inj_def mapped_def fblk_def NDIRECT_def MAXFILE_def NINDIRECT_def
      T_DEV_def T_DIR_def BSIZE_def log_blocks_def LOGSIZE_def lessThan_Suc)

lemma ex_dir_empty: "de_inum (dent ex_disk ip k) = 0"
proof -
  have "fbyte ex_disk ip j = 0" for j by (simp add: fbyte_def ex_disk_def BSIZE_def)
  then have "map (fbyte ex_disk ip) [16 * k..<16 * k + 16] = replicate 16 0" by (intro nth_equalityI) simp_all
  then show ?thesis by (simp add: dent_def dec_dirent_def get16_def) code_simp
qed

lemma ex_bview_disk [simp]: "bview (ex [] ex_disk ic) = ex_disk"
  using ex_bview [OF ex_seven_ok(2)] by simp

lemma ex_dir_find: "dir_find (ex [] ex_disk ex_dir) 0 name = None"
  by (simp add: dir_find_def find_None_iff dent_is_def ex_dir_empty)

theorem dirlookup_first_witness:
  "\<exists>s'. dirlookup 0 [97] (ex [] ex_disk ex_dir) = Ret None s' \<and> icache s' = ex_dir"
  using dirlookup_first [OF in_fs_ex [OF ex_seven_ok(2)] ex_dir_on, of "[97]"] by (auto simp: ex_dir_find)



section \<open>Inodes\<close>

text \<open>The inode \<open>inum\<close> as the blocks hold it.\<close>

definition disk_inode :: "('z istate_scheme) \<Rightarrow> nat \<Rightarrow> dinode" where
  "disk_inode s inum = get_dinode (bview s (IBLOCK inum (sblk s))) (dinode_off inum)"

text \<open>
  C8. An inode that \<open>iupdate\<close> wrote is the inode \<open>ilock\<close> loads: the copy loaded into any other slot of
  the cache has the same type, device numbers, link count, size and addresses. The other inodes, in
  the same block or not, keep their contents.
\<close>

theorem iupdate_then_load:
  assumes s: "in_fs L s" and ip: "i_dev (icache s i) = 1" "i_inum (icache s i) < sb_ninodes (sblk s)"
      "length (i_addrs (icache s i)) = NDIRECT + 1" "i_type (icache s i) \<noteq> 0"
    and room: "length L + 1 < LOGSIZE"
    and x: "\<not> i_valid x" "i_dev x = 1" "i_inum x = i_inum (icache s i)"
  shows "\<exists>s' s''. iupdate i s = Ret () s' \<and> same_trans s s' \<and> icache s' = icache s
    \<and> (\<forall>inum. inum \<noteq> i_inum (icache s i) \<longrightarrow> disk_inode s' inum = disk_inode s inum)
    \<and> ilock_load j (s'\<lparr>icache := (icache s')(j := x)\<rparr>) = Ret () s''
    \<and> i_valid (icache s'' j) \<and> dinode_of (icache s'' j) = dinode_of (icache s i)"
proof -
  let ?v = "bview s" and ?ic = "icache s" and ?il = "\<lambda>i. slocks s (InodeLk i)"
  let ?ip = "?ic i" and ?ib = "\<lambda>n. IBLOCK n (sblk s)"
  let ?v' = "?v(?ib (i_inum ?ip) := put_dinode (?v (?ib (i_inum ?ip))) (dinode_off (i_inum ?ip)) (dinode_of ?ip))"
  have t: "tidle s ?v L ?ic ?il s" and g: "fs_geom s" using s by (simp_all add: in_fs_def)
  have len: "length (?v b) = BSIZE" for b by (rule tstD(9) [OF t])
  have off: "dinode_off n + 64 \<le> BSIZE" for n by (simp add: dinode_off_def IPB_def BSIZE_def)
  have ad: "length (d_addrs (dinode_of ?ip)) = NDIRECT + 1" using ip(3) by (simp add: dinode_of_def)
  have "wp (iupdate i) (\<lambda>_ s'. tidle s ?v' (ladd (?ib (i_inum ?ip)) L) ?ic ?il s') s"
    by (rule wp_iupdate [OF t g refl ip(1,2,3)]) (use room in \<open>simp_all add: NBUF_def LOGSIZE_def\<close>)
  then obtain s' where s': "iupdate i s = Ret () s'" and t': "tidle s ?v' (ladd (?ib (i_inum ?ip)) L) ?ic ?il s'"
    by (auto simp: wp_iff)
  let ?s1 = "s'\<lparr>icache := (icache s')(j := x)\<rparr>" and ?d = "dinode_of ?ip"
  have t1: "tidle s ?v' (ladd (?ib (i_inum ?ip)) L) (?ic(j := x)) ?il ?s1"
    using tst_icache [OF t', of "?ic(j := x)"] tstD(5) [OF t'] by simp
  have rb: "get_dinode (?v' (?ib (i_inum ?ip))) (dinode_off (i_inum ?ip)) = ?d"
    using get_put_dinode [OF ad, of "dinode_off (i_inum ?ip)" "?v (?ib (i_inum ?ip))"] len off by simp
  have "wp (ilock_load j) (\<lambda>_ s''. \<exists>L'. tidle s ?v' L' (?ic(j := (load_inode ?d x)\<lparr>i_valid := True\<rparr>)) ?il s'') ?s1"
    by (rule wp_ilock_load [OF t1 g refl, where x = ?d])
      (use room x ip rb in \<open>auto simp: dinode_of_def NBUF_def LOGSIZE_def intro: le_less_trans [OF ladd_simps(2)]\<close>)
  then obtain s'' L' where s'': "ilock_load j ?s1 = Ret () s''"
    and t'': "tidle s ?v' L' (?ic(j := (load_inode ?d x)\<lparr>i_valid := True\<rparr>)) ?il s''" by (auto simp: wp_iff)
  have other: "disk_inode s' n = disk_inode s n" if n: "n \<noteq> i_inum ?ip" for n
  proof (cases "?ib n = ?ib (i_inum ?ip)")
    case True
    then have "n mod IPB \<noteq> i_inum ?ip mod IPB" using n by (metis IBLOCK_def add_right_cancel div_mult_mod_eq)
    then have "dinode_off n + 64 \<le> dinode_off (i_inum ?ip) \<or> dinode_off (i_inum ?ip) + 64 \<le> dinode_off n"
      by (simp add: dinode_off_def) linarith
    then show ?thesis
      using get_put_dinode_other [OF ad] len [of "?ib (i_inum ?ip)"] off True
      by (simp add: disk_inode_def tst_bview [OF t'] tstD(8) [OF t'])
  next
    case False
    then show ?thesis by (simp add: disk_inode_def tst_bview [OF t'] tstD(8) [OF t'])
  qed
  show ?thesis
    using s' s'' other tst_same [OF t'] tstD(5) [OF t'] tstD(5) [OF t'']
    by (intro exI [of _ s'] exI [of _ s'']) (simp add: dinode_of_def load_inode_def)
qed

theorem iupdate_then_load_witness:
  "\<exists>s' s''. iupdate 0 (ex [] ex_disk ex_file) = Ret () s'
     \<and> ilock_load 1 (s'\<lparr>icache := (icache s')(1 := no_inode\<lparr>i_dev := 1, i_inum := 2\<rparr>)\<rparr>) = Ret () s''
     \<and> i_size (icache s'' 1) = 100"
proof -
  let ?s = "ex [] ex_disk ex_file" and ?x = "no_inode\<lparr>i_dev := 1, i_inum := 2\<rparr>"
  obtain s' s'' where s: "iupdate 0 ?s = Ret () s'" "ilock_load 1 (s'\<lparr>icache := (icache s')(1 := ?x)\<rparr>) = Ret () s''"
    and e: "dinode_of (icache s'' 1) = dinode_of (ex_file 0)"
    using iupdate_then_load [OF in_fs_ex [OF ex_seven_ok(2)], of ex_file 0 ?x 1]
    by (auto simp: ex_file_def ex_sb_def no_inode_def NDIRECT_def T_FILE_def LOGSIZE_def)
  have "i_size (icache s'' 1) = 100" using arg_cong [OF e, of d_size] by (simp add: dinode_of_def ex_file_def)
  then show ?thesis using s by blast
qed



end
