(* ===== verification/Mkfs.thy ===== *)
theory Mkfs
  imports Dir_Spec
begin

text \<open>
  \<^verbatim>\<open>src/xv6/mkfs.c\<close>, which builds the first file system image. The image is a file of the host: \<open>img\<close> gives its
  sectors and \<open>sectors\<close> its length, so that reading past the end fails. Writing to the host's disk is taken to
  succeed. \<open>xshort\<close> and \<open>xint\<close> lay a number out in the byte order of the disk; structures
  in the image are encoded with the layout functions of the kernel, whose \<open>fs.h\<close> the program shares. A failing \<open>assert\<close> is
  \<open>MkAbort\<close>, \<open>exit(1)\<close> is \<open>MkExit\<close>. The host's files are a parameter: what the \<open>read\<close>s of a file
  return, or \<open>None\<close> when it cannot be opened.
\<close>

section \<open>Operations\<close>

definition FSSIZE :: nat where "FSSIZE = 1000"
definition NINODES :: nat where "NINODES = 200"
definition nbitmap :: nat where "nbitmap = FSSIZE div (BSIZE * 8) + 1"
definition ninodeblocks :: nat where "ninodeblocks = NINODES div IPB + 1"
definition nlog :: nat where "nlog = LOGSIZE"

definition xshort :: "u16 \<Rightarrow> u16" where
  "xshort x = of_le16 [ucast x, ucast (drop_bit 8 x)]"

definition xint :: "u32 \<Rightarrow> u32" where
  "xint x = of_le32 [ucast x, ucast (drop_bit 8 x), ucast (drop_bit 16 x), ucast (drop_bit 24 x)]"

definition nmeta :: nat where "nmeta = 2 + nlog + ninodeblocks + nbitmap"

definition mk_sb :: superblock where
  "mk_sb = \<lparr>sb_size = FSSIZE, sb_nblocks = FSSIZE - nmeta, sb_ninodes = NINODES, sb_nlog = nlog, sb_logstart = 2,
     sb_inodestart = 2 + nlog, sb_bmapstart = 2 + nlog + ninodeblocks\<rparr>"

definition enc_sb :: "superblock \<Rightarrow> bytes" where
  "enc_sb sb = concat (map (\<lambda>n. le32 (xint (of_nat n)))
     [sb_size sb, sb_nblocks sb, sb_ninodes sb, sb_nlog sb, sb_logstart sb, sb_inodestart sb, sb_bmapstart sb])"

record mkfs =
  img :: "nat \<Rightarrow> bytes"
  sectors :: nat
  freeinode :: nat
  freeblock :: nat

datatype mkerr = MkExit | MkAbort

definition mbind :: "mkerr + 'a \<Rightarrow> ('a \<Rightarrow> mkerr + 'b) \<Rightarrow> mkerr + 'b" where
  "mbind r f = (case r of Inl e \<Rightarrow> Inl e | Inr a \<Rightarrow> f a)"

definition massert :: "bool \<Rightarrow> mkerr + 'a \<Rightarrow> mkerr + 'a" where
  "massert b r = (if b then r else Inl MkAbort)"

definition wsect :: "nat \<Rightarrow> bytes \<Rightarrow> mkfs \<Rightarrow> mkfs" where
  "wsect sec buf m = m\<lparr>img := (img m)(sec := buf), sectors := max (sectors m) (sec + 1)\<rparr>"

definition rsect :: "nat \<Rightarrow> mkfs \<Rightarrow> mkerr + bytes" where
  "rsect sec m = (if sec < sectors m then Inr (img m sec) else Inl MkExit)"

definition winode :: "nat \<Rightarrow> dinode \<Rightarrow> mkfs \<Rightarrow> mkerr + mkfs" where
  "winode inum ip m =
     (let bn = IBLOCK inum mk_sb in
      mbind (rsect bn m) (\<lambda>buf. Inr (wsect bn (put_dinode buf (dinode_off inum) ip) m)))"

definition rinode :: "nat \<Rightarrow> mkfs \<Rightarrow> mkerr + dinode" where
  "rinode inum m = mbind (rsect (IBLOCK inum mk_sb) m) (\<lambda>buf. Inr (get_dinode buf (dinode_off inum)))"

definition mk_ialloc :: "u16 \<Rightarrow> mkfs \<Rightarrow> mkerr + nat \<times> mkfs" where
  "mk_ialloc type m =
     (let inum = freeinode m;
          m = m\<lparr>freeinode := freeinode m + 1\<rparr>;
          din = zero_dinode\<lparr>d_type := xshort type, d_nlink := xshort 1, d_size := xint 0\<rparr>
      in mbind (winode inum din m) (\<lambda>m. Inr (inum, m)))"

definition mk_balloc :: "nat \<Rightarrow> mkfs \<Rightarrow> mkerr + mkfs" where
  "mk_balloc used m =
     massert (used < BSIZE * 8)
       (let buf = foldl mark_used (replicate BSIZE 0) [0..<used]
        in Inr (wsect (sb_bmapstart mk_sb) buf m))"

text \<open>The block number for the \<open>fbn\<close>-th block of the file, allocated when the file has none there.\<close>

definition iappend_block :: "nat \<Rightarrow> dinode \<Rightarrow> mkfs \<Rightarrow> mkerr + nat \<times> dinode \<times> mkfs" where
  "iappend_block fbn din m =
     (if fbn < NDIRECT then
        (let (din, m) =
           (if xint (d_addrs din ! fbn) = 0
            then (din\<lparr>d_addrs := (d_addrs din)[fbn := xint (of_nat (freeblock m))]\<rparr>, m\<lparr>freeblock := freeblock m + 1\<rparr>)
            else (din, m))
         in Inr (unat (xint (d_addrs din ! fbn)), din, m))
      else
        (let (din, m) =
           (if xint (d_addrs din ! NDIRECT) = 0
            then (din\<lparr>d_addrs := (d_addrs din)[NDIRECT := xint (of_nat (freeblock m))]\<rparr>, m\<lparr>freeblock := freeblock m + 1\<rparr>)
            else (din, m));
             ib = unat (xint (d_addrs din ! NDIRECT));
             o4 = 4 * (fbn - NDIRECT)
         in mbind (rsect ib m) (\<lambda>indirect.
            if get32 indirect o4 = 0 then
              (let indirect = put32 indirect o4 (xint (of_nat (freeblock m)));
                   m = wsect ib indirect (m\<lparr>freeblock := freeblock m + 1\<rparr>)
               in Inr (unat (xint (get32 indirect o4)), din, m))
            else Inr (unat (xint (get32 indirect o4)), din, m))))"

lemma block_room: "off < (off div BSIZE + 1) * BSIZE" "off < BSIZE + off div BSIZE * BSIZE"
  by (simp_all add: BSIZE_def)

function iappend_loop :: "bytes \<Rightarrow> nat \<Rightarrow> dinode \<Rightarrow> mkfs \<Rightarrow> mkerr + nat \<times> dinode \<times> mkfs" where
  "iappend_loop p off din m =
     (if p = [] then Inr (off, din, m)
      else
        let fbn = off div BSIZE in
        massert (fbn < MAXFILE)
          (mbind (iappend_block fbn din m) (\<lambda>(x, din, m).
             let n1 = min (length p) ((fbn + 1) * BSIZE - off)
             in mbind (rsect x m) (\<lambda>buf.
                let m = wsect x (splice (off - fbn * BSIZE) (take n1 p) buf) m
                in iappend_loop (drop n1 p) (off + n1) din m))))"
  by pat_completeness auto
termination by (relation "measure (\<lambda>(p, _). length p)") (auto simp: block_room)

definition iappend :: "nat \<Rightarrow> bytes \<Rightarrow> mkfs \<Rightarrow> mkerr + mkfs" where
  "iappend inum xp m =
     mbind (rinode inum m) (\<lambda>din.
     mbind (iappend_loop xp (unat (xint (d_size din))) din m) (\<lambda>(off, din, m).
     winode inum (din\<lparr>d_size := xint (of_nat off)\<rparr>) m))"

definition mk_dirent :: "nat \<Rightarrow> bytes \<Rightarrow> bytes" where
  "mk_dirent inum name = enc_dirent \<lparr>de_inum = xshort (of_nat inum), de_name = name_copy name\<rparr>"

text \<open>The loop that copies a file; it ends at the first \<open>read\<close> that returns nothing.\<close>

fun mk_copy :: "nat \<Rightarrow> bytes list \<Rightarrow> mkfs \<Rightarrow> mkerr + mkfs" where
  "mk_copy inum [] m = Inr m"
| "mk_copy inum (buf # reads) m = (if buf = [] then Inr m else mbind (iappend inum buf m) (mk_copy inum reads))"

fun mk_files :: "(bytes \<Rightarrow> bytes list option) \<Rightarrow> nat \<Rightarrow> bytes list \<Rightarrow> mkfs \<Rightarrow> mkerr + mkfs" where
  "mk_files opn rootino [] m = Inr m"
| "mk_files opn rootino (arg # args) m =
     massert (slash \<notin> set arg)
       (case opn arg of
          None \<Rightarrow> Inl MkExit
        | Some reads \<Rightarrow>
            let name = (if arg \<noteq> [] \<and> hd arg = 95 then tl arg else arg) in
            mbind (mk_ialloc T_FILE m) (\<lambda>(inum, m).
            mbind (iappend rootino (mk_dirent inum name) m) (\<lambda>m.
            mbind (mk_copy inum reads m) (\<lambda>m.
            mk_files opn rootino args m))))"

text \<open>The image after the zeroing loop and the super block.\<close>

definition mk_empty :: mkfs where
  "mk_empty =
     (let m = \<lparr>img = \<lambda>_. replicate BSIZE 0, sectors = 0, freeinode = 1, freeblock = nmeta\<rparr>;
          m = foldl (\<lambda>m i. wsect i (replicate BSIZE 0) m) m [0..<FSSIZE]
      in wsect 1 (splice 0 (enc_sb mk_sb) (replicate BSIZE 0)) m)"

definition mk_finish :: "nat \<Rightarrow> mkfs \<Rightarrow> mkerr + mkfs" where
  "mk_finish rootino m =
     mbind (rinode rootino m) (\<lambda>din.
     let off = (unat (xint (d_size din)) div BSIZE + 1) * BSIZE in
     mbind (winode rootino (din\<lparr>d_size := xint (of_nat off)\<rparr>) m) (\<lambda>m.
     mk_balloc (freeblock m) m))"

definition mkfs_main :: "(bytes \<Rightarrow> bool) \<Rightarrow> (bytes \<Rightarrow> bytes list option) \<Rightarrow> bytes list \<Rightarrow> mkerr + mkfs" where
  "mkfs_main creat opn args =
     (case args of
        [] \<Rightarrow> Inl MkExit
      | fs_img # files \<Rightarrow>
          if \<not> creat fs_img then Inl MkExit
          else
            mbind (mk_ialloc T_DIR mk_empty) (\<lambda>(rootino, m).
            massert (rootino = ROOTINO)
              (mbind (iappend rootino (mk_dirent rootino [46]) m) (\<lambda>m.
               mbind (iappend rootino (mk_dirent rootino [46, 46]) m) (\<lambda>m.
               mbind (mk_files opn rootino files m) (mk_finish rootino))))))"

section \<open>The blocks of a file\<close>

lemma xint_id [simp]: "xint x = x"
  using of_le32_le32 [of x] by (simp add: xint_def le32_def)

lemma xshort_id [simp]: "xshort x = x"
  using of_le16_le16 [of x] by (simp add: xshort_def le16_def)

lemmas mk_sizes = FSSIZE_def NINODES_def nbitmap_def ninodeblocks_def nlog_def nmeta_def LOGSIZE_def MAXOPBLOCKS_def
  BSIZE_def IPB_def NDIRECT_def NINDIRECT_def MAXFILE_def

definition file_of :: "dinode \<Rightarrow> inode" where
  "file_of d = \<lparr>i_dev = ROOTDEV, i_inum = 0, i_ref = 1, i_valid = True, i_type = d_type d, i_major = d_major d, i_minor = d_minor d,
     i_nlink = d_nlink d, i_size = d_size d, i_addrs = d_addrs d\<rparr>"

lemma file_of_addrs [simp]: "i_addrs (file_of d) = d_addrs d"
  by (simp add: file_of_def)

definition indb :: "dinode \<Rightarrow> nat" where
  "indb d = unat (d_addrs d ! NDIRECT)"

definition fused :: "(nat \<Rightarrow> bytes) \<Rightarrow> dinode \<Rightarrow> nat \<Rightarrow> nat set" where
  "fused v d K = fblk v (file_of d) ` {..<K} \<union> (if NDIRECT < K then {indb d} else {})"

text \<open>The file has \<open>K\<close> blocks, all between \<open>lo\<close> and \<open>hi\<close> and different from each other, and the bytes \<open>c\<close>;
  its further block pointers are null.\<close>

definition holds :: "(nat \<Rightarrow> bytes) \<Rightarrow> dinode \<Rightarrow> nat \<Rightarrow> nat \<Rightarrow> nat \<Rightarrow> bytes \<Rightarrow> bool" where
  "holds v d lo hi K c \<longleftrightarrow> length (d_addrs d) = NDIRECT + 1 \<and> K \<le> MAXFILE \<and> length c \<le> K * BSIZE
     \<and> file_inj v (file_of d) K \<and> fused v d K \<subseteq> {lo..<hi}
     \<and> (\<forall>k. K \<le> k \<and> k < NDIRECT \<longrightarrow> d_addrs d ! k = 0) \<and> (K \<le> NDIRECT \<longrightarrow> d_addrs d ! NDIRECT = 0)
     \<and> (NDIRECT < K \<longrightarrow> (\<forall>k. K \<le> k \<and> k < MAXFILE \<longrightarrow> get32 (v (indb d)) (4 * (k - NDIRECT)) = 0))
     \<and> (\<forall>j < length c. fbyte v (file_of d) j = c ! j)"

lemma file_of_fblk: "fblk v (file_of d) k =
    (if k < NDIRECT then unat (d_addrs d ! k) else unat (get32 (v (indb d)) (4 * (k - NDIRECT))))"
  by (simp add: fblk_def indb_def)

lemma fused_in: "k < K \<Longrightarrow> fblk v (file_of d) k \<in> fused v d K" "NDIRECT < K \<Longrightarrow> indb d \<in> fused v d K"
  by (auto simp: fused_def)

lemma fblk_frame:
  assumes "\<forall>b\<in>fused v d K. v' b = v b" "k < K"
  shows "fblk v' (file_of d) k = fblk v (file_of d) k"
proof (cases "k < NDIRECT")
  case False
  then have "indb d \<in> fused v d K" using assms(2) by (intro fused_in) simp
  then show ?thesis using False assms(1) by (simp add: file_of_fblk)
qed (simp add: file_of_fblk)

lemma byte_block: "j < length c \<Longrightarrow> length c \<le> K * BSIZE \<Longrightarrow> j div BSIZE < K"
  by (rule less_mult_imp_div_less) simp

lemma holds_frame:
  assumes h: "holds v d lo hi K c" and f: "\<forall>b\<in>fused v d K. v' b = v b" and hi: "hi \<le> hi'"
  shows "holds v' d lo hi' K c" "fused v' d K = fused v d K"
proof -
  have fb: "fblk v' (file_of d) k = fblk v (file_of d) k" if "k < K" for k by (rule fblk_frame [OF f that])
  show u: "fused v' d K = fused v d K" using fb by (auto simp: fused_def image_iff)
  have "file_inj v' (file_of d) K" using h fb by (auto simp: holds_def file_inj_def inj_on_def)
  moreover have "fbyte v' (file_of d) j = c ! j" if j: "j < length c" for j
  proof -
    have k: "j div BSIZE < K" using j h by (auto simp: holds_def intro: byte_block)
    then have "v' (fblk v (file_of d) (j div BSIZE)) = v (fblk v (file_of d) (j div BSIZE))" using f fused_in(1) by blast
    then have "fbyte v' (file_of d) j = fbyte v (file_of d) j" using fb [OF k] by (simp add: fbyte_def)
    then show ?thesis using h j by (simp add: holds_def)
  qed
  moreover have "v' (indb d) = v (indb d)" if "NDIRECT < K" using f fused_in(2) [OF that] by blast
  moreover have "fused v' d K \<subseteq> {lo..<hi'}" using h hi u by (auto simp: holds_def)
  ultimately show "holds v' d lo hi' K c" using h unfolding holds_def by simp
qed

lemma holds_extend:
  assumes h: "holds v d lo hi K c" and K: "K < MAXFILE" and lo: "lo \<le> hi" "hi \<le> hi'" and len: "length (d_addrs d') = NDIRECT + 1"
    and same: "\<And>k. k < K \<Longrightarrow> fblk v' (file_of d') k = fblk v (file_of d) k"
    and new: "fblk v' (file_of d') K \<in> {hi..<hi'}"
    and old_ind: "NDIRECT < K \<Longrightarrow> indb d' = indb d"
    and new_ind: "K = NDIRECT \<Longrightarrow> indb d' \<in> {hi..<hi'} - {fblk v' (file_of d') K}"
    and data: "\<And>k. k < K \<Longrightarrow> v' (fblk v (file_of d) k) = v (fblk v (file_of d) k)"
    and z1: "\<forall>k. K < k \<and> k < NDIRECT \<longrightarrow> d_addrs d' ! k = 0" and z2: "K < NDIRECT \<Longrightarrow> d_addrs d' ! NDIRECT = 0"
    and z3: "NDIRECT \<le> K \<Longrightarrow> \<forall>k. K < k \<and> k < MAXFILE \<longrightarrow> get32 (v' (indb d')) (4 * (k - NDIRECT)) = 0"
  shows "holds v' d' lo hi' (Suc K) c" "fused v' d' (Suc K) \<subseteq> fused v d K \<union> {hi..<hi'}"
proof -
  have inr: "fused v d K \<subseteq> {lo..<hi}" and inj: "file_inj v (file_of d) K" using h by (simp_all add: holds_def)
  have old: "fblk v' (file_of d') k \<in> {lo..<hi}" if "k < K" for k
    using same [OF that] fused_in(1) [OF that, of v d] inr by auto
  have ind: "indb d' \<in> fused v d K \<union> {hi..<hi'}" if "NDIRECT \<le> K"
    using that old_ind new_ind fused_in(2) [of K d v] by (cases "K = NDIRECT") auto
  show u: "fused v' d' (Suc K) \<subseteq> fused v d K \<union> {hi..<hi'}"
    using same new ind fused_in(1) [of _ K v d] by (auto simp: fused_def less_Suc_eq split: if_splits)
  then have ur: "fused v' d' (Suc K) \<subseteq> {lo..<hi'}" using inr lo by fastforce
  have "inj_on (fblk v' (file_of d')) {..<K}" using inj same by (auto simp: file_inj_def inj_on_def)
  moreover have "fblk v' (file_of d') K \<notin> fblk v' (file_of d') ` {..<K}" using old new by fastforce
  ultimately have i1: "inj_on (fblk v' (file_of d')) {..<Suc K}" by (simp add: lessThan_Suc)
  have i2: "fblk v' (file_of d') k \<noteq> indb d'" if "k < Suc K" "NDIRECT \<le> K" for k
  proof (cases "K = NDIRECT")
    case True
    then show ?thesis using new_ind [OF True] old [of k] that(1) by (cases "k = K") auto
  next
    case False
    then have N: "NDIRECT < K" using that by simp
    then have "indb d' \<in> {lo..<hi}" using old_ind [OF N] fused_in(2) [OF N, of d v] inr by auto
    then show ?thesis using N new old_ind same inj that by (cases "k = K") (auto simp: file_inj_def indb_def)
  qed
  have "file_inj v' (file_of d') (Suc K)" using i1 i2 by (auto simp: file_inj_def indb_def less_Suc_eq_le)
  moreover have "fbyte v' (file_of d') j = c ! j" if j: "j < length c" for j
  proof -
    have k: "j div BSIZE < K" using j h by (auto simp: holds_def intro: byte_block)
    then have "fbyte v' (file_of d') j = fbyte v (file_of d) j" using same data by (simp add: fbyte_def)
    then show ?thesis using h j by (simp add: holds_def)
  qed
  moreover have "length c \<le> Suc K * BSIZE" using h by (simp add: holds_def)
  ultimately show "holds v' d' lo hi' (Suc K) c"
    using K len ur z1 z2 z3 unfolding holds_def by (auto simp: Suc_le_eq less_Suc_eq_le)
qed

lemma holds_append:
  assumes h: "holds v d lo hi K c" and p: "length c mod BSIZE + length p \<le> BSIZE" "length c div BSIZE < K"
    and len: "\<And>b. length (v b) = BSIZE"
  defines "x \<equiv> fblk v (file_of d) (length c div BSIZE)"
  shows "holds (v(x := splice (length c mod BSIZE) p (v x))) d lo hi K (c @ p)"
    "fused (v(x := splice (length c mod BSIZE) p (v x))) d K = fused v d K"
proof -
  let ?v = "v(x := splice (length c mod BSIZE) p (v x))"
  have inj: "file_inj v (file_of d) K" using h by (simp add: holds_def)
  have w: "written v ?v (file_of d) (length c) p K" unfolding x_def by (rule written_block [OF inj p(2,1) len])
  have ind: "?v (indb d) = v (indb d)" if "NDIRECT < K"
    using inj that p(2) by (auto simp: file_inj_def x_def indb_def)
  have fb: "fblk ?v (file_of d) k = fblk v (file_of d) k" if "k < K" for k using w that by (simp add: written_def)
  show u: "fused ?v d K = fused v d K" using fb by (auto simp: fused_def image_iff)
  have "length c div BSIZE * BSIZE + length c mod BSIZE = length c" by (rule div_mult_mod_eq)
  moreover have "length c div BSIZE * BSIZE + BSIZE \<le> K * BSIZE" using p(2) by (metis Suc_leI add.commute mult_Suc mult_le_mono1)
  ultimately have l: "length (c @ p) \<le> K * BSIZE" using p(1) unfolding length_append by linarith
  have "fbyte ?v (file_of d) j = (c @ p) ! j" if "j < length (c @ p)" for j
    using w h that l by (auto simp: written_def holds_def nth_append)
  then show "holds ?v d lo hi K (c @ p)"
    using h l u ind file_inj_written [OF w inj] unfolding holds_def by simp
qed

section \<open>Appending\<close>

definition blocks_ok :: "mkfs \<Rightarrow> bool" where
  "blocks_ok m \<longleftrightarrow> sectors m = FSSIZE \<and> nmeta \<le> freeblock m \<and> freeblock m \<le> FSSIZE \<and> (\<forall>b. length (img m b) = BSIZE)
     \<and> (\<forall>b \<ge> freeblock m. img m b = replicate BSIZE 0)"

text \<open>What an append may do: take new blocks from the front of the free ones, and change its own blocks and these.\<close>

definition grows :: "mkfs \<Rightarrow> nat set \<Rightarrow> mkfs \<Rightarrow> nat set \<Rightarrow> bool" where
  "grows m U m' U' \<longleftrightarrow> blocks_ok m' \<and> freeblock m \<le> freeblock m' \<and> freeinode m' = freeinode m
     \<and> (\<forall>b. b \<notin> U \<union> {freeblock m..<freeblock m'} \<longrightarrow> img m' b = img m b)
     \<and> U' \<subseteq> U \<union> {freeblock m..<freeblock m'}"

lemma grows_refl: "blocks_ok m \<Longrightarrow> grows m U m U"
  by (simp add: grows_def)

lemma grows_trans: "grows m U m1 U1 \<Longrightarrow> grows m1 U1 m2 U2 \<Longrightarrow> grows m U m2 U2"
proof -
  assume a: "grows m U m1 U1" "grows m1 U1 m2 U2"
  then have f: "freeblock m \<le> freeblock m1" "freeblock m1 \<le> freeblock m2" by (simp_all add: grows_def)
  have "{freeblock m..<freeblock m1} \<union> {freeblock m1..<freeblock m2} = {freeblock m..<freeblock m2}"
    using f by (rule ivl_disj_un_two(3))
  then have s: "U1 \<union> {freeblock m1..<freeblock m2} \<subseteq> U \<union> {freeblock m..<freeblock m2}"
    "U \<union> {freeblock m..<freeblock m1} \<subseteq> U \<union> {freeblock m..<freeblock m2}"
    using a(1) unfolding grows_def by blast+
  then have "img m2 b = img m b" if "b \<notin> U \<union> {freeblock m..<freeblock m2}" for b
    using a that unfolding grows_def by (metis subsetD)
  then show ?thesis using a f s unfolding grows_def by (metis order_trans)
qed

lemma get32_zeros: "off + 4 \<le> n \<Longrightarrow> get32 (replicate n 0) off = 0"
  by (simp add: get32_def slice_def min_def of_le32_def)

lemma unat_block: "b \<le> FSSIZE + 1 \<Longrightarrow> unat (of_nat b :: u32) = b"
  by (rule unat_of_nat32) (simp add: FSSIZE_def)

lemma of_nat_block: "nmeta \<le> b \<Longrightarrow> b \<le> FSSIZE + 1 \<Longrightarrow> (of_nat b :: u32) \<noteq> 0"
  using unat_block [of b] by (metis add_0 le_zero_eq nmeta_def not_one_le_zero numeral_2_eq_2 add_is_0 nat.distinct(1) unsigned_0)

text \<open>A file without a \<open>K\<close>-th block gets a new one: a direct one, one in its indirect block, or one in a new
  indirect block.\<close>

lemma block_direct:
  assumes b: "blocks_ok m" and h: "holds (img m) d nmeta (freeblock m) K c" and K: "K < NDIRECT" and x: "freeblock m < FSSIZE"
    and d': "d' = d\<lparr>d_addrs := (d_addrs d)[K := of_nat (freeblock m)]\<rparr>" and m': "m' = m\<lparr>freeblock := freeblock m + 1\<rparr>"
  shows "fblk (img m') (file_of d') K = freeblock m" "holds (img m') d' nmeta (freeblock m') (Suc K) c"
    "grows m (fused (img m) d K) m' (fused (img m') d' (Suc K))"
proof -
  have l: "length (d_addrs d) = NDIRECT + 1" using h by (simp add: holds_def)
  show n: "fblk (img m') (file_of d') K = freeblock m" using K l x by (simp add: d' file_of_fblk unat_block)
  have "holds (img m') d' nmeta (freeblock m') (Suc K) c \<and> fused (img m') d' (Suc K) \<subseteq> fused (img m) d K \<union> {freeblock m..<freeblock m'}"
    using b K l h n by (intro conjI holds_extend [OF h]) (auto simp: m' d' blocks_ok_def file_of_fblk MAXFILE_def holds_def indb_def)
  then show "holds (img m') d' nmeta (freeblock m') (Suc K) c" "grows m (fused (img m) d K) m' (fused (img m') d' (Suc K))"
    using b x unfolding grows_def by (auto simp: m' blocks_ok_def)
qed

lemma ind_entry: "K < MAXFILE \<Longrightarrow> 4 * (K - NDIRECT) + 4 \<le> BSIZE"
  by (simp add: mk_sizes)

lemma block_indirect:
  assumes b: "blocks_ok m" and h: "holds (img m) d nmeta (freeblock m) K c" and K: "NDIRECT < K" "K < MAXFILE" and x: "freeblock m < FSSIZE"
    and m': "m' = wsect (indb d) (put32 (img m (indb d)) (4 * (K - NDIRECT)) (of_nat (freeblock m))) (m\<lparr>freeblock := freeblock m + 1\<rparr>)"
  shows "fblk (img m') (file_of d) K = freeblock m" "holds (img m') d nmeta (freeblock m') (Suc K) c"
    "grows m (fused (img m) d K) m' (fused (img m') d (Suc K))"
proof -
  have l: "length (img m (indb d)) = BSIZE" using b by (simp add: blocks_ok_def)
  have fld: "freeblock m' = freeblock m + 1" "img m' = (img m)(indb d := put32 (img m (indb d)) (4 * (K - NDIRECT)) (of_nat (freeblock m)))"
    "freeinode m' = freeinode m" by (simp_all add: m' wsect_def)
  have ib: "nmeta \<le> indb d" "indb d < freeblock m" using h fused_in(2) [OF K(1), of d "img m"] by (auto simp: holds_def)
  show n: "fblk (img m') (file_of d) K = freeblock m"
    using K l x ind_entry [OF K(2)] by (simp add: fld file_of_fblk unat_block get32_put32_same)
  have other: "get32 (img m' (indb d)) (4 * (k - NDIRECT)) = get32 (img m (indb d)) (4 * (k - NDIRECT))"
    if "k \<noteq> K" "k < MAXFILE" "NDIRECT \<le> k" for k
    using that K ind_entry [OF K(2)] ind_entry [OF that(2)] l by (simp add: fld) (intro get32_put32_other; force)
  have same: "fblk (img m') (file_of d) k = fblk (img m) (file_of d) k" if "k < K" for k
    using that K other [of k] by (simp add: file_of_fblk)
  have data: "img m' (fblk (img m) (file_of d) k) = img m (fblk (img m) (file_of d) k)" if "k < K" for k
    using h that K by (auto simp: fld holds_def file_inj_def indb_def)
  have z: "\<forall>k. K < k \<and> k < MAXFILE \<longrightarrow> get32 (img m' (indb d)) (4 * (k - NDIRECT)) = 0"
    using other h K unfolding holds_def by simp
  have "holds (img m') d nmeta (freeblock m') (Suc K) c \<and> fused (img m') d (Suc K) \<subseteq> fused (img m) d K \<union> {freeblock m..<freeblock m'}"
    using b K h n same data z fld(1) by (intro conjI holds_extend [OF h]) (simp_all add: blocks_ok_def holds_def)
  moreover have "blocks_ok m'" using b x ib ind_entry [OF K(2)] by (simp add: blocks_ok_def m' wsect_def)
  moreover have "indb d \<in> fused (img m) d K" by (rule fused_in(2) [OF K(1)])
  ultimately show "holds (img m') d nmeta (freeblock m') (Suc K) c" "grows m (fused (img m) d K) m' (fused (img m') d (Suc K))"
    unfolding grows_def by (auto simp: fld)
qed

lemma block_new_indirect:
  assumes b: "blocks_ok m" and h: "holds (img m) d nmeta (freeblock m) NDIRECT c" and x: "freeblock m + 1 < FSSIZE"
    and d': "d' = d\<lparr>d_addrs := (d_addrs d)[NDIRECT := of_nat (freeblock m)]\<rparr>"
    and m': "m' = wsect (freeblock m) (put32 (img m (freeblock m)) 0 (of_nat (freeblock m + 1))) (m\<lparr>freeblock := freeblock m + 2\<rparr>)"
  shows "fblk (img m') (file_of d') NDIRECT = freeblock m + 1" "holds (img m') d' nmeta (freeblock m') (Suc NDIRECT) c"
    "grows m (fused (img m) d NDIRECT) m' (fused (img m') d' (Suc NDIRECT))"
proof -
  have la: "length (d_addrs d) = NDIRECT + 1" using h by (simp add: holds_def)
  have la': "length (d_addrs d') = NDIRECT + 1" using la by (simp add: d')
  have ind: "indb d' = freeblock m" using la x by (simp add: d' indb_def unat_block)
  have z: "img m (freeblock m) = replicate BSIZE 0" using b by (simp add: blocks_ok_def)
  have fld: "freeblock m' = freeblock m + 2" "img m' = (img m)(freeblock m := put32 (replicate BSIZE 0) 0 (of_nat (freeblock m + 1)))"
    by (simp_all add: m' wsect_def z)
  show n: "fblk (img m') (file_of d') NDIRECT = freeblock m + 1"
    using x unat_block [of "freeblock m + 1"]
    by (simp add: fld file_of_fblk ind get32_put32_same BSIZE_def del: of_nat_add of_nat_Suc)
  have zs: "\<forall>k. NDIRECT < k \<and> k < MAXFILE \<longrightarrow> get32 (img m' (indb d')) (4 * (k - NDIRECT)) = 0"
    using ind_entry by (auto simp: fld ind get32_put32_other get32_zeros BSIZE_def)
  have same: "fblk (img m') (file_of d') k = fblk (img m) (file_of d) k" if "k < NDIRECT" for k
    using that by (simp add: file_of_fblk d')
  have "fblk (img m) (file_of d) k < freeblock m" if "k < NDIRECT" for k
    using h fused_in(1) [OF that, of "img m" d] by (auto simp: holds_def)
  then have data: "img m' (fblk (img m) (file_of d) k) = img m (fblk (img m) (file_of d) k)" if "k < NDIRECT" for k
    using that by (fastforce simp: fld)
  have "holds (img m') d' nmeta (freeblock m') (Suc NDIRECT) c
      \<and> fused (img m') d' (Suc NDIRECT) \<subseteq> fused (img m) d NDIRECT \<union> {freeblock m..<freeblock m'}"
    using b h n same data zs fld(1) la ind by (intro conjI holds_extend [OF h]) (auto simp: blocks_ok_def MAXFILE_def NINDIRECT_def la')
  moreover have "blocks_ok m'" using b x by (simp add: blocks_ok_def m' wsect_def BSIZE_def)
  ultimately show "holds (img m') d' nmeta (freeblock m') (Suc NDIRECT) c"
      "grows m (fused (img m) d NDIRECT) m' (fused (img m') d' (Suc NDIRECT))"
    unfolding grows_def by (auto simp: fld m' wsect_def)
qed

lemma fused_pos:
  assumes "holds v d nmeta hi K c"
  shows "k < K \<Longrightarrow> fblk v (file_of d) k \<noteq> 0" "NDIRECT < K \<Longrightarrow> d_addrs d ! NDIRECT \<noteq> 0"
  using assms fused_in(1) [of k K v d] fused_in(2) [of K d v] by (auto simp: holds_def indb_def nmeta_def)

lemma iappend_block_ok:
  assumes b: "blocks_ok m" and h: "holds (img m) d nmeta (freeblock m) K c" and k: "k \<le> K" "k < MAXFILE"
    and r: "iappend_block k d m = Inr (x, d', m')" and x: "x < FSSIZE"
  shows "\<exists>K'. k < K' \<and> holds (img m') d' nmeta (freeblock m') K' c \<and> x = fblk (img m') (file_of d') k
    \<and> grows m (fused (img m) d K) m' (fused (img m') d' K') \<and> d'\<lparr>d_addrs := d_addrs d\<rparr> = d"
proof (cases "k < K")
  case True
  have "k < NDIRECT \<Longrightarrow> d_addrs d ! k \<noteq> 0" "NDIRECT \<le> k \<Longrightarrow> d_addrs d ! NDIRECT \<noteq> 0 \<and> get32 (img m (indb d)) (4 * (k - NDIRECT)) \<noteq> 0"
    using fused_pos(1) [OF h True] fused_pos(2) [OF h] True by (auto simp: file_of_fblk split: if_splits)
  then have "d' = d \<and> m' = m \<and> x = fblk (img m) (file_of d) k"
    using r by (auto simp: iappend_block_def Let_def mbind_def rsect_def file_of_fblk indb_def split: if_splits sum.splits)
  then show ?thesis using True h grows_refl [OF b] by auto
next
  case False
  then have K: "k = K" using k by simp
  have fb: "nmeta \<le> freeblock m" "freeblock m \<le> FSSIZE" "sectors m = FSSIZE" using b by (simp_all add: blocks_ok_def)
  have nz: "(of_nat (freeblock m) :: u32) \<noteq> 0" using of_nat_block fb by simp
  have la: "length (d_addrs d) = NDIRECT + 1" using h by (simp add: holds_def)
  consider "K < NDIRECT" | "K = NDIRECT" | "NDIRECT < K" by linarith
  then show ?thesis
  proof cases
    case 1
    have "d_addrs d ! K = 0" using h 1 by (simp add: holds_def)
    then have e: "d' = d\<lparr>d_addrs := (d_addrs d)[K := of_nat (freeblock m)]\<rparr>" "m' = m\<lparr>freeblock := freeblock m + 1\<rparr>" "x = freeblock m"
      using r 1 la fb(2) unat_block [of "freeblock m"] by (auto simp: iappend_block_def K)
    from block_direct [OF b h 1 _ e(1,2)] show ?thesis using e x K by (intro exI [of _ "Suc K"]) simp
  next
    case 2
    have z: "d_addrs d ! NDIRECT = 0" using h 2 by (simp add: holds_def)
    have s: "freeblock m < FSSIZE" "img m (freeblock m) = replicate BSIZE 0"
      using r z 2 la fb unat_block [of "freeblock m"] b
      by (auto simp: iappend_block_def K mbind_def rsect_def blocks_ok_def Let_def split: if_splits)
    then have e: "d' = d\<lparr>d_addrs := (d_addrs d)[NDIRECT := of_nat (freeblock m)]\<rparr>"
      "m' = wsect (freeblock m) (put32 (img m (freeblock m)) 0 (of_nat (freeblock m + 1))) (m\<lparr>freeblock := freeblock m + 2\<rparr>)"
      "x = freeblock m + 1"
      using r z 2 la fb unat_block [of "freeblock m"] unat_block [of "freeblock m + 1"]
      by (auto simp: iappend_block_def K mbind_def rsect_def get32_zeros BSIZE_def Let_def get32_put32_same)
    from block_new_indirect [OF b h [unfolded 2] _ e(1,2)] show ?thesis using e x K 2 by (intro exI [of _ "Suc K"]) simp
  next
    case 3
    have nz: "d_addrs d ! NDIRECT \<noteq> 0" by (rule fused_pos(2) [OF h 3])
    have z: "get32 (img m (indb d)) (4 * (K - NDIRECT)) = 0" using h 3 k K by (simp add: holds_def)
    have len: "length (img m (indb d)) = BSIZE" using b by (simp add: blocks_ok_def)
    have e: "d' = d" "x = freeblock m"
      "m' = wsect (indb d) (put32 (img m (indb d)) (4 * (K - NDIRECT)) (of_nat (freeblock m))) (m\<lparr>freeblock := freeblock m + 1\<rparr>)"
      using r nz z 3 fb unat_block [of "freeblock m"] ind_entry [of K] k(2) len
      by (auto simp: iappend_block_def K mbind_def rsect_def Let_def get32_put32_same simp flip: indb_def split: if_splits)
    from block_indirect [OF b h 3 _ _ e(3)] show ?thesis using e x K k by (intro exI [of _ "Suc K"]) simp
  qed
qed

declare iappend_loop.simps [simp del]

lemma mbind_Inr: "mbind r f = Inr y \<longleftrightarrow> (\<exists>a. r = Inr a \<and> f a = Inr y)"
  by (cases r) (auto simp: mbind_def)

lemma massert_Inr: "massert b r = Inr y \<longleftrightarrow> b \<and> r = Inr y"
  by (simp add: massert_def)

lemma rsect_Inr: "rsect b m = Inr buf \<longleftrightarrow> b < sectors m \<and> buf = img m b"
  by (auto simp: rsect_def)

lemmas mk_run = mbind_Inr massert_Inr rsect_Inr

lemma iappend_block_sectors: "iappend_block k d m = Inr (x, d', m') \<Longrightarrow> sectors m' = sectors m"
  by (auto simp: iappend_block_def Let_def mk_run wsect_def split: if_splits)

lemma write_block_ok:
  assumes b: "blocks_ok m" and h: "holds (img m) d nmeta (freeblock m) K c" and k: "length c div BSIZE < K"
    and p: "length c mod BSIZE + length q \<le> BSIZE" and x: "x = fblk (img m) (file_of d) (length c div BSIZE)"
    and m': "m' = wsect x (splice (length c mod BSIZE) q (img m x)) m"
  shows "holds (img m') d nmeta (freeblock m') K (c @ q)" "grows m (fused (img m) d K) m' (fused (img m') d K)"
proof -
  have len: "length (img m b) = BSIZE" for b using b by (simp add: blocks_ok_def)
  have xi: "x \<in> fused (img m) d K" unfolding x by (rule fused_in(1) [OF k])
  then have xr: "nmeta \<le> x" "x < freeblock m" using h by (auto simp: holds_def)
  have fld: "img m' = (img m)(x := splice (length c mod BSIZE) q (img m x))" "freeblock m' = freeblock m" "freeinode m' = freeinode m"
    "sectors m' = sectors m" using xr b by (simp_all add: m' wsect_def blocks_ok_def)
  show "holds (img m') d nmeta (freeblock m') K (c @ q)" unfolding fld x by (rule holds_append(1) [OF h p k len])
  have u: "fused (img m') d K = fused (img m) d K" unfolding fld x by (rule holds_append(2) [OF h p k len])
  have "blocks_ok m'" using b xr len p by (simp add: blocks_ok_def fld)
  then show "grows m (fused (img m) d K) m' (fused (img m') d K)" using xi u by (auto simp: grows_def fld)
qed

text \<open>The part of \<open>p\<close> that one round writes.\<close>

lemma round_part:
  fixes c p :: bytes
  defines "k \<equiv> length c div BSIZE"
  defines "n1 \<equiv> min (length p) ((k + 1) * BSIZE - length c)"
  assumes "p \<noteq> []"
  shows "0 < n1" "n1 \<le> length p" "length c mod BSIZE + length (take n1 p) \<le> BSIZE" "length c - k * BSIZE = length c mod BSIZE"
proof -
  have lt: "length c < (k + 1) * BSIZE" unfolding k_def by (rule block_room(1))
  then show n1: "0 < n1" "n1 \<le> length p" using assms(3) by (auto simp: n1_def)
  show "length c - k * BSIZE = length c mod BSIZE" by (simp add: k_def modulo_nat_def)
  have "length c = k * BSIZE + length c mod BSIZE" by (simp add: k_def)
  moreover have "(k + 1) * BSIZE = k * BSIZE + BSIZE" by simp
  moreover have "length (take n1 p) = n1" "length c + n1 \<le> (k + 1) * BSIZE" using lt by (auto simp: n1_def)
  ultimately show "length c mod BSIZE + length (take n1 p) \<le> BSIZE" by linarith
qed

lemma iappend_loop_ok:
  "iappend_loop p (length c) d m = Inr (off', d', m') \<Longrightarrow> blocks_ok m \<Longrightarrow> holds (img m) d nmeta (freeblock m) K c \<Longrightarrow>
   \<exists>K'. off' = length (c @ p) \<and> holds (img m') d' nmeta (freeblock m') K' (c @ p)
     \<and> grows m (fused (img m) d K) m' (fused (img m') d' K') \<and> d'\<lparr>d_addrs := d_addrs d\<rparr> = d"
proof (induction p arbitrary: c d m K rule: length_induct)
  case (1 p)
  note run = 1(2) and b = 1(3) and h = 1(4)
  show ?case
  proof (cases "p = []")
    case True
    then have "off' = length c \<and> d' = d \<and> m' = m" using run by (subst (asm) iappend_loop.simps) simp
    then show ?thesis using True b h grows_refl by auto
  next
    case False
    define fbn n1 where "fbn = length c div BSIZE" and "n1 = min (length p) ((fbn + 1) * BSIZE - length c)"
    note n1 = round_part [OF False, of c, folded fbn_def, folded n1_def]
    from run False obtain x d1 m1 where
      r: "fbn < MAXFILE" "iappend_block fbn d m = Inr (x, d1, m1)" "x < sectors m1"
        "iappend_loop (drop n1 p) (length c + n1) d1 (wsect x (splice (length c - fbn * BSIZE) (take n1 p) (img m1 x)) m1) = Inr (off', d', m')"
      by (subst (asm) iappend_loop.simps) (auto simp: mk_run Let_def fbn_def n1_def)
    have kK: "fbn \<le> K" using h by (auto simp: fbn_def holds_def BSIZE_def)
    have x: "x < FSSIZE" using r(3) iappend_block_sectors [OF r(2)] b by (simp add: blocks_ok_def)
    from iappend_block_ok [OF b h kK r(1,2) x] obtain K1 where
      k1: "fbn < K1" "holds (img m1) d1 nmeta (freeblock m1) K1 c" "x = fblk (img m1) (file_of d1) fbn"
        "grows m (fused (img m) d K) m1 (fused (img m1) d1 K1)" "d1\<lparr>d_addrs := d_addrs d\<rparr> = d" by blast
    define m2 where "m2 = wsect x (splice (length c mod BSIZE) (take n1 p) (img m1 x)) m1"
    have b1: "blocks_ok m1" using k1(4) by (simp add: grows_def)
    note w = write_block_ok [OF b1 k1(2) k1(1) [unfolded fbn_def] n1(3) k1(3) [unfolded fbn_def] m2_def]
    have "iappend_loop (drop n1 p) (length (c @ take n1 p)) d1 m2 = Inr (off', d', m')"
      using r(4) n1 by (simp add: m2_def)
    moreover have "length (drop n1 p) < length p" "blocks_ok m2" using n1 w(2) by (auto simp: grows_def)
    ultimately have "\<exists>K'. off' = length ((c @ take n1 p) @ drop n1 p)
        \<and> holds (img m') d' nmeta (freeblock m') K' ((c @ take n1 p) @ drop n1 p)
        \<and> grows m2 (fused (img m2) d1 K1) m' (fused (img m') d' K') \<and> d'\<lparr>d_addrs := d_addrs d1\<rparr> = d1"
      using 1(1) w(1) by blast
    then obtain K' where
      k': "off' = length (c @ p)" "holds (img m') d' nmeta (freeblock m') K' (c @ p)"
        "grows m2 (fused (img m2) d1 K1) m' (fused (img m') d' K')" "d'\<lparr>d_addrs := d_addrs d1\<rparr> = d1"
      by auto
    have "d'\<lparr>d_addrs := d_addrs d\<rparr> = d" using k'(4) k1(5) by (cases d'; cases d1; cases d) auto
    then show ?thesis using k'(1,2) grows_trans [OF grows_trans [OF k1(4) w(2)] k'(3)] by blast
  qed
qed

end
