(* ===== verification/Mkfs_Spec.thy ===== *)
theory Mkfs_Spec
  imports Mkfs
begin

text \<open>
  What \<^verbatim>\<open>mkfs\<close> puts into the image. \<open>fs_inv m K cs\<close>: the inodes 1, 2 and so on of the image hold the byte sequences \<open>cs\<close>, in
  blocks that no two of them share, and everything beyond the allocated inodes and blocks is still zero.
\<close>

definition ninos :: nat where
  "ninos = ninodeblocks * IPB"

definition dino :: "mkfs \<Rightarrow> nat \<Rightarrow> dinode" where
  "dino m i = get_dinode (img m (IBLOCK i mk_sb)) (dinode_off i)"

definition sb_block :: bytes where
  "sb_block = splice 0 (enc_sb mk_sb) (replicate BSIZE 0)"

definition iused :: "mkfs \<Rightarrow> (nat \<Rightarrow> nat) \<Rightarrow> nat \<Rightarrow> nat set" where
  "iused m K i = fused (img m) (dino m (Suc i)) (K i)"

definition inode_is :: "mkfs \<Rightarrow> nat \<Rightarrow> nat \<Rightarrow> bytes \<Rightarrow> bool" where
  "inode_is m i k c \<longleftrightarrow> holds (img m) (dino m (Suc i)) nmeta (freeblock m) k c \<and> d_size (dino m (Suc i)) = of_nat (length c)
     \<and> d_type (dino m (Suc i)) = (if i = 0 then T_DIR else T_FILE) \<and> d_nlink (dino m (Suc i)) = 1"

definition fs_inv :: "mkfs \<Rightarrow> (nat \<Rightarrow> nat) \<Rightarrow> bytes list \<Rightarrow> bool" where
  "fs_inv m K cs \<longleftrightarrow> blocks_ok m \<and> freeinode m = Suc (length cs) \<and> length cs < ninos
     \<and> img m 1 = sb_block \<and> (\<forall>b < sb_inodestart mk_sb. b \<noteq> 1 \<longrightarrow> img m b = replicate BSIZE 0)
     \<and> (\<forall>i. length cs < i \<and> i < ninos \<longrightarrow> d_type (dino m i) = 0)
     \<and> (\<forall>i < length cs. inode_is m i (K i) (cs ! i))
     \<and> (\<forall>i < length cs. \<forall>j < length cs. i \<noteq> j \<longrightarrow> iused m K i \<inter> iused m K j = {})"

lemma iblock_range: "i < ninos \<Longrightarrow> sb_inodestart mk_sb \<le> IBLOCK i mk_sb \<and> IBLOCK i mk_sb < nmeta \<and> 1 < IBLOCK i mk_sb
    \<and> IBLOCK i mk_sb < sb_bmapstart mk_sb"
  by (simp add: IBLOCK_def mk_sb_def ninos_def mk_sizes less_mult_imp_div_less)

lemma dinode_off_other: "i \<noteq> j \<Longrightarrow> IBLOCK i mk_sb = IBLOCK j mk_sb \<Longrightarrow>
    dinode_off i + 64 \<le> dinode_off j \<or> dinode_off j + 64 \<le> dinode_off i"
proof -
  assume a: "i \<noteq> j" "IBLOCK i mk_sb = IBLOCK j mk_sb"
  then have "i div 8 = j div 8" by (simp add: IBLOCK_def IPB_def)
  then have "i mod 8 \<noteq> j mod 8" using a(1) by (metis div_mult_mod_eq)
  then show ?thesis by (auto simp: dinode_off_def IPB_def neq_iff)
qed

lemma winode_ok:
  assumes b: "blocks_ok m" and i: "i < ninos" and d: "length (d_addrs d) = NDIRECT + 1" and r: "winode i d m = Inr m'"
  shows "blocks_ok m'" "freeblock m' = freeblock m" "freeinode m' = freeinode m" "dino m' i = d"
    "\<And>j. j \<noteq> i \<Longrightarrow> dino m' j = dino m j" "\<And>b. b \<noteq> IBLOCK i mk_sb \<Longrightarrow> img m' b = img m b"
proof -
  have len: "length (img m b) = BSIZE" for b using b by (simp add: blocks_ok_def)
  have ib: "IBLOCK i mk_sb < freeblock m" using iblock_range [OF i] b by (simp add: blocks_ok_def)
  have m': "m' = wsect (IBLOCK i mk_sb) (put_dinode (img m (IBLOCK i mk_sb)) (dinode_off i) d) m"
    using r by (simp add: winode_def mk_run Let_def)
  show "freeblock m' = freeblock m" "freeinode m' = freeinode m" "\<And>b. b \<noteq> IBLOCK i mk_sb \<Longrightarrow> img m' b = img m b"
    by (simp_all add: m' wsect_def)
  show "blocks_ok m'" using b ib d len dinode_off_le by (simp add: blocks_ok_def m' wsect_def)
  show "dino m' i = d" using d len dinode_off_le by (simp add: dino_def m' wsect_def get_put_dinode)
  show "dino m' j = dino m j" if "j \<noteq> i" for j
    using that d len dinode_off_le dinode_off_other [of j i] by (simp add: dino_def m' wsect_def get_put_dinode_other)
qed

lemma winode_runs: "blocks_ok m \<Longrightarrow> i < ninos \<Longrightarrow> \<exists>m'. winode i d m = Inr m'"
  using iblock_range [of i] by (simp add: winode_def mbind_def rsect_def blocks_ok_def Let_def mk_sizes)

text \<open>The invariant when one inode changes.\<close>

lemma fs_inv_change:
  assumes inv: "fs_inv m K cs" and i: "i < length cs" and b: "blocks_ok m'" and fi: "freeinode m' = freeinode m"
    and fb: "freeblock m \<le> freeblock m'" and new: "inode_is m' i k c"
    and img: "\<And>b. b \<notin> iused m K i \<union> {freeblock m..<freeblock m'} \<union> {IBLOCK (Suc i) mk_sb} \<Longrightarrow> img m' b = img m b"
    and din: "\<And>j. j \<noteq> Suc i \<Longrightarrow> j < ninos \<Longrightarrow> dino m' j = dino m j"
    and us: "fused (img m') (dino m' (Suc i)) k \<subseteq> iused m K i \<union> {freeblock m..<freeblock m'}"
  shows "fs_inv m' (K(i := k)) (cs[i := c])"
proof -
  have range: "iused m K j \<subseteq> {nmeta..<freeblock m}" if "j < length cs" for j
    using inv that by (auto simp: fs_inv_def inode_is_def holds_def iused_def)
  have ibi: "1 < IBLOCK (Suc i) mk_sb" "sb_inodestart mk_sb \<le> IBLOCK (Suc i) mk_sb" "IBLOCK (Suc i) mk_sb < nmeta"
    using iblock_range [of "Suc i"] i inv by (auto simp: fs_inv_def)
  have sb: "sb_inodestart mk_sb \<le> nmeta" "1 < nmeta" by (simp_all add: mk_sb_def nmeta_def)
  have low: "img m' b = img m b" if "b < nmeta" "b \<noteq> IBLOCK (Suc i) mk_sb" for b
    using that range [OF i] fb inv by (intro img) (auto simp: fs_inv_def blocks_ok_def)
  have other: "inode_is m' j (K j) (cs ! j)" "fused (img m') (dino m' (Suc j)) (K j) = iused m K j"
    if j: "j < length cs" "j \<noteq> i" for j
  proof -
    have ij: "inode_is m j (K j) (cs ! j)" using inv j by (simp add: fs_inv_def)
    have dj: "dino m' (Suc j) = dino m (Suc j)" using j din inv by (simp add: fs_inv_def)
    have "iused m K j \<inter> iused m K i = {}" using inv i j by (simp add: fs_inv_def)
    then have f: "\<forall>b\<in>iused m K j. img m' b = img m b" using range [OF j(1)] ibi(3) by (auto intro!: img)
    have h: "holds (img m) (dino m (Suc j)) nmeta (freeblock m) (K j) (cs ! j)" using ij by (simp add: inode_is_def)
    note hf = holds_frame [OF h f [unfolded iused_def] fb]
    show "inode_is m' j (K j) (cs ! j)" using ij hf(1) by (simp add: inode_is_def dj)
    show "fused (img m') (dino m' (Suc j)) (K j) = iused m K j" using hf(2) by (simp add: dj iused_def)
  qed
  have apart: "iused m' (K(i := k)) a \<inter> iused m' (K(i := k)) c = {}" if "a < length cs" "c < length cs" "a \<noteq> c" for a c
  proof -
    have "iused m' (K(i := k)) i \<inter> iused m K j = {}" if j: "j < length cs" "j \<noteq> i" for j
      using us range [OF j(1)] inv i j by (fastforce simp: iused_def [of m'] fs_inv_def)
    moreover have "iused m' (K(i := k)) j = iused m K j" if "j < length cs" "j \<noteq> i" for j
      using other(2) [OF that] that by (simp add: iused_def)
    moreover have "iused m K a \<inter> iused m K c = {}" using inv that by (simp add: fs_inv_def)
    ultimately show ?thesis using that by (cases "a = i"; cases "c = i") (auto simp: Int_commute)
  qed
  have "inode_is m' j ((K(i := k)) j) (cs[i := c] ! j)" if "j < length cs" for j
    using other(1) [OF that] new that by (cases "j = i") auto
  moreover have "d_type (dino m' j) = 0" if "length cs < j" "j < ninos" for j
    using that i inv din [of j] by (simp add: fs_inv_def)
  moreover have "img m' 1 = sb_block" using low [of 1] ibi sb inv by (simp add: fs_inv_def)
  moreover have "img m' b = replicate BSIZE 0" if "b < sb_inodestart mk_sb" "b \<noteq> 1" for b
    using low [of b] ibi sb inv that by (simp add: fs_inv_def)
  ultimately show ?thesis using inv b fi apart unfolding fs_inv_def by simp
qed

lemma holds_length: "holds v d lo hi K c \<Longrightarrow> length c \<le> 71680"
  using mult_le_mono1 [of K MAXFILE BSIZE] by (auto simp: holds_def mk_sizes)

lemma holds_addrs: "holds v (d\<lparr>d_size := n\<rparr>) lo hi K c = holds v d lo hi K c" "fused v (d\<lparr>d_size := n\<rparr>) K = fused v d K"
proof -
  have "fblk v (file_of (d\<lparr>d_size := n\<rparr>)) = fblk v (file_of d)" "fbyte v (file_of (d\<lparr>d_size := n\<rparr>)) = fbyte v (file_of d)"
    by (simp_all add: fun_eq_iff fblk_def fbyte_def)
  then show "holds v (d\<lparr>d_size := n\<rparr>) lo hi K c = holds v d lo hi K c" "fused v (d\<lparr>d_size := n\<rparr>) K = fused v d K"
    by (simp_all add: holds_def fused_def file_inj_def indb_def)
qed

lemma iappend_inv:
  assumes inv: "fs_inv m K cs" and i: "i < length cs" and r: "iappend (Suc i) p m = Inr m'"
  shows "\<exists>K'. fs_inv m' K' (cs[i := cs ! i @ p])"
proof -
  define d where "d = dino m (Suc i)"
  have ni: "Suc i < ninos" using i inv by (simp add: fs_inv_def)
  have b: "blocks_ok m" using inv by (simp add: fs_inv_def)
  have is_i: "inode_is m i (K i) (cs ! i)" using inv i by (simp add: fs_inv_def)
  then have h: "holds (img m) d nmeta (freeblock m) (K i) (cs ! i)" by (simp add: inode_is_def d_def)
  have sz: "unat (d_size d) = length (cs ! i)"
    using is_i holds_length [OF h] by (simp add: inode_is_def d_def unat_of_nat32)
  from r obtain off d1 m1 where
    l: "iappend_loop p (length (cs ! i)) d m = Inr (off, d1, m1)" "winode (Suc i) (d1\<lparr>d_size := of_nat off\<rparr>) m1 = Inr m'"
    by (auto simp: iappend_def rinode_def mk_run d_def dino_def simp flip: sz)
  from iappend_loop_ok [OF l(1) b h] obtain k where
    k: "off = length (cs ! i @ p)" "holds (img m1) d1 nmeta (freeblock m1) k (cs ! i @ p)"
      "grows m (fused (img m) d (K i)) m1 (fused (img m1) d1 k)" "d1\<lparr>d_addrs := d_addrs d\<rparr> = d" by blast
  have b1: "blocks_ok m1" and g: "freeblock m \<le> freeblock m1" "freeinode m1 = freeinode m"
    using k(3) by (simp_all add: grows_def)
  define d2 where "d2 = d1\<lparr>d_size := of_nat off\<rparr>"
  have la: "length (d_addrs d2) = NDIRECT + 1" using k(2) by (simp add: holds_def d2_def)
  note w = winode_ok [OF b1 ni la l(2) [folded d2_def]]
  have h2: "holds (img m1) d2 nmeta (freeblock m1) k (cs ! i @ p)" "fused (img m1) d2 k = fused (img m1) d1 k"
    using k(2) by (simp_all add: d2_def holds_addrs)
  have "\<forall>x\<in>fused (img m1) d2 k. img m' x = img m1 x"
    using h2(1) iblock_range [OF ni] by (auto simp: holds_def intro!: w(6))
  from holds_frame [OF h2(1) this order_refl]
  have h3: "holds (img m') d2 nmeta (freeblock m') k (cs ! i @ p)" "fused (img m') d2 k = fused (img m1) d1 k"
    using h2(2) w(2) by simp_all
  have "d_type (d1\<lparr>d_addrs := d_addrs d\<rparr>) = d_type d \<and> d_nlink (d1\<lparr>d_addrs := d_addrs d\<rparr>) = d_nlink d" unfolding k(4) by simp
  then have "d_type d2 = d_type d \<and> d_nlink d2 = d_nlink d" by (simp add: d2_def)
  then have new: "inode_is m' i k (cs ! i @ p)" using h3(1) is_i k(1) w(4) by (simp add: inode_is_def d_def d2_def)
  have low: "img m1 x = img m x" if "x < nmeta" for x
  proof -
    have "x \<notin> fused (img m) d (K i) \<union> {freeblock m..<freeblock m1}"
      using that h b by (auto simp: holds_def blocks_ok_def)
    then show ?thesis using k(3) unfolding grows_def by blast
  qed
  have "fs_inv m' (K(i := k)) (cs[i := cs ! i @ p])"
  proof (rule fs_inv_change [OF inv i w(1) _ _ new])
    show "freeinode m' = freeinode m" "freeblock m \<le> freeblock m'" using g w(2,3) by simp_all
    show "img m' x = img m x" if "x \<notin> iused m K i \<union> {freeblock m..<freeblock m'} \<union> {IBLOCK (Suc i) mk_sb}" for x
      using that k(3) w(2) w(6) [of x] unfolding grows_def iused_def d_def by simp
    show "dino m' j = dino m j" if "j \<noteq> Suc i" "j < ninos" for j
      using w(5) [OF that(1)] low iblock_range [OF that(2)] by (simp add: dino_def)
    show "fused (img m') (dino m' (Suc i)) k \<subseteq> iused m K i \<union> {freeblock m..<freeblock m'}"
      using h3(2) w(2,4) k(3) by (simp add: grows_def iused_def d_def)
  qed
  then show ?thesis by blast
qed

lemma empty_file: "length (d_addrs d) = NDIRECT + 1 \<Longrightarrow> d_addrs d = replicate (NDIRECT + 1) 0 \<Longrightarrow> holds v d lo hi 0 []"
  by (simp add: holds_def fused_def file_inj_def nth_append nth_Cons' flip: replicate_Suc)

lemma ialloc_inv:
  assumes inv: "fs_inv m K cs" and n: "Suc (length cs) < ninos" and ty: "type = (if cs = [] then T_DIR else T_FILE)"
    and r: "mk_ialloc type m = Inr (inum, m')"
  shows "inum = Suc (length cs) \<and> fs_inv m' (K(length cs := 0)) (cs @ [[]])"
proof -
  define m0 where "m0 = m\<lparr>freeinode := freeinode m + 1\<rparr>"
  define d where "d = zero_dinode\<lparr>d_type := type, d_nlink := 1, d_size := 0\<rparr>"
  have b0: "blocks_ok m0" using inv by (simp add: fs_inv_def m0_def blocks_ok_def)
  have la: "length (d_addrs d) = NDIRECT + 1" "d_addrs d = replicate (NDIRECT + 1) 0" by (simp_all add: d_def zero_dinode_def)
  have fi: "freeinode m = Suc (length cs)" using inv by (simp add: fs_inv_def)
  have inum: "inum = Suc (length cs)" "winode (Suc (length cs)) d m0 = Inr m'"
    using r by (auto simp: mk_ialloc_def mk_run m0_def d_def fi Let_def)
  note w = winode_ok [OF b0 n la(1) inum(2)]
  have fld: "freeblock m' = freeblock m" "freeinode m' = Suc (Suc (length cs))" using w(2,3) by (simp_all add: m0_def fi)
  have im: "img m' b = img m b" if "b \<noteq> IBLOCK (Suc (length cs)) mk_sb" for b using w(6) [OF that] by (simp add: m0_def)
  have dn: "dino m' j = dino m j" if "j \<noteq> Suc (length cs)" for j using w(5) [OF that] by (simp add: m0_def dino_def)
  have new: "inode_is m' (length cs) 0 []"
    using w(4) empty_file [OF la] by (auto simp: inode_is_def d_def ty)
  have old: "inode_is m' j (K j) (cs ! j)" "fused (img m') (dino m' (Suc j)) (K j) = iused m K j" if j: "j < length cs" for j
  proof -
    have ij: "inode_is m j (K j) (cs ! j)" using inv j by (simp add: fs_inv_def)
    have dj: "dino m' (Suc j) = dino m (Suc j)" using j dn by simp
    have h: "holds (img m) (dino m (Suc j)) nmeta (freeblock m) (K j) (cs ! j)" using ij by (simp add: inode_is_def)
    have "\<forall>b\<in>fused (img m) (dino m (Suc j)) (K j). img m' b = img m b"
      using h iblock_range [OF n] by (auto simp: holds_def intro!: im)
    note hf = holds_frame [OF h this order_refl]
    show "inode_is m' j (K j) (cs ! j)" using ij hf(1) fld(1) by (simp add: inode_is_def dj)
    show "fused (img m') (dino m' (Suc j)) (K j) = iused m K j" using hf(2) by (simp add: dj iused_def)
  qed
  let ?K = "K(length cs := 0)"
  have u: "iused m' ?K j = (if j = length cs then {} else iused m K j)" if "j \<le> length cs" for j
    using old(2) [of j] that by (auto simp: iused_def fused_def)
  have "iused m' ?K i \<inter> iused m' ?K j = {}" if "i < Suc (length cs)" "j < Suc (length cs)" "i \<noteq> j" for i j
    using u [of i] u [of j] that inv by (auto simp: fs_inv_def)
  moreover have "inode_is m' j (?K j) ((cs @ [[]]) ! j)" if "j < Suc (length cs)" for j
    using old(1) [of j] new that by (cases "j = length cs") (auto simp: nth_append)
  moreover have "d_type (dino m' j) = 0" if "Suc (length cs) < j" "j < ninos" for j
    using that inv dn [of j] by (simp add: fs_inv_def)
  moreover have "img m' 1 = sb_block" using im [of 1] iblock_range [OF n] inv by (simp add: fs_inv_def)
  moreover have "img m' b = replicate BSIZE 0" if "b < sb_inodestart mk_sb" "b \<noteq> 1" for b
    using im [of b] iblock_range [OF n] inv that by (simp add: fs_inv_def)
  ultimately show ?thesis using inum(1) fld w(1) n unfolding fs_inv_def by simp
qed

section \<open>The files of the image\<close>

definition file_data :: "(bytes \<Rightarrow> bytes list option) \<Rightarrow> bytes \<Rightarrow> bytes" where
  "file_data opn arg = concat (takeWhile (\<lambda>b. b \<noteq> []) (the (opn arg)))"

definition file_name :: "bytes \<Rightarrow> bytes" where
  "file_name arg = (if arg \<noteq> [] \<and> hd arg = 95 then tl arg else arg)"

fun dirents :: "nat \<Rightarrow> bytes list \<Rightarrow> bytes" where
  "dirents n [] = []"
| "dirents n (arg # args) = mk_dirent n (file_name arg) @ dirents (Suc n) args"

lemma copy_inv:
  "fs_inv m K cs \<Longrightarrow> i < length cs \<Longrightarrow> mk_copy (Suc i) reads m = Inr m' \<Longrightarrow>
   \<exists>K'. fs_inv m' K' (cs[i := cs ! i @ concat (takeWhile (\<lambda>b. b \<noteq> []) reads)])"
proof (induction reads arbitrary: m K cs)
  case Nil
  then show ?case by auto
next
  case (Cons buf reads)
  show ?case
  proof (cases "buf = []")
    case True
    then show ?thesis using Cons.prems by auto
  next
    case False
    then obtain m1 where m1: "iappend (Suc i) buf m = Inr m1" "mk_copy (Suc i) reads m1 = Inr m'"
      using Cons.prems(3) by (auto simp: mk_run)
    from iappend_inv [OF Cons.prems(1,2) m1(1)] obtain K1 where "fs_inv m1 K1 (cs[i := cs ! i @ buf])" by blast
    from Cons.IH [OF this _ m1(2)] show ?thesis using Cons.prems(2) False by simp
  qed
qed

lemma files_inv:
  "fs_inv m K (root # cs) \<Longrightarrow> mk_files opn (Suc 0) args m = Inr m' \<Longrightarrow> Suc (length cs + length args) < ninos \<Longrightarrow>
   \<exists>K'. fs_inv m' K' ((root @ dirents (Suc (Suc (length cs))) args) # cs @ map (file_data opn) args)
     \<and> (\<forall>arg\<in>set args. opn arg \<noteq> None \<and> slash \<notin> set arg)"
proof (induction args arbitrary: m K root cs)
  case Nil
  then show ?case by auto
next
  case (Cons arg args)
  from Cons.prems(2) obtain reads inum m1 m2 m3 where
    r: "slash \<notin> set arg" "opn arg = Some reads" "mk_ialloc T_FILE m = Inr (inum, m1)"
      "iappend (Suc 0) (mk_dirent inum (file_name arg)) m1 = Inr m2" "mk_copy inum reads m2 = Inr m3"
      "mk_files opn (Suc 0) args m3 = Inr m'"
    by (auto simp: mk_run file_name_def [symmetric] Let_def split: option.splits)
  have "Suc (length (root # cs)) < ninos" using Cons.prems(3) by simp
  from ialloc_inv [OF Cons.prems(1) this _ r(3)]
  have i1: "inum = Suc (Suc (length cs))" "fs_inv m1 (K(Suc (length cs) := 0)) (root # cs @ [[]])" by simp_all
  from iappend_inv [OF i1(2) _ r(4)] obtain K2 where
    i2: "fs_inv m2 K2 ((root @ mk_dirent inum (file_name arg)) # cs @ [[]])" by auto
  from copy_inv [OF i2, of "Suc (length cs)"] r(2,5) i1(1) obtain K3 where
    i3: "fs_inv m3 K3 ((root @ mk_dirent inum (file_name arg)) # cs @ [file_data opn arg])"
    by (auto simp: file_data_def)
  have "Suc (length (cs @ [file_data opn arg]) + length args) < ninos" using Cons.prems(3) by simp
  from Cons.IH [OF i3 r(6) this] show ?case using r(1,2) i1(1) by simp
qed

lemma zero_sectors: "img m = (\<lambda>_. replicate BSIZE 0) \<Longrightarrow>
    foldl (\<lambda>m i. wsect i (replicate BSIZE 0) m) m [0..<n] = m\<lparr>sectors := max (sectors m) n\<rparr>"
  by (induction n) (auto simp: wsect_def max_def fun_eq_iff)

lemma mk_empty_eq: "mk_empty = \<lparr>img = (\<lambda>_. replicate BSIZE 0)(1 := sb_block), sectors = FSSIZE, freeinode = 1, freeblock = nmeta\<rparr>"
  unfolding mk_empty_def Let_def by (subst zero_sectors) (simp_all add: wsect_def sb_block_def FSSIZE_def)

lemma length_sb_block: "length sb_block = BSIZE"
  by (simp add: sb_block_def enc_sb_def BSIZE_def)

lemma empty_inv: "fs_inv mk_empty K []"
proof -
  have "d_type (dino mk_empty i) = 0" if "i < ninos" for i
  proof -
    have "dinode_off i + 2 \<le> BSIZE" using dinode_off_le [of i] by simp
    then have "get16 (replicate BSIZE 0) (dinode_off i) = 0" by (simp add: get16_def slice_def min_def of_le16_def)
    then show ?thesis using iblock_range [OF that] by (simp add: dino_def mk_empty_eq get_dinode_def)
  qed
  then show ?thesis
    by (simp add: fs_inv_def blocks_ok_def mk_empty_eq length_sb_block) (simp add: ninos_def mk_sizes)
qed

lemma sb_block_decodes: "sb_of sb_block = mk_sb"
  by code_simp

lemma bitmap_of:
  "length d = BSIZE \<Longrightarrow> n \<le> BSIZE * 8 \<Longrightarrow> b < BSIZE * 8 \<Longrightarrow>
   bit_free (foldl mark_used d [0..<n]) b \<longleftrightarrow> n \<le> b \<and> bit_free d b"
proof (induction n)
  case (Suc n)
  have "length (foldl mark_used d [0..<n]) = BSIZE" using Suc.prems(1) by (induction n) simp_all
  then show ?case using Suc bit_free_marks(1) [of n "foldl mark_used d [0..<n]" b] by auto
qed simp

lemma finish_inv:
  assumes inv: "fs_inv m K (root # cs)" and r: "mk_finish (Suc 0) m = Inr m'"
  shows "freeblock m' = freeblock m" "\<And>b. b < FSSIZE \<Longrightarrow> blk_free mk_sb (img m') b \<longleftrightarrow> freeblock m \<le> b"
    "\<And>b. nmeta \<le> b \<Longrightarrow> img m' b = img m b" "\<And>b. b < sb_inodestart mk_sb \<Longrightarrow> img m' b = img m b"
    "\<And>i. i \<noteq> 1 \<Longrightarrow> i < ninos \<Longrightarrow> dino m' i = dino m i"
    "dino m' 1 = (dino m 1)\<lparr>d_size := of_nat ((length root div BSIZE + 1) * BSIZE)\<rparr>"
    "\<And>b. length (img m' b) = BSIZE"
proof -
  have b: "blocks_ok m" and n: "Suc 0 < ninos" using inv by (simp_all add: fs_inv_def ninos_def mk_sizes)
  have i0: "inode_is m 0 (K 0) root" using inv by (auto simp: fs_inv_def)
  then have h: "holds (img m) (dino m 1) nmeta (freeblock m) (K 0) root" by (simp add: inode_is_def)
  have sz: "unat (d_size (dino m 1)) = length root"
    using i0 holds_length [OF h] by (simp add: inode_is_def unat_of_nat32)
  define d where "d = (dino m 1)\<lparr>d_size := of_nat ((length root div BSIZE + 1) * BSIZE)\<rparr>"
  have la: "length (d_addrs d) = NDIRECT + 1" using h by (simp add: holds_def d_def)
  from r obtain m1 where m1: "winode (Suc 0) d m = Inr m1" "mk_balloc (freeblock m1) m1 = Inr m'"
    by (auto simp: mk_finish_def rinode_def mk_run Let_def d_def dino_def sz [unfolded dino_def One_nat_def])
  note w = winode_ok [OF b n la m1(1)]
  have bm: "sb_bmapstart mk_sb = 58" "BPB = BSIZE * 8" by (simp_all add: mk_sb_def BPB_def mk_sizes)
  have m': "m' = wsect 58 (foldl mark_used (replicate BSIZE 0) [0..<freeblock m]) m1" and fb: "freeblock m < BSIZE * 8"
    using m1(2) w(2) by (auto simp: mk_balloc_def mk_run bm)
  show "freeblock m' = freeblock m" using w(2) by (simp add: m' wsect_def)
  show "blk_free mk_sb (img m') x \<longleftrightarrow> freeblock m \<le> x" if "x < FSSIZE" for x
  proof -
    have x: "x < BSIZE * 8" "BBLOCK x mk_sb = 58" "x mod BPB = x"
      using that by (simp_all add: BBLOCK_def bm BPB_def FSSIZE_def BSIZE_def)
    have "bit_free (replicate BSIZE 0) x" using x(1) by (simp add: bit_free_def BSIZE_def)
    then show ?thesis using bitmap_of [of "replicate BSIZE 0" "freeblock m" x] x fb
      by (simp add: blk_free_def m' wsect_def)
  qed
  have "length (foldl mark_used d xs) = length d" for d xs by (induction xs arbitrary: d) simp_all
  then show "length (img m' x) = BSIZE" for x using w(1) by (simp add: m' wsect_def blocks_ok_def)
  have ib: "sb_inodestart mk_sb = 32" "nmeta = 59" by (simp_all add: mk_sb_def mk_sizes)
  show "img m' x = img m x" if "nmeta \<le> x" for x
    using that w(6) [of x] iblock_range [OF n] ib by (simp add: m' wsect_def)
  show "img m' x = img m x" if "x < sb_inodestart mk_sb" for x
    using that w(6) [of x] iblock_range [OF n] ib by (simp add: m' wsect_def)
  show "dino m' i = dino m i" if "i \<noteq> 1" "i < ninos" for i
    using that w(5) [of i] iblock_range [OF that(2)] bm by (simp add: dino_def m' wsect_def)
  show "dino m' 1 = (dino m 1)\<lparr>d_size := of_nat ((length root div BSIZE + 1) * BSIZE)\<rparr>"
    using w(4) iblock_range [OF n] bm by (simp add: dino_def m' wsect_def d_def)
qed

section \<open>Success\<close>

text \<open>Appending succeeds when there is room in the file and on the disk (a bound that is enough: each byte may need a
  block and an indirect block).\<close>

lemma iappend_block_runs:
  assumes b: "blocks_ok m" and h: "holds (img m) d nmeta (freeblock m) K c" and k: "k \<le> K" "k < MAXFILE" and fb: "freeblock m + 2 \<le> FSSIZE"
  shows "\<exists>x d' m'. iappend_block k d m = Inr (x, d', m') \<and> x < FSSIZE \<and> freeblock m' \<le> freeblock m + 2"
proof -
  have s: "sectors m = FSSIZE" using b by (simp add: blocks_ok_def)
  have u: "unat (of_nat (freeblock m) :: u32) = freeblock m" "unat (1 + of_nat (freeblock m) :: u32) = Suc (freeblock m)"
    using unat_block [of "freeblock m"] unat_block [of "Suc (freeblock m)"] fb by simp_all
  have la: "length (d_addrs d) = NDIRECT + 1" using h by (simp add: holds_def)
  have used: "x < FSSIZE" if "x \<in> fused (img m) d K" for x using h that fb by (auto simp: holds_def)
  have e1: "unat (d_addrs d ! k) < FSSIZE" if "k < NDIRECT" "d_addrs d ! k \<noteq> 0"
  proof -
    have "k < K" using h that unfolding holds_def by (metis not_le)
    then show ?thesis using used fused_in(1) [of k K "img m" d] that by (simp add: file_of_fblk)
  qed
  have e2: "indb d < FSSIZE" "\<And>j. K \<le> j \<Longrightarrow> j < MAXFILE \<Longrightarrow> get32 (img m (indb d)) (4 * (j - NDIRECT)) = 0"
    if "d_addrs d ! NDIRECT \<noteq> 0"
  proof -
    have "NDIRECT < K" using h that unfolding holds_def by (metis not_le)
    then show "indb d < FSSIZE" "\<And>j. K \<le> j \<Longrightarrow> j < MAXFILE \<Longrightarrow> get32 (img m (indb d)) (4 * (j - NDIRECT)) = 0"
      using used fused_in(2) [of K d "img m"] h by (auto simp: holds_def)
  qed
  have e3: "unat (get32 (img m (indb d)) (4 * (k - NDIRECT))) < FSSIZE"
    if "\<not> k < NDIRECT" "d_addrs d ! NDIRECT \<noteq> 0" "get32 (img m (indb d)) (4 * (k - NDIRECT)) \<noteq> 0"
  proof -
    have "k < K" using e2(2) [OF that(2), of k] that(3) k(2) by (metis not_le)
    then show ?thesis using used fused_in(1) [of k K "img m" d] that by (simp add: file_of_fblk)
  qed
  have z: "get32 (img m (freeblock m)) (4 * (k - NDIRECT)) = 0"
    using b ind_entry [OF k(2)] by (simp add: blocks_ok_def get32_zeros)
  have len: "length (img m x) = BSIZE" for x using b by (simp add: blocks_ok_def)
  note ie = ind_entry [OF k(2)]
  show ?thesis
    using e1 e2 [unfolded indb_def] e3 [unfolded indb_def] s u fb la len z ie
    by (cases "k < NDIRECT"; cases "d_addrs d ! NDIRECT = 0"; cases "get32 (img m (unat (d_addrs d ! NDIRECT))) (4 * (k - NDIRECT)) = 0")
      (auto simp: iappend_block_def Let_def mbind_def rsect_def wsect_def get32_put32_same)
qed

lemma iappend_loop_runs:
  "blocks_ok m \<Longrightarrow> holds (img m) d nmeta (freeblock m) K c \<Longrightarrow> length c + length p \<le> MAXFILE * BSIZE
   \<Longrightarrow> freeblock m + 2 * length p \<le> FSSIZE \<Longrightarrow>
   \<exists>off d' m'. iappend_loop p (length c) d m = Inr (off, d', m') \<and> freeblock m' \<le> freeblock m + 2 * length p"
proof (induction p arbitrary: c d m K rule: length_induct)
  case (1 p)
  note b = 1(2) and h = 1(3) and l = 1(4) and f = 1(5)
  show ?case
  proof (cases "p = []")
    case True
    then show ?thesis by (subst iappend_loop.simps) simp
  next
    case False
    define fbn n1 where "fbn = length c div BSIZE" and "n1 = min (length p) ((fbn + 1) * BSIZE - length c)"
    have "length c < MAXFILE * BSIZE" using l False by (cases p) auto
    then have k: "fbn < MAXFILE" unfolding fbn_def by (rule less_mult_imp_div_less)
    have kK: "fbn \<le> K" using h by (auto simp: fbn_def holds_def BSIZE_def)
    have "freeblock m + 2 \<le> FSSIZE" using f False by (cases p) auto
    from iappend_block_runs [OF b h kK k this] obtain x d1 m1 where
      r: "iappend_block fbn d m = Inr (x, d1, m1)" "x < FSSIZE" "freeblock m1 \<le> freeblock m + 2" by blast
    note n1 = round_part [OF False, of c, folded fbn_def, folded n1_def]
    from iappend_block_ok [OF b h kK k r(1,2)] obtain K1 where
      k1: "fbn < K1" "holds (img m1) d1 nmeta (freeblock m1) K1 c" "x = fblk (img m1) (file_of d1) fbn" "blocks_ok m1"
      unfolding grows_def by blast
    define m2 where "m2 = wsect x (splice (length c mod BSIZE) (take n1 p) (img m1 x)) m1"
    note w = write_block_ok [OF k1(4,2) k1(1) [unfolded fbn_def] n1(3) k1(3) [unfolded fbn_def] m2_def]
    have f2: "freeblock m2 = freeblock m1" "blocks_ok m2" using w(2) by (auto simp: m2_def wsect_def grows_def)
    have "\<exists>off d' m'. iappend_loop (drop n1 p) (length (c @ take n1 p)) d1 m2 = Inr (off, d', m') \<and> freeblock m' \<le> freeblock m2 + 2 * length (drop n1 p)"
      using 1(1) [rule_format, of "drop n1 p", OF _ f2(2) w(1)] n1 l f f2(1) r(3) by simp
    then obtain off d' m' where
      e: "iappend_loop (drop n1 p) (length c + n1) d1 m2 = Inr (off, d', m')" "freeblock m' \<le> freeblock m2 + 2 * (length p - n1)"
      using n1(2) by auto
    have "x < sectors m1" using r(2) k1(4) by (simp add: blocks_ok_def)
    then have "iappend_loop p (length c) d m = Inr (off, d', m')"
      using e(1) r(1) k False n1(4) unfolding m2_def
      by (subst iappend_loop.simps) (simp add: mbind_def massert_def rsect_def Let_def n1_def flip: fbn_def)
    then show ?thesis using e(2) f2(1) r(3) n1 by auto
  qed
qed

lemma iappend_runs:
  assumes inv: "fs_inv m K cs" and i: "i < length cs" and l: "length (cs ! i) + length p \<le> MAXFILE * BSIZE"
    and f: "freeblock m + 2 * length p \<le> FSSIZE"
  shows "\<exists>m'. iappend (Suc i) p m = Inr m' \<and> freeblock m' \<le> freeblock m + 2 * length p"
proof -
  define d where "d = dino m (Suc i)"
  have ni: "Suc i < ninos" using i inv by (simp add: fs_inv_def)
  have b: "blocks_ok m" using inv by (simp add: fs_inv_def)
  have is_i: "inode_is m i (K i) (cs ! i)" using inv i by (simp add: fs_inv_def)
  then have h: "holds (img m) d nmeta (freeblock m) (K i) (cs ! i)" by (simp add: inode_is_def d_def)
  have sz: "unat (d_size d) = length (cs ! i)"
    using is_i holds_length [OF h] by (simp add: inode_is_def d_def unat_of_nat32)
  from iappend_loop_runs [OF b h l f] obtain off d1 m1 where
    r: "iappend_loop p (length (cs ! i)) d m = Inr (off, d1, m1)" "freeblock m1 \<le> freeblock m + 2 * length p" by blast
  have b1: "blocks_ok m1" and la: "length (d_addrs d1) = NDIRECT + 1"
    using iappend_loop_ok [OF r(1) b h] by (auto simp: grows_def holds_def)
  from winode_runs [OF b1 ni] obtain m' where m': "winode (Suc i) (d1\<lparr>d_size := of_nat off\<rparr>) m1 = Inr m'" by blast
  have "rinode (Suc i) m = Inr d"
    using iblock_range [OF ni] b by (simp add: rinode_def mbind_def rsect_def d_def dino_def blocks_ok_def mk_sizes)
  then have "iappend (Suc i) p m = Inr m'" using r(1) m' sz by (simp add: iappend_def mbind_def)
  moreover have "freeblock m' = freeblock m1" using winode_ok(2) [OF b1 ni _ m'] la by simp
  ultimately show ?thesis using r(2) by auto
qed

section \<open>The finished image\<close>

definition file_blocks :: "mkfs \<Rightarrow> nat \<Rightarrow> nat \<Rightarrow> nat set" where
  "file_blocks m inum K = fused (img m) (dino m inum) K"

text \<open>The image as it should be: the super block, an empty log, a bitmap with the blocks below \<open>freeblock\<close> in use,
  the root directory with the entries \<open>root\<close>, the files with the contents \<open>datas\<close>, all in different data blocks that are in use.\<close>

definition image_ok :: "mkfs \<Rightarrow> bytes \<Rightarrow> bytes list \<Rightarrow> bool" where
  "image_ok m root datas \<longleftrightarrow> sb_of (img m 1) = mk_sb \<and> get32 (img m (sb_logstart mk_sb)) 0 = 0
     \<and> (\<forall>b. length (img m b) = BSIZE) \<and> (\<forall>b < FSSIZE. blk_free mk_sb (img m) b \<longleftrightarrow> freeblock m \<le> b) \<and> freeblock m \<le> FSSIZE
     \<and> (\<forall>i. length datas + 1 < i \<and> i < ninos \<longrightarrow> d_type (dino m i) = 0)
     \<and> (\<exists>K. holds (img m) (dino m 1) nmeta (freeblock m) (K 1) root
          \<and> d_type (dino m 1) = T_DIR \<and> unat (d_size (dino m 1)) = (length root div BSIZE + 1) * BSIZE
          \<and> (\<forall>k < length datas. holds (img m) (dino m (k + 2)) nmeta (freeblock m) (K (k + 2)) (datas ! k)
               \<and> d_type (dino m (k + 2)) = T_FILE \<and> unat (d_size (dino m (k + 2))) = length (datas ! k))
          \<and> (\<forall>i j. 0 < i \<and> i < j \<and> j < length datas + 2 \<longrightarrow> file_blocks m i (K i) \<inter> file_blocks m j (K j) = {}))"

lemma finished_image:
  assumes inv: "fs_inv m K (root # cs)" and r: "mk_finish (Suc 0) m = Inr m'"
  shows "image_ok m' root cs"
proof -
  note f = finish_inv [OF inv r]
  have b: "blocks_ok m" and nm: "nmeta = 59" "sb_inodestart mk_sb = 32" "sb_logstart mk_sb = 2"
    using inv by (simp_all add: fs_inv_def mk_sb_def mk_sizes)
  have is_i: "inode_is m i (K i) ((root # cs) ! i)" if "i < Suc (length cs)" for i using inv that by (simp add: fs_inv_def)
  have ni: "Suc (length cs) < ninos" using inv by (simp add: fs_inv_def)
  have d: "holds (img m') (dino m' (Suc i)) nmeta (freeblock m') (K i) ((root # cs) ! i)
      \<and> fused (img m') (dino m' (Suc i)) (K i) = iused m K i
      \<and> d_type (dino m' (Suc i)) = (if i = 0 then T_DIR else T_FILE)" if i: "i < Suc (length cs)" for i
  proof -
    have h: "holds (img m) (dino m (Suc i)) nmeta (freeblock m) (K i) ((root # cs) ! i)" using is_i [OF i] by (simp add: inode_is_def)
    have "\<forall>b\<in>fused (img m) (dino m (Suc i)) (K i). img m' b = img m b" using h f(3) by (auto simp: holds_def)
    note hf = holds_frame [OF h this order_refl]
    show ?thesis
      using hf f(1) f(5) [of "Suc i"] f(6) is_i [OF i] i ni by (cases "i = 0") (simp_all add: holds_addrs inode_is_def iused_def)
  qed
  have sz: "unat (d_size (dino m' 1)) = (length root div BSIZE + 1) * BSIZE"
  proof -
    have l: "length root \<le> 71680" using is_i [of 0] holds_length by (auto simp: inode_is_def)
    have "(length root div BSIZE + 1) * BSIZE \<le> length root + BSIZE" by (simp add: BSIZE_def)
    also have "\<dots> < 4294967296" using l by (simp add: BSIZE_def)
    finally have "unat (of_nat ((length root div BSIZE + 1) * BSIZE) :: u32) = (length root div BSIZE + 1) * BSIZE" by (rule unat_of_nat32)
    then show ?thesis by (subst f(6)) (simp del: of_nat_add of_nat_mult of_nat_Suc)
  qed
  have szk: "unat (d_size (dino m' (Suc (Suc k)))) = length (cs ! k)" if "k < length cs" for k
  proof -
    have "length (cs ! k) \<le> 71680" using is_i [of "Suc k"] that holds_length by (auto simp: inode_is_def)
    then show ?thesis using is_i [of "Suc k"] that f(5) [of "Suc (Suc k)"] ni by (simp add: inode_is_def unat_of_nat32)
  qed
  have apart: "iused m K i \<inter> iused m K j = {}" if "i < j" "j < Suc (length cs)" for i j using inv that by (simp add: fs_inv_def)
  have blocks: "file_blocks m' i (K (i - 1)) \<inter> file_blocks m' j (K (j - 1)) = {}" if "0 < i" "i < j" "j < length cs + 2" for i j
    using apart [of "i - 1" "j - 1"] d [of "i - 1"] d [of "j - 1"] that by (simp add: file_blocks_def)
  have dk: "holds (img m') (dino m' (Suc (Suc k))) nmeta (freeblock m') (K (Suc k)) (cs ! k) \<and> d_type (dino m' (Suc (Suc k))) = T_FILE"
    if "k < length cs" for k using d [of "Suc k"] that by simp
  have "get32 (replicate BSIZE 0) 0 = 0" by (simp add: get32_zeros BSIZE_def)
  moreover have "img m' 1 = sb_block" "img m' 2 = replicate BSIZE 0" using f(4) nm inv by (simp_all add: fs_inv_def)
  moreover have "d_type (dino m' i) = 0" if "length cs + 1 < i" "i < ninos" for i
    using that f(5) [of i] inv by (simp add: fs_inv_def)
  moreover have "freeblock m' \<le> FSSIZE" using b f(1) by (simp add: blocks_ok_def)
  moreover have "holds (img m') (dino m' 1) nmeta (freeblock m') (K 0) root" "d_type (dino m' 1) = T_DIR" using d [of 0] by simp_all
  ultimately show ?thesis
    using dk f(1,2,7) sz szk blocks sb_block_decodes unfolding image_ok_def
    by (intro conjI exI [of _ "\<lambda>i. K (i - 1)"]) (auto simp: nm(3))
qed

lemma mkfs_image:
  assumes r: "mkfs_main creat opn (fs_img # files) = Inr m" and n: "length files \<le> ninos - 2"
  shows "image_ok m (mk_dirent 1 [46] @ mk_dirent 1 [46, 46] @ dirents 2 files) (map (file_data opn) files)"
proof -
  from r obtain ino m1 m2 m3 m4 where
    s: "mk_ialloc T_DIR mk_empty = Inr (ino, m1)" "ino = 1" "iappend ino (mk_dirent ino [46]) m1 = Inr m2"
      "iappend ino (mk_dirent ino [46, 46]) m2 = Inr m3" "mk_files opn ino files m3 = Inr m4" "mk_finish ino m4 = Inr m"
    by (auto simp: mkfs_main_def mk_run ROOTINO_def split: if_splits)
  have ns: "Suc 0 < ninos" by (simp add: ninos_def mk_sizes)
  from ialloc_inv [OF empty_inv _ _ s(1)] ns obtain K1 where i1: "fs_inv m1 K1 [[]]" by auto
  from iappend_inv [OF i1, of 0] s(2,3) obtain K2 where i2: "fs_inv m2 K2 [mk_dirent 1 [46]]" by auto
  from iappend_inv [OF i2, of 0] s(2,4) obtain K3 where i3: "fs_inv m3 K3 [mk_dirent 1 [46] @ mk_dirent 1 [46, 46]]" by auto
  from files_inv [OF i3, of opn files m4] s(2,5) n ns obtain K4 where
    "fs_inv m4 K4 ((mk_dirent 1 [46] @ mk_dirent 1 [46, 46] @ dirents 2 files) # map (file_data opn) files)"
    by (fastforce simp: numeral_2_eq_2)
  from finished_image [OF this] s(2,6) show ?thesis by simp
qed

section \<open>Success of the whole program\<close>

lemma ialloc_runs:
  assumes "fs_inv m K cs" "Suc (length cs) < ninos"
  shows "\<exists>m'. mk_ialloc type m = Inr (Suc (length cs), m') \<and> freeblock m' = freeblock m"
proof -
  have fi: "freeinode m = Suc (length cs)" and b: "blocks_ok m" using assms(1) by (simp_all add: fs_inv_def)
  have "IBLOCK (Suc (length cs)) mk_sb < sectors m" using iblock_range [OF assms(2)] b by (simp add: blocks_ok_def mk_sizes)
  then show ?thesis by (simp add: mk_ialloc_def winode_def mbind_def rsect_def wsect_def Let_def fi)
qed

lemma copy_runs:
  "fs_inv m K cs \<Longrightarrow> i < length cs \<Longrightarrow> length (cs ! i) + length (concat (takeWhile (\<lambda>b. b \<noteq> []) reads)) \<le> MAXFILE * BSIZE
   \<Longrightarrow> freeblock m + 2 * length (concat (takeWhile (\<lambda>b. b \<noteq> []) reads)) \<le> FSSIZE \<Longrightarrow>
   \<exists>m'. mk_copy (Suc i) reads m = Inr m' \<and> freeblock m' \<le> freeblock m + 2 * length (concat (takeWhile (\<lambda>b. b \<noteq> []) reads))"
proof (induction reads arbitrary: m K cs)
  case (Cons buf reads)
  show ?case
  proof (cases "buf = []")
    case False
    then have "length (cs ! i) + length buf \<le> MAXFILE * BSIZE" "freeblock m + 2 * length buf \<le> FSSIZE" using Cons.prems by simp_all
    from iappend_runs [OF Cons.prems(1,2) this] obtain m1 where
      m1: "iappend (Suc i) buf m = Inr m1" "freeblock m1 \<le> freeblock m + 2 * length buf" by blast
    from iappend_inv [OF Cons.prems(1,2) m1(1)] obtain K1 where "fs_inv m1 K1 (cs[i := cs ! i @ buf])" by blast
    from Cons.IH [OF this] Cons.prems False m1 show ?thesis by (force simp: mbind_def)
  qed simp
qed simp

definition mk_need :: "(bytes \<Rightarrow> bytes list option) \<Rightarrow> bytes list \<Rightarrow> nat" where
  "mk_need opn args = (\<Sum>a\<leftarrow>args. 16 + length (file_data opn a))"

lemma length_mk_dirent [simp]: "length (mk_dirent n name) = 16"
  by (simp add: mk_dirent_def enc_dirent_def name_copy_def DIRSIZ_def)

lemma files_runs:
  "fs_inv m K (root # cs) \<Longrightarrow> \<forall>arg\<in>set args. opn arg \<noteq> None \<and> slash \<notin> set arg \<Longrightarrow> Suc (length cs + length args) < ninos
   \<Longrightarrow> length root + 16 * length args \<le> MAXFILE * BSIZE \<Longrightarrow> freeblock m + 2 * mk_need opn args \<le> FSSIZE \<Longrightarrow>
   \<exists>m'. mk_files opn (Suc 0) args m = Inr m'"
proof (induction args arbitrary: m K root cs)
  case (Cons arg args)
  from Cons.prems(2) obtain reads where o: "opn arg = Some reads" "slash \<notin> set arg" by auto
  define data where "data = concat (takeWhile (\<lambda>b. b \<noteq> []) reads)"
  have fd: "file_data opn arg = data" by (simp add: file_data_def o data_def)
  have room: "freeblock m + 32 + 2 * length data + 2 * mk_need opn args \<le> FSSIZE" using Cons.prems(5) fd by (simp add: mk_need_def)
  have n: "Suc (length (root # cs)) < ninos" using Cons.prems(3) by simp
  from ialloc_runs [OF Cons.prems(1) n, of T_FILE] obtain m1 where
    a: "mk_ialloc T_FILE m = Inr (Suc (Suc (length cs)), m1)" "freeblock m1 = freeblock m" by auto
  from ialloc_inv [OF Cons.prems(1) n _ a(1)] have i1: "fs_inv m1 (K(Suc (length cs) := 0)) (root # cs @ [[]])" by simp
  define e where "e = mk_dirent (Suc (Suc (length cs))) (file_name arg)"
  have le: "length e = 16" by (simp add: e_def)
  have "length ((root # cs @ [[]]) ! 0) + length e \<le> MAXFILE * BSIZE" "freeblock m1 + 2 * length e \<le> FSSIZE"
    using Cons.prems(4) room a(2) le by simp_all
  from iappend_runs [OF i1 _ this] obtain m2 where
    b: "iappend (Suc 0) e m1 = Inr m2" "freeblock m2 \<le> freeblock m + 32" using a(2) le by auto
  from iappend_inv [OF i1 _ b(1)] obtain K2 where i2: "fs_inv m2 K2 ((root @ e) # cs @ [[]])" by auto
  have "length (((root @ e) # cs @ [[]]) ! Suc (length cs)) + length data \<le> MAXFILE * BSIZE" "freeblock m2 + 2 * length data \<le> FSSIZE"
    using room b(2) by (simp_all add: mk_sizes)
  from copy_runs [OF i2 _ this [unfolded data_def], folded data_def] obtain m3 where
    c: "mk_copy (Suc (Suc (length cs))) reads m2 = Inr m3" "freeblock m3 \<le> freeblock m2 + 2 * length data" by auto
  from copy_inv [OF i2, of "Suc (length cs)" reads m3] c(1) obtain K3 where
    i3: "fs_inv m3 K3 ((root @ e) # cs @ [data])" by (auto simp: data_def)
  have "\<exists>m'. mk_files opn (Suc 0) args m3 = Inr m'"
    by (rule Cons.IH [OF i3]) (use Cons.prems room b(2) c(2) le in auto)
  then show ?case using o a(1) b(1) c(1) by (auto simp: massert_def mbind_def Let_def e_def file_name_def)
qed simp

lemma mkfs_runs:
  assumes "creat fs_img" "\<forall>arg\<in>set files. opn arg \<noteq> None \<and> slash \<notin> set arg" "length files \<le> ninos - 2"
    "nmeta + 64 + 2 * mk_need opn files \<le> FSSIZE"
  shows "\<exists>m. mkfs_main creat opn (fs_img # files) = Inr m"
proof -
  have ns: "Suc 0 < ninos" "ninos = 208" "MAXFILE * BSIZE = 71680" by (simp_all add: ninos_def mk_sizes)
  have fb0: "freeblock mk_empty = nmeta" by (simp add: mk_empty_eq)
  from ialloc_runs [OF empty_inv, of T_DIR] ns obtain m1 where
    a: "mk_ialloc T_DIR mk_empty = Inr (1, m1)" "freeblock m1 = nmeta" using fb0 by auto
  from ialloc_inv [OF empty_inv _ _ a(1)] ns obtain K1 where i1: "fs_inv m1 K1 [[]]" by auto
  have "\<exists>m'. iappend (Suc 0) (mk_dirent 1 [46]) m1 = Inr m' \<and> freeblock m' \<le> freeblock m1 + 2 * length (mk_dirent 1 [46])"
    by (rule iappend_runs [OF i1]) (use assms(4) a(2) ns in simp_all)
  then obtain m2 where b: "iappend 1 (mk_dirent 1 [46]) m1 = Inr m2" "freeblock m2 \<le> nmeta + 32" using a(2) by auto
  from iappend_inv [OF i1, of 0] b(1) obtain K2 where i2: "fs_inv m2 K2 [mk_dirent 1 [46]]" by auto
  have "\<exists>m'. iappend (Suc 0) (mk_dirent 1 [46, 46]) m2 = Inr m' \<and> freeblock m' \<le> freeblock m2 + 2 * length (mk_dirent 1 [46, 46])"
    by (rule iappend_runs [OF i2]) (use assms(4) b(2) ns in simp_all)
  then obtain m3 where c: "iappend 1 (mk_dirent 1 [46, 46]) m2 = Inr m3" "freeblock m3 \<le> nmeta + 64" using b(2) by auto
  from iappend_inv [OF i2, of 0] c(1) obtain K3 where i3: "fs_inv m3 K3 [mk_dirent 1 [46] @ mk_dirent 1 [46, 46]]" by auto
  have "\<exists>m'. mk_files opn (Suc 0) files m3 = Inr m'"
    by (rule files_runs [OF i3 assms(2)]) (use assms(3,4) c(2) ns in simp_all)
  then obtain m4 where d: "mk_files opn 1 files m3 = Inr m4" by auto
  have "Suc (length [] + length files) < ninos" using assms(3) ns by simp
  from files_inv [OF i3 _ this, of opn m4] d obtain K4 root cs where i4: "fs_inv m4 K4 (root # cs)" by auto
  have b4: "blocks_ok m4" and ib: "IBLOCK (Suc 0) mk_sb < FSSIZE"
    using i4 iblock_range [OF ns(1)] by (simp_all add: fs_inv_def mk_sizes)
  have "\<exists>m. mk_finish 1 m4 = Inr m"
    using b4 ib by (simp add: mk_finish_def rinode_def winode_def mk_balloc_def massert_def mbind_def rsect_def wsect_def blocks_ok_def Let_def)
      (simp add: mk_sizes)
  then show ?thesis using assms(1) a(1) b(1) c(1) d by (auto simp: mkfs_main_def mbind_def massert_def ROOTINO_def)
qed

end
