(* ===== verification/Image_Props.thy ===== *)
theory Image_Props
  imports Mkfs_Spec Fs_Props
begin


lemma load_inode_fields [simp]: "i_dev (load_inode d ip) = i_dev ip" "i_type (load_inode d ip) = d_type d"
    "i_size (load_inode d ip) = d_size d" "i_addrs (load_inode d ip) = d_addrs d"
  by (simp_all add: load_inode_def)



section \<open>The image\<close>



end
