(* ===== verification/Kernel_Props.thy ===== *)
theory Kernel_Props
  imports Example
begin

text \<open>
  The properties of the kernel below the file system: spin locks, sleep and wakeup, sleep locks, the
  scheduler, \<open>kill\<close>, the page allocator and the memory and string routines.
\<close>

section \<open>Spin locks\<close>

text \<open>
  C10. At most one CPU is between winning the exchange of \<open>acquire\<close> and the store that ends \<open>release\<close>,
  in every interleaving of the instructions of any number of CPUs; the lock word is set exactly while
  there is one, and the \<open>cpu\<close> field names a CPU exactly while it is in its critical section.
\<close>

theorem spin_mutual_exclusion:
  assumes "spin_reach r"
  shows "(lr_pc r i \<noteq> LSpin \<longrightarrow> lr_pc r j \<noteq> LSpin \<longrightarrow> i = j)
    \<and> (lk_locked (lr_lock r) \<longleftrightarrow> (\<exists>i. lr_pc r i \<noteq> LSpin)) \<and> (lk_cpu (lr_lock r) = Some i \<longleftrightarrow> lr_pc r i = LCrit)"
  using spin_reach_inv [OF assms] by (auto simp: lock_inv_def)

definition ex_run :: lockrun where
  "ex_run = \<lparr>lr_pc = (\<lambda>_. LSpin)(3 := LTaken), lr_lock = \<lparr>lk_locked = True, lk_cpu = None\<rparr>\<rparr>"

lemma ex_run_reach: "spin_reach ex_run"
  using spin_next [OF spin_start xchg_won [of lr_init 3]] by (simp add: lr_init_def free_lk_def ex_run_def)

theorem spin_mutual_exclusion_witness: "lr_pc ex_run 3 \<noteq> LSpin \<and> lr_pc ex_run 5 = LSpin"
  using spin_mutual_exclusion [OF ex_run_reach, of 3 5] by (auto simp: ex_run_def)





section \<open>Processes\<close>



text \<open>
  C14. A sleep lock has one holder and is handed over. On a free lock \<open>acquiresleep\<close> returns with the
  lock in the caller's name; on a lock that is taken the caller sleeps and the holder stays. When the
  holder releases it the sleeper is runnable, and when the sleeper runs it takes the lock.
\<close>

theorem sleeplock_handover:
  assumes s: "ready s" "curproc s < NPROC"
  shows "if sl_locked (slocks s l)
    then \<exists>s1 s2 s3. acquiresleep l s = Switch s1 \<and> slocks s1 = slocks s
      \<and> releasesleep l (s1\<lparr>spin := spin s\<rparr>) = Ret () s2 \<and> pstate (ptable s2 (curproc s)) = RUNNABLE
      \<and> acquiresleep_resume (curproc s) l (s2\<lparr>spin := sp_acq PtableLk (spin s)\<rparr>) = Ret () s3
      \<and> slocks s3 = (slocks s)(l := \<lparr>sl_locked = True, sl_pid = curpid s\<rparr>) \<and> spin s3 = spin s
    else \<exists>s1. acquiresleep l s = Ret () s1 \<and> slocks s1 = (slocks s)(l := \<lparr>sl_locked = True, sl_pid = curpid s\<rparr>)
      \<and> holdingsleep l s1 = Ret True s1"
proof (cases "sl_locked (slocks s l)")
  case False
  let ?s1 = "s\<lparr>slocks := (slocks s)(l := \<lparr>sl_locked = True, sl_pid = curpid s\<rparr>)\<rparr>"
  have "acquiresleep l s = Ret () ?s1" by (rule acquiresleep_free [OF s(1) False])
  moreover have "ready ?s1" "curpid ?s1 = curpid s" using s(1) by (simp_all add: ready_def curpid_def curproc_def)
  ultimately show ?thesis using False holdingsleep_run [of ?s1 l] by simp
next
  case True
  let ?p = "curproc s" and ?ch = "Some (ChanSleepLk l)"
  let ?s1 = "s\<lparr>spin := sp_acq PtableLk (spin s), ptable := asleep ?p ?ch (ptable s)\<rparr>"
  let ?s2 = "?s1\<lparr>spin := spin s, slocks := (slocks s)(l := free_sl), ptable := wake_fun ?ch (ptable ?s1)\<rparr>"
  have 1: "acquiresleep l s = Switch ?s1" by (rule acquiresleep_busy [OF s(1) True])
  have 2: "releasesleep l (?s1\<lparr>spin := spin s\<rparr>) = Ret () ?s2" using s(1) by (subst releasesleep_run) simp_all
  have 4: "pstate (ptable ?s2 ?p) = RUNNABLE" using s(2) by (simp add: wake_fun_asleep)
  let ?s3 = "?s2\<lparr>spin := spin s, ptable := (ptable ?s2)(?p := (ptable ?s2 ?p)\<lparr>pchan := None\<rparr>),
     slocks := (slocks ?s2)(l := \<lparr>sl_locked = True, sl_pid = pid (ptable ?s2 ?p)\<rparr>)\<rparr>"
  have 3: "acquiresleep_resume ?p l (?s2\<lparr>spin := sp_acq PtableLk (spin s)\<rparr>) = Ret () ?s3"
    using s(1) ready_cproc [OF s(1)] by (subst acquiresleep_resume_run [of "spin s"]) (simp_all add: free_sl_def)
  have 5: "pid (ptable ?s2 ?p) = curpid s" by (simp add: curpid_def asleep_def)
  show ?thesis
    unfolding if_P [OF True]
    by (rule exI [of _ ?s1], rule exI [of _ ?s2], rule exI [of _ ?s3], intro conjI 1 2 4)
      (use 3 5 in \<open>simp_all\<close>)
qed

theorem sleeplock_handover_witness: "\<exists>s1. acquiresleep (InodeLk 4) ex0 = Ret () s1 \<and> sl_pid (slocks s1 (InodeLk 4)) = 1"
  using sleeplock_handover [of ex0 "InodeLk 4"] by (auto simp: NPROC_def free_sl_def)

text \<open>
  C15. One round of the scheduler runs the first runnable process of the table: it switches to it with
  the process marked running and current on this CPU, its page table loaded, its kernel stack set for
  the next trap, the table lock held, and every other process as it was. With none runnable it
  releases the lock and the table is unchanged.
\<close>

theorem scheduler_runs_first:
  assumes s: "calm (spin s)" "ncli (cpus (spin s) (cur (spin s))) = 0" "eflags_if (spin s) (cur (spin s))"
    and k: "\<forall>i < NPROC. pstate (ptable s i) = RUNNABLE \<longrightarrow> kstack (ptable s i) \<noteq> 0 \<and> pgdir (ptable s i) \<noteq> 0"
  shows "case find (\<lambda>i. pstate (ptable s i) = RUNNABLE) [0..<NPROC] of
      None \<Rightarrow> scheduler_round (cur (spin s)) s = Ret () s
    | Some i \<Rightarrow> \<exists>s'. scheduler_round (cur (spin s)) s = Switch s'
        \<and> cproc (cpus (spin s') (cur (spin s))) = Some i \<and> pstate (ptable s' i) = RUNNING
        \<and> (\<forall>j. j \<noteq> i \<longrightarrow> ptable s' j = ptable s j) \<and> lk_cpu (locks (spin s') PtableLk) = Some (cur (spin s))
        \<and> cr3 s' (cur (spin s)) = V2P (pgdir (ptable s i)) \<and> ts_esp0 s' (cur (spin s)) = kstack (ptable s i) + KSTACKSIZE"
proof -
  let ?c = "cur (spin s)" and ?s = "s\<lparr>spin := sp_acq PtableLk (spin s)\<rparr>"
  have "spin s\<lparr>eflags_if := (eflags_if (spin s))(?c := True)\<rparr> = spin s" using s(3) by (simp add: fun_upd_idem)
  then have r: "scheduler_round ?c s = scheduler_pass ?c [0..<NPROC] ?s"
    using s(1) by (simp add: scheduler_round_def kexec spin_ops)
  show ?thesis
  proof (cases "find (\<lambda>i. pstate (ptable s i) = RUNNABLE) [0..<NPROC]")
    case None
    then have "\<forall>i \<in> set [0..<NPROC]. pstate (ptable ?s i) \<noteq> RUNNABLE" by (auto simp: find_None_iff)
    then have "scheduler_pass ?c [0..<NPROC] ?s = release PtableLk ?s"
      using scheduler_pass_skip [of "[0..<NPROC]" ?s ?c "[]"] by simp
    then show ?thesis using None r s(1) by (simp add: kexec)
  next
    case (Some i)
    then have i: "i < NPROC" "pstate (ptable s i) = RUNNABLE" "\<forall>j < i. pstate (ptable s j) \<noteq> RUNNABLE"
      by (auto simp: find_Some_iff)
    have sp: "[0..<NPROC] = [0..<i] @ i # [Suc i..<NPROC]" using i(1) upt_add_eq_append [of 0 i "NPROC - i"] by (simp add: upt_conv_Cons)
    have "scheduler_pass ?c [0..<NPROC] ?s = scheduler_pass ?c (i # [Suc i..<NPROC]) ?s"
      unfolding sp by (rule scheduler_pass_skip) (use i(3) in simp)
    then show ?thesis
      unfolding Some option.case r using i k s(1) scheduler_pass_runs [of ?s i "[Suc i..<NPROC]"] calmD(1,2) [OF s(1)] by simp
  qed
qed

theorem scheduler_runs_first_witness:
  "\<exists>s'. scheduler_round 0 (ex0\<lparr>ptable := (ptable ex0)(3 := ex_proc\<lparr>pstate := RUNNABLE\<rparr>)\<rparr>) = Switch s'
     \<and> cproc (cpus (spin s') 0) = Some 3 \<and> cr3 s' 0 = 0x400000"
proof -
  let ?s = "ex0\<lparr>ptable := (ptable ex0)(3 := ex_proc\<lparr>pstate := RUNNABLE\<rparr>)\<rparr>"
  have f: "find (\<lambda>i. pstate (ptable ?s i) = RUNNABLE) [0..<NPROC] = Some 3"
    by (rule find_upt_unique) (auto simp: NPROC_def ex_proc_def no_proc_def split: if_splits)
  have "\<forall>i < NPROC. pstate (ptable ?s i) = RUNNABLE \<longrightarrow> kstack (ptable ?s i) \<noteq> 0 \<and> pgdir (ptable ?s i) \<noteq> 0"
    by (simp add: ex_proc_def no_proc_def)
  then show ?thesis
    using scheduler_runs_first [of ?s, unfolded f option.case] ex_spin_wf
    by (auto simp: ex_proc_def V2P_def KERNBASE_def)
qed





definition newproc :: "('z kmstate_scheme) \<Rightarrow> nat \<Rightarrow> procstate \<Rightarrow> 'z kmstate_scheme" where
  "newproc s p st = (if kfreelist s = 0 then s else s\<lparr>kfreelist := load32 (pmem s) (kfreelist s)\<rparr>)
     \<lparr>nextpid := nextpid s + 1,
      ptable := (ptable s)(p := (ptable s p)\<lparr>pid := nextpid s, kstack := kfreelist s, pstate := st\<rparr>)\<rparr>"

lemma allocproc_run:
  assumes "calm (spin s)"
  shows "allocproc s = (case find (\<lambda>i. pstate (ptable s i) = UNUSED) [0..<NPROC] of
      None \<Rightarrow> Ret None s
    | Some p \<Rightarrow> if kfreelist s = 0 then Ret None (newproc s p UNUSED) else Ret (Some p) (newproc s p EMBRYO))"
proof -
  have k: "kmem_ready (s\<lparr>ptable := x, nextpid := y\<rparr>)" for x y using assms by (simp add: kmem_ready_def)
  have e: "x\<lparr>pstate := a, pid := b, kstack := c\<rparr> = x\<lparr>pid := b, kstack := c, pstate := a\<rparr>" for x :: proc and a b c
    by (cases x) simp
  show ?thesis
    unfolding allocproc_def using assms k by (simp add: kexec kmod_proc_def newproc_def e split: option.split)
qed



text \<open>
  A slot that was never used has pid 0, so \<open>kill(0)\<close> succeeds on it, and the next process created in the
  slot starts killed: \<open>allocproc\<close> does not clear the mark.
\<close>

lemma kill_zero_marks_next:
  assumes "calm (spin s)" "kfreelist s \<noteq> 0" "find (\<lambda>i. pstate (ptable s i) = UNUSED) [0..<NPROC] = Some i"
    "find (\<lambda>i. pid (ptable s i) = 0) [0..<NPROC] = Some i"
  shows "\<exists>s1 s2. kill 0 s = Ret 0 s1 \<and> allocproc s1 = Ret (Some i) s2 \<and> killed (ptable s2 i)"
proof -
  let ?s1 = "s\<lparr>ptable := kill_fun i (ptable s)\<rparr>"
  have k: "kill 0 s = Ret 0 ?s1" using kill_run [OF assms(1), of 0] assms(4) by simp
  have "pstate (kill_fun i (ptable s) j) = pstate (ptable s j)" if "j < NPROC" "j = i" for j
    using assms(3) that by (auto simp: kill_fun_def find_Some_iff)
  then have "find (\<lambda>i. pstate (ptable ?s1 i) = UNUSED) [0..<NPROC] = find (\<lambda>i. pstate (ptable s i) = UNUSED) [0..<NPROC]"
    by (intro find_cong) (auto simp: kill_fun_def)
  then have "allocproc ?s1 = Ret (Some i) (newproc ?s1 i EMBRYO)"
    using allocproc_run [of ?s1] assms by simp
  moreover have "killed (ptable (newproc ?s1 i EMBRYO) i)" by (simp add: newproc_def kill_fun_def)
  ultimately show ?thesis using k by blast
qed

section \<open>The page allocator\<close>

text \<open>
  C18. The free list is a stack of distinct pages. \<open>kalloc\<close> pops it, and returns 0 exactly when it is
  empty; \<open>kfree\<close> pushes a page that is not on it, writes only inside that page, and panics on an address
  that is not the start of a page between the kernel's end and the top of memory.
\<close>

theorem kalloc_kfree_stack:
  assumes s: "kmem_ready s" and f: "free_pages s xs"
  shows "(case xs of [] \<Rightarrow> kalloc s = Ret 0 s
      | x # ys \<Rightarrow> \<exists>s'. kalloc s = Ret x s' \<and> x \<noteq> 0 \<and> free_pages s' ys \<and> pmem s' = pmem s)
    \<and> (if \<not> page_ok (kend s) v then kfree v s = Panic ''kfree''
       else v \<notin> set xs \<longrightarrow> (\<exists>s'. kfree v s = Ret () s' \<and> free_pages s' (v # xs)
         \<and> (\<forall>a. \<not> in_page v a \<longrightarrow> pmem s' a = pmem s a)))"
proof
  show "case xs of [] \<Rightarrow> kalloc s = Ret 0 s
      | x # ys \<Rightarrow> \<exists>s'. kalloc s = Ret x s' \<and> x \<noteq> 0 \<and> free_pages s' ys \<and> pmem s' = pmem s"
    using kalloc_run [OF s] free_pages_kalloc [OF f] f by (cases xs) (auto simp: free_pages_def)
  show "if \<not> page_ok (kend s) v then kfree v s = Panic ''kfree''
       else v \<notin> set xs \<longrightarrow> (\<exists>s'. kfree v s = Ret () s' \<and> free_pages s' (v # xs)
         \<and> (\<forall>a. \<not> in_page v a \<longrightarrow> pmem s' a = pmem s a))"
    using kfree_panics [of s v] kfree_run [OF s] free_pages_kfree [OF f] kfreed_frame by auto
qed

theorem kalloc_kfree_stack_witness:
  "kalloc ex0 = Ret 0 ex0 \<and> (\<exists>s'. kfree 0x80400000 ex0 = Ret () s' \<and> free_pages s' [0x80400000])"
proof -
  have "kmem_ready ex0" using ex_spin_wf by (simp add: kmem_ready_def)
  moreover have "free_pages ex0 []" by (simp add: free_pages_def ex_def)
  moreover have "page_ok (kend ex0) 0x80400000"
    by (simp add: page_ok_def V2P_def KERNBASE_def PHYSTOP_def PGSIZE_def) (simp add: ex_def)
  ultimately show ?thesis using kalloc_kfree_stack [of ex0 "[]" "0x80400000"] by auto
qed

text \<open>The pages of a range of addresses.\<close>

lemma PGROUNDUP_aligned: "PGROUNDUP a mod PGSIZE = 0"
proof -
  have "take_bit 12 (x AND NOT (mask 12)) = (0 :: u32)" for x
    by (rule bit_word_eqI) (simp add: bit_simps)
  then have "(x AND NOT (mask 12)) mod 2 ^ 12 = (0 :: u32)" for x by (simp only: take_bit_eq_mod)
  then show ?thesis by (simp add: PGROUNDUP_def PGSIZE_def mask_eq_exp_minus_1)
qed

lemma range_page_unat:
  "unat p + 4096 * n < 2 ^ 32 \<Longrightarrow> unat (p + of_nat n * PGSIZE) = unat p + 4096 * n"
  by (simp add: PGSIZE_def unat_word_ariths unat_of_nat mult.commute)

text \<open>
  C19. \<open>freerange\<close> puts every whole page between its bounds on the free list, once each, the last page
  on top, and terminates. The bounds are those of the kernel: above its end, below the top of memory.
\<close>

theorem freerange_frees_all:
  assumes s: "kmem_ready s" "free_pages s xs" and p: "p = PGROUNDUP vstart" "kend s \<le> p" "KERNBASE \<le> p" "p \<le> vend"
    and top: "vend \<le> KERNBASE + PHYSTOP" and n: "n = (unat vend - unat p) div 4096"
    and new: "\<forall>v \<in> set xs. \<not> (p \<le> v \<and> v < vend)"
  shows "\<exists>s'. freerange vstart vend s = Ret () s' \<and> free_pages s' (rev (range_pages p n) @ xs)"
proof -
  have K: "unat KERNBASE = 0x80000000" "unat (KERNBASE + PHYSTOP) = 0x8E000000"
    by (simp_all add: KERNBASE_def PHYSTOP_def)
  have b: "0x80000000 \<le> unat p" "unat p \<le> unat vend" "unat vend \<le> 0x8E000000"
    using p(3,4) top by (simp_all add: word_le_nat_alt K)
  have u: "unat (p + of_nat i * PGSIZE) = unat p + 4096 * i" "unat p + 4096 * i + 4096 \<le> unat vend" if "i < n" for i
    using that n b by (auto intro!: range_page_unat)
  have al: "unat p mod 4096 = 0"
    using arg_cong [OF PGROUNDUP_aligned [of vstart], of unat] by (simp add: p(1) PGSIZE_def unat_mod)
  have pg: "page_ok (kend s) (p + of_nat i * PGSIZE)" if "i < n" for i
  proof -
    have "unat (p + of_nat i * PGSIZE) mod 4096 = 0" using u [OF that] al by (simp add: mod_mult_self2)
    then have "(p + of_nat i * PGSIZE) mod PGSIZE = 0" by (simp add: PGSIZE_def unat_eq_0 [symmetric] unat_mod)
    moreover have "unat (V2P (p + of_nat i * PGSIZE)) = unat p + 4096 * i - 0x80000000"
      unfolding V2P_def using u [OF that] b K by (subst unat_sub) (simp_all add: word_le_nat_alt)
    ultimately show ?thesis
      using u [OF that] p(2) b by (simp add: page_ok_def word_le_nat_alt word_less_nat_alt PHYSTOP_def)
  qed
  have "inj_on (\<lambda>i. p + of_nat i * PGSIZE) {0..<n}"
    by (rule inj_onI) (use u(1) in \<open>metis add_left_cancel atLeastLessThan_iff mult_left_cancel numeral_eq_iff zero_neq_numeral\<close>)
  then have "distinct (range_pages p n)" by (simp add: range_pages_def distinct_map)
  moreover have "set (range_pages p n) \<inter> set xs = {}"
    using new u b by (fastforce simp: range_pages_def word_le_nat_alt word_less_nat_alt)
  moreover have "\<forall>v \<in> set (range_pages p n). page_ok (kend s) v" using pg by (auto simp: range_pages_def)
  ultimately show ?thesis
    using freerange_loop_run [OF s, of n "2 ^ 20 + 1" p vend] b n
    unfolding freerange_def p(1) [symmetric] by fastforce
qed

theorem freerange_frees_all_witness:
  "\<exists>s'. freerange 0x803FFFFF 0x80402FFF ex0 = Ret () s' \<and> free_pages s' [0x80401000, 0x80400000]"
proof -
  have r: "rev (range_pages 0x80400000 2) @ [] = [0x80401000, 0x80400000]"
    by (simp add: range_pages_def PGSIZE_def numeral_2_eq_2)
  have "\<exists>s'. freerange 0x803FFFFF 0x80402FFF ex0 = Ret () s' \<and> free_pages s' (rev (range_pages 0x80400000 2) @ [])"
  proof (rule freerange_frees_all)
    show "kmem_ready ex0" using ex_spin_wf by (simp add: kmem_ready_def)
    show "free_pages ex0 []" by (simp add: free_pages_def) (simp add: ex_def)
    show "kend ex0 \<le> 0x80400000" by (simp add: ex_def)
  qed (simp_all add: PGROUNDUP_def PGSIZE_def KERNBASE_def PHYSTOP_def)
  then show ?thesis unfolding r .
qed

section \<open>Memory and strings\<close>

text \<open>
  C20. \<open>memmove\<close> copies the source as it was before the call, however the two ranges overlap, and
  writes nothing outside the destination.
\<close>

theorem memmove_copies:
  assumes "unat src + unat n < 2 ^ 32" "unat dst + unat n \<le> 2 ^ 32"
  shows "mread (memmove m dst src n) dst (unat n) = mread m src (unat n)
    \<and> (\<forall>a. unat n \<le> unat (a - dst) \<longrightarrow> memmove m dst src n a = m a)"
  unfolding memmove_moved [OF assms]
proof
  have "unat (of_nat i :: u32) = i" if "i < unat n" for i
    using that unat_u32 [of n] by (intro unat_of_nat32) simp
  then show "mread (moved m dst src (unat n)) dst (unat n) = mread m src (unat n)"
    by (simp add: mread_def moved_def)
qed (simp add: moved_def)

theorem memmove_copies_witness:
  "mread (memmove (\<lambda>a. ucast a) 102 100 5) 102 5 = [100, 101, 102, 103, 104]"
proof -
  have "mread (\<lambda>a. ucast a) 100 5 = [100, 101, 102, 103, 104]" by code_simp
  then show ?thesis using memmove_copies [of 100 5 102 "\<lambda>a. ucast a"] by simp
qed

text \<open>
  C21. The word-wise fast path of \<open>memset\<close> agrees with the byte loop on every input: each of the \<open>n\<close>
  bytes from \<open>dst\<close> holds the low byte of \<open>c\<close>, and no other byte changes.
\<close>

theorem memset_bytes:
  "memset m dst c n = stosb m dst (ucast c) (unat n)
   \<and> mread (memset m dst c n) dst (unat n) = replicate (unat n) (ucast c)
   \<and> (\<forall>a. unat n \<le> unat (a - dst) \<longrightarrow> memset m dst c n a = m a)"
  using mread_mset [of "unat n" m dst "ucast c"] unat_u32 [of n] mset_frame
  by (simp add: memset_mset stosb_mset less_imp_le)

theorem memset_bytes_witness:
  "mread (memset (\<lambda>_. 0) 8 7 8) 8 8 = replicate 8 7 \<and> memset (\<lambda>_. 0) 8 7 8 16 = 0"
proof
  show "mread (memset (\<lambda>_. 0) 8 7 8) 8 8 = replicate 8 7"
    using memset_bytes [of "\<lambda>_. 0" 8 7 8, THEN conjunct2, THEN conjunct1] by simp
  show "memset (\<lambda>_. 0) 8 7 8 16 = 0"
    using memset_bytes [of "\<lambda>_. 0" 8 7 8, THEN conjunct2, THEN conjunct2, THEN spec, of 16] by simp
qed

text \<open>
  C22. \<open>safestrcpy\<close> leaves a string: the destination is NUL-terminated within its \<open>n\<close> bytes and holds the
  source up to its NUL or the first \<open>n - 1\<close> bytes; nothing outside those \<open>n\<close> bytes is written. A size
  that is not positive writes nothing.
\<close>

theorem safestrcpy_terminates:
  assumes "n < 2 ^ 32" "0 < n \<longrightarrow> sep s t (nat n)"
  shows "(0 < n \<longrightarrow> cstr (mread (safestrcpy m s t n) s (nat n)) = cstr (mread m t (nat n - 1))
      \<and> 0 \<in> set (mread (safestrcpy m s t n) s (nat n)))
    \<and> (\<forall>a. n \<le> 0 \<or> nat n \<le> unat (a - s) \<longrightarrow> safestrcpy m s t n a = m a)"
proof (intro conjI allI impI)
  show c: "cstr (mread (safestrcpy m s t n) s (nat n)) = cstr (mread m t (nat n - 1))" if "0 < n"
    using safestrcpy_content [OF that assms(1)] assms(2) that by simp
  show "0 \<in> set (mread (safestrcpy m s t n) s (nat n))" if n: "0 < n"
  proof (rule ccontr)
    assume "0 \<notin> set (mread (safestrcpy m s t n) s (nat n))"
    then have "cstr (mread (safestrcpy m s t n) s (nat n)) = mread (safestrcpy m s t n) s (nat n)"
      unfolding cstr_def by (intro takeWhile_eq_all_conv [THEN iffD2]) auto
    then have "length (cstr (mread m t (nat n - 1))) = nat n" using c [OF n] by simp
    then show False using length_cstr [of "mread m t (nat n - 1)"] n by simp
  qed
qed (simp add: safestrcpy_frame)

theorem safestrcpy_terminates_witness:
  "cstr (mread (safestrcpy ((\<lambda>_. 0)(200 := 104, 201 := 105)) 100 200 8) 100 8) = [104, 105]"
proof -
  have "unat (200 + of_nat i - (100 :: u32)) = 100 + i" if "i < 8" for i
    using that by (simp add: unat_word_ariths unat_of_nat32)
  then have "sep 100 200 8" by (simp add: sep_def)
  moreover have "cstr (mread ((\<lambda>_. 0)(200 := 104, 201 := 105)) 200 7) = [104, 105]" by code_simp
  ultimately show ?thesis
    using safestrcpy_terminates [of 8 100 200 "(\<lambda>_. 0)(200 := 104, 201 := 105)"] by simp
qed

end
