(* ===== verification/Console_Line.thy ===== *)
theory Console_Line
  imports Console Fifo
begin

text \<open>
  The line discipline of the console. The bytes between the read and the edit index are a queue;
  those before the write index are complete lines, which \<open>consoleread\<close> may take, and the rest is the
  line being edited. \<open>key\<close> says what a key does to the two parts, and \<open>consoleintr_char\<close> refines it.
\<close>

section \<open>The input buffer as a queue\<close>

definition con_count :: "('z cstate_scheme) \<Rightarrow> nat" where
  "con_count s = unat (in_e s - in_r s)"

definition typed :: "('z cstate_scheme) \<Rightarrow> bytes" where
  "typed s = ring_items 128 (in_buf s) (in_r s) (in_e s)"

definition con_put :: "u8 \<Rightarrow> ('z cstate_scheme) \<Rightarrow> 'z cstate_scheme" where
  "con_put c s = s\<lparr>in_buf := (in_buf s)(in_idx (in_e s) := c), in_e := in_e s + 1\<rparr>"

definition con_get :: "('z cstate_scheme) \<Rightarrow> u8 \<times> 'z cstate_scheme" where
  "con_get s = (in_buf s (in_idx (in_r s)), s\<lparr>in_r := in_r s + 1\<rparr>)"

definition con_ok :: "('z cstate_scheme) \<Rightarrow> bool" where
  "con_ok s \<longleftrightarrow> con_count s \<le> 128"

lemma in_idx_mod: "in_idx i = unat i mod 128"
  by (simp add: in_idx_def INPUT_BUF_def unat_mod)

lemma length_typed: "length (typed s) = con_count s"
  by (simp add: typed_def con_count_def)

lemma con_put_typed: "con_count s < 128 \<Longrightarrow> typed (con_put c s) = typed s @ [c]"
  using ring_put [of 128 "in_e s" "in_r s" "in_buf s" c]
  by (simp add: typed_def con_put_def in_idx_mod con_count_def)

lemma con_get_typed: "con_count s \<noteq> 0 \<Longrightarrow> typed s = fst (con_get s) # typed (snd (con_get s))"
  using ring_get [of "in_r s" "in_e s" 128 "in_buf s"]
  by (cases "in_r s = in_e s") (simp_all add: typed_def con_get_def in_idx_mod con_count_def)

interpretation conq: fifo con_put con_get con_count typed 128 con_ok
proof unfold_locales
  fix s :: "'a cstate_scheme" and c
  assume ok: "con_ok s"
  show "con_count s = length (typed s)" by (simp add: length_typed)
  show "con_count s \<le> 128" using ok by (simp add: con_ok_def)
  show "typed (con_put c s) = typed s @ [c]" if "con_count s < 128" by (rule con_put_typed [OF that])
  show "con_ok (con_put c s)" if "con_count s < 128"
    using arg_cong [OF con_put_typed [OF that, of c], of length] that by (simp add: length_typed con_ok_def)
  show "typed s = fst (con_get s) # typed (snd (con_get s))" if "con_count s \<noteq> 0"
    by (rule con_get_typed [OF that])
  show "con_ok (snd (con_get s))" if "con_count s \<noteq> 0"
    using arg_cong [OF con_get_typed [OF that], of length] ok by (simp add: length_typed con_ok_def)
qed

section \<open>Complete lines and the line being edited\<close>

definition ready_len :: "('z cstate_scheme) \<Rightarrow> nat" where
  "ready_len s = unat (in_w s - in_r s)"

definition lines :: "('z cstate_scheme) \<Rightarrow> bytes \<times> bytes" where
  "lines s = (take (ready_len s) (typed s), drop (ready_len s) (typed s))"

definition con_inv :: "('z cstate_scheme) \<Rightarrow> bool" where
  "con_inv s \<longleftrightarrow> con_ok s \<and> ready_len s \<le> con_count s \<and> 10 \<notin> set (snd (lines s))"

text \<open>What a key does.\<close>

definition key :: "int \<Rightarrow> bytes \<times> bytes \<Rightarrow> bytes \<times> bytes" where
  "key c l = (let (rdy, edt) = l in
     if c = ctl_P then (rdy, edt)
     else if c = ctl_U then (rdy, [])
     else if c = ctl_H \<or> c = 0x7f then (rdy, butlast edt)
     else if c \<noteq> 0 \<and> length rdy + length edt < 128 then
       (let c' = (if c = 13 then 10 else c); edt' = edt @ [of_int c'] in
        if c' = 10 \<or> c' = ctl_D \<or> length rdy + length edt' = 128 then (rdy @ edt', []) else (rdy, edt'))
     else (rdy, edt))"

lemma ring_items_butlast:
  assumes "r \<noteq> w"
  shows "ring_items n d r (w - 1) = butlast (ring_items n d r w)"
    "last (ring_items n d r w) = d (unat (w - 1) mod n)"
proof -
  have "w - r \<noteq> 0" using assms by simp
  moreover have e: "w - 1 - r = w - r - 1" by simp
  ultimately have c: "unat (w - 1 - r) = unat (w - r) - 1" "0 < unat (w - r)"
    unfolding e by (simp_all add: unat_minus_one unat_gt_0)
  then have s: "unat (w - r) = Suc (unat (w - 1 - r))" by simp
  show "ring_items n d r (w - 1) = butlast (ring_items n d r w)"
    unfolding ring_items_def s by (simp add: map_butlast [symmetric])
  show "last (ring_items n d r w) = d (unat (w - 1) mod n)"
    unfolding ring_items_def s by simp
qed

text \<open>The edit index and the write index meet exactly when nothing is being edited.\<close>

lemma edit_empty:
  assumes "con_inv s"
  shows "in_e s = in_w s \<longleftrightarrow> snd (lines s) = []"
proof -
  have "in_e s = in_w s \<longleftrightarrow> con_count s = ready_len s"
    by (simp add: con_count_def ready_len_def word_unat_eq_iff [symmetric])
  then show ?thesis using assms by (auto simp: con_inv_def lines_def length_typed)
qed

lemma lines_len: "con_inv s \<Longrightarrow> length (fst (lines s)) = ready_len s"
  by (simp add: con_inv_def lines_def length_typed)

lemma lines_typed: "fst (lines s) @ snd (lines s) = typed s"
  by (simp add: lines_def)

text \<open>The edit index moves one back.\<close>

definition con_back :: "('z cstate_scheme) \<Rightarrow> 'z cstate_scheme" where
  "con_back s = s\<lparr>in_e := in_e s - 1\<rparr>"

lemma con_back_lines:
  assumes i: "con_inv s" and ne: "snd (lines s) \<noteq> []"
  shows "lines (con_back s) = (fst (lines s), butlast (snd (lines s)))" "con_inv (con_back s)"
    "in_buf s (in_idx (in_e s - 1)) = last (snd (lines s))"
proof -
  have pos: "ready_len s < con_count s" using i ne by (auto simp: con_inv_def lines_def length_typed)
  then have re: "in_r s \<noteq> in_e s" by (auto simp: con_count_def)
  have t: "typed (con_back s) = butlast (typed s)" "last (typed s) = in_buf s (in_idx (in_e s - 1))"
    using ring_items_butlast [OF re, of 128 "in_buf s"] by (simp_all add: typed_def con_back_def in_idx_mod)
  have rl: "ready_len (con_back s) = ready_len s" by (simp add: ready_len_def con_back_def)
  show l: "lines (con_back s) = (fst (lines s), butlast (snd (lines s)))"
    using pos by (simp add: lines_def rl Suc_leI le_diff_conv2 t butlast_conv_take length_typed min_def drop_take take_drop [symmetric])
  have "con_count (con_back s) = con_count s - 1"
    using arg_cong [OF t(1), of length] by (simp add: length_typed)
  then show "con_inv (con_back s)"
    using i pos l by (auto simp: con_inv_def con_ok_def rl dest: in_set_butlastD)
  show "in_buf s (in_idx (in_e s - 1)) = last (snd (lines s))"
    using t(2) ne by (simp add: lines_def)
qed

section \<open>The interrupt handler refines the specification\<close>

definition echo :: "int list \<Rightarrow> ('z cstate_scheme) \<Rightarrow> 'z cstate_scheme" where
  "echo cs s = s\<lparr>con_out := con_out s @ cs\<rparr>"

lemma consputc_run [kexec]: "consputc c s = Ret () (echo [c] s)"
  by (simp add: consputc_def echo_def kexec)

lemma echo_simps [simp]:
  "lines (echo cs s) = lines s" "con_inv (echo cs s) = con_inv s" "in_e (echo cs s) = in_e s" "in_w (echo cs s) = in_w s"
  "in_r (echo cs s) = in_r s" "in_buf (echo cs s) = in_buf s" "spin (echo cs s) = spin s" "typed (echo cs s) = typed s"
  "con_count (echo cs s) = con_count s" "ready_len (echo cs s) = ready_len s" "con_ok (echo cs s) = con_ok s"
  by (simp_all add: echo_def con_inv_def lines_def typed_def con_ok_def con_count_def ready_len_def)

lemma spin_back [simp]: "spin (con_back s) = spin s"
  by (simp add: con_back_def)

lemma kill_line_run:
  assumes "con_inv s" "length (snd (lines s)) < k"
  shows "\<exists>s'. kill_line k s = Ret () s' \<and> lines s' = (fst (lines s), []) \<and> con_inv s' \<and> spin s' = spin s"
  using assms
proof (induction k arbitrary: s)
  case (Suc k)
  show ?case
  proof (cases "snd (lines s) = []")
    case True
    then show ?thesis using Suc.prems edit_empty [of s] by (simp add: kexec prod_eq_iff)
  next
    case False
    note b = con_back_lines [OF Suc.prems(1) False]
    have "last (snd (lines s)) \<noteq> 10"
      using Suc.prems(1) last_in_set [OF False] by (auto simp: con_inv_def)
    then have "kill_line (Suc k) s = kill_line k (echo [BACKSPACE] (con_back s))"
      using b(3) False edit_empty [OF Suc.prems(1)] by (simp add: kexec con_back_def)
    moreover have "length (butlast (snd (lines s))) < k" using Suc.prems(2) False by (cases "snd (lines s)") auto
    ultimately show ?thesis
      using Suc.IH [of "echo [BACKSPACE] (con_back s)"] b by (simp del: length_butlast kill_line.simps)
  qed
qed simp

lemma con_put_fields [simp]:
  "in_w (con_put c s) = in_w s" "in_r (con_put c s) = in_r s" "spin (con_put c s) = spin s"
  "ready_len (con_put c s) = ready_len s"
  by (simp_all add: con_put_def ready_len_def)

lemma con_put_lines:
  assumes i: "con_inv s" and n: "con_count s < 128"
  shows "lines (con_put c s) = (fst (lines s), snd (lines s) @ [c])" "con_count (con_put c s) = Suc (con_count s)"
    "c \<noteq> 10 \<Longrightarrow> con_inv (con_put c s)"
proof -
  note t = con_put_typed [OF n, of c]
  show l: "lines (con_put c s) = (fst (lines s), snd (lines s) @ [c])"
    using i by (simp add: lines_def t con_inv_def length_typed)
  show k: "con_count (con_put c s) = Suc (con_count s)"
    using arg_cong [OF t, of length] by (simp add: length_typed)
  show "con_inv (con_put c s)" if "c \<noteq> 10"
    using i n that l k by (auto simp: con_inv_def con_ok_def)
qed

text \<open>The write index moves up to the edit index: the line is complete.\<close>

definition con_commit :: "('z cstate_scheme) \<Rightarrow> 'z cstate_scheme" where
  "con_commit s = s\<lparr>in_w := in_e s\<rparr>"

lemma con_commit_lines:
  "lines (con_commit s) = (typed s, [])" "con_ok s \<Longrightarrow> con_inv (con_commit s)" "spin (con_commit s) = spin s"
proof -
  have "ready_len (con_commit s) = con_count s" "typed (con_commit s) = typed s" "con_count (con_commit s) = con_count s"
    by (simp_all add: ready_len_def con_commit_def con_count_def typed_def)
  then show "lines (con_commit s) = (typed s, [])" "con_ok s \<Longrightarrow> con_inv (con_commit s)"
    by (simp_all add: con_inv_def lines_def length_typed con_ok_def)
qed (simp add: con_commit_def)

lemma con_full: "con_ok s \<Longrightarrow> in_e s = in_r s + INPUT_BUF \<longleftrightarrow> con_count s = 128"
proof -
  have "in_e s = in_r s + INPUT_BUF \<longleftrightarrow> in_e s - in_r s = 128" by (simp add: INPUT_BUF_def diff_eq_eq add.commute)
  also have "\<dots> \<longleftrightarrow> con_count s = 128" by (simp add: con_count_def word_unat_eq_iff)
  finally show ?thesis .
qed

lemma con_fits: "in_e s - in_r s < INPUT_BUF \<longleftrightarrow> con_count s < 128"
  by (simp add: con_count_def INPUT_BUF_def word_less_nat_alt)

lemma con_wake [simp]:
  "lines (s\<lparr>ptable := x\<rparr>) = lines s" "con_inv (s\<lparr>ptable := x\<rparr>) = con_inv s"
  by (simp_all add: con_inv_def lines_def typed_def con_ok_def con_count_def ready_len_def)

text \<open>Typing a character that fits.\<close>

lemma type_char_run:
  assumes i: "con_inv s" and w: "can_acq PtableLk (spin s)" and n: "con_count s < 128"
    and c: "0 < c" "c < 256" "c \<notin> {ctl_P, ctl_U, ctl_H, 0x7f, 13}"
  defines "t \<equiv> echo [c] (con_put (of_int c) s)"
  shows "\<exists>x. consoleintr_char c s =
    Ret () (if c = 10 \<or> c = ctl_D \<or> con_count t = 128 then con_commit t\<lparr>ptable := x\<rparr> else t)"
proof -
  have ok: "con_ok t" using con_put_lines(2) [OF i n] n by (simp add: t_def con_ok_def)
  have t: "echo [c] (s\<lparr>in_buf := (in_buf s)(in_idx (in_e s) := of_int c), in_e := in_e s + 1\<rparr>) = t"
    by (simp add: t_def con_put_def)
  have "wakeup (Some ChanInput) (t\<lparr>in_w := in_e t\<rparr>) = Ret () (con_commit t\<lparr>ptable := wake_fun (Some ChanInput) (ptable t)\<rparr>)"
    using w by (subst wakeup_run) (simp_all add: t_def con_commit_def)
  then show ?thesis
    using c con_full [OF ok] n
    by (intro exI [of _ "wake_fun (Some ChanInput) (ptable t)"])
      (simp add: consoleintr_char_def kexec con_fits t Let_def)
qed

lemma type_char_key:
  assumes i: "con_inv s" and w: "can_acq PtableLk (spin s)" and n: "con_count s < 128"
    and c: "0 < c" "c < 256" "c \<notin> {ctl_P, ctl_U, ctl_H, 0x7f, 13}"
  shows "\<exists>s'. consoleintr_char c s = Ret () s' \<and> lines s' = key c (lines s) \<and> con_inv s' \<and> spin s' = spin s"
proof -
  let ?t = "echo [c] (con_put (of_int c) s)"
  obtain x where r: "consoleintr_char c s =
    Ret () (if c = 10 \<or> c = ctl_D \<or> con_count ?t = 128 then con_commit ?t\<lparr>ptable := x\<rparr> else ?t)"
    using type_char_run [OF assms] by blast
  note p = con_put_lines [OF i n, of "of_int c"]
  have len: "length (fst (lines s)) + length (snd (lines s)) = con_count s"
    using lines_typed [of s] length_typed [of s] by (metis length_append)
  obtain a b where ab: "lines s = (a, b)" by (cases "lines s")
  have ok: "con_ok ?t" using p(2) n by (simp add: con_ok_def)
  have ty: "typed (con_put (of_int c) s) = a @ b @ [of_int c]" using lines_typed [of s] con_put_typed [OF n] ab by simp
  show ?thesis
  proof (cases "c = 10 \<or> c = ctl_D \<or> con_count ?t = 128")
    case True
    then show ?thesis
      using r con_commit_lines [of ?t] ok p len n c ab ty by (auto simp: key_def)
  next
    case False
    then have "(of_int c :: u8) \<noteq> 10"
    proof -
      have "uint (of_int c :: u8) = c" using c by (simp add: uint_word_of_int)
      then show ?thesis using False by auto
    qed
    then show ?thesis using r p False len n c ab by (auto simp: key_def)
  qed
qed

lemma cr_is_nl: "consoleintr_char 13 = consoleintr_char 10" "key 13 = key 10"
  by (auto simp: consoleintr_char_def key_def fun_eq_iff ctl_P_def ctl_U_def ctl_H_def ctl_D_def Let_def)

lemma consoleintr_char_key:
  assumes i: "con_inv s" and w: "can_acq PtableLk (spin s)" and c: "0 \<le> c" "c < 256"
  shows "\<exists>s'. consoleintr_char c s = Ret () s' \<and> lines s' = key c (lines s) \<and> con_inv s' \<and> spin s' = spin s"
proof -
  have len: "length (fst (lines s)) + length (snd (lines s)) = con_count s"
    using lines_typed [of s] length_typed [of s] by (metis length_append)
  have u: "ctl_U \<noteq> ctl_P" "ctl_H \<noteq> ctl_P" "ctl_H \<noteq> ctl_U" "(127::int) \<noteq> ctl_P" "(127::int) \<noteq> ctl_U"
    by (simp_all add: ctl_P_def ctl_U_def ctl_H_def)
  consider "c = ctl_P" | "c = ctl_U" | "c = ctl_H \<or> c = 0x7f"
    | "c \<notin> {ctl_P, ctl_U, ctl_H, 0x7f}" "c = 0 \<or> \<not> con_count s < 128"
    | "c \<notin> {ctl_P, ctl_U, ctl_H, 0x7f}" "c \<noteq> 0" "con_count s < 128" by auto
  then show ?thesis
  proof cases
    case 1
    then show ?thesis using i by (simp add: consoleintr_char_def key_def kexec case_prod_beta)
  next
    case 2
    have "length (snd (lines s)) < unat INPUT_BUF + 1"
      using i len by (simp add: con_inv_def con_ok_def INPUT_BUF_def)
    then show ?thesis
      using kill_line_run [OF i, of "unat INPUT_BUF + 1"] 2 u
      by (simp add: consoleintr_char_def key_def kexec case_prod_beta del: kill_line.simps)
  next
    case 3
    then have n: "c \<noteq> ctl_P" "c \<noteq> ctl_U" using u by auto
    show ?thesis
    proof (cases "snd (lines s) = []")
      case True
      then show ?thesis
        using 3 n i edit_empty [OF i] by (simp add: consoleintr_char_def key_def kexec prod_eq_iff case_prod_beta)
    next
      case False
      then show ?thesis
        using 3 n con_back_lines [OF i False] edit_empty [OF i]
        by (simp add: consoleintr_char_def key_def kexec case_prod_beta con_back_def [symmetric])
    qed
  next
    case 4
    then show ?thesis using i len by (auto simp: consoleintr_char_def key_def kexec con_fits case_prod_beta)
  next
    case 5
    then show ?thesis
      using type_char_key [OF i w 5(3), of c] type_char_key [OF i w 5(3), of 10] c
      by (cases "c = 13") (auto simp: ctl_P_def ctl_U_def ctl_H_def cr_is_nl)
  qed
qed

lemma consoleintr_chars_key:
  assumes "con_inv s" "can_acq PtableLk (spin s)" "\<forall>c \<in> set cs. 0 \<le> c \<and> c < 256"
  shows "\<exists>s'. kfor cs consoleintr_char s = Ret () s' \<and> lines s' = fold key cs (lines s) \<and> con_inv s' \<and> spin s' = spin s"
  using assms
proof (induction cs arbitrary: s)
  case (Cons c cs)
  then obtain s1 where s1: "consoleintr_char c s = Ret () s1" "lines s1 = key c (lines s)" "con_inv s1" "spin s1 = spin s"
    using consoleintr_char_key [of s c] by auto
  then show ?case using Cons.IH [of s1] Cons.prems by (simp add: kexec)
qed (simp add: kexec)

lemma key_text:
  assumes "\<forall>b \<in> set l. 32 \<le> b \<and> b < 127" "length rdy + length edt + length l < 128"
  shows "fold key (map uint l) (rdy, edt) = (rdy, edt @ l)"
  using assms
proof (induction l arbitrary: edt)
  case (Cons b l)
  have b: "32 \<le> uint b" "uint b < 127" using Cons.prems by (simp_all add: word_le_def word_less_def)
  then have "key (uint b) (rdy, edt) = (rdy, edt @ [b])"
    using Cons.prems(2) by (simp add: key_def ctl_P_def ctl_U_def ctl_H_def ctl_D_def)
  then show ?case using Cons.IH [of "edt @ [b]"] Cons.prems by simp
qed simp

section \<open>Reading lines\<close>

lemma con_take:
  assumes i: "con_inv s" and ne: "fst (lines s) \<noteq> []"
  shows "in_r s \<noteq> in_w s" "in_buf s (in_idx (in_r s)) = hd (fst (lines s))"
    "lines (s\<lparr>in_r := in_r s + 1\<rparr>) = (tl (fst (lines s)), snd (lines s))" "con_inv (s\<lparr>in_r := in_r s + 1\<rparr>)"
proof -
  let ?s = "s\<lparr>in_r := in_r s + 1\<rparr>"
  have "0 < length (fst (lines s))" using ne by simp
  then have rl: "ready_len s \<noteq> 0" "con_count s \<noteq> 0" using lines_len [OF i] i by (auto simp: con_inv_def)
  then show rw: "in_r s \<noteq> in_w s" by (auto simp: ready_len_def)
  have t: "typed s = in_buf s (in_idx (in_r s)) # typed ?s" using con_get_typed [OF rl(2)] by (simp add: con_get_def)
  have "ring_items 1 (in_buf s) (in_r s) (in_w s) = in_buf s 0 # ring_items 1 (in_buf s) (in_r s + 1) (in_w s)"
    using ring_get [OF rw, of 1] by simp
  from arg_cong [OF this, of length] have r: "ready_len s = Suc (ready_len ?s)" by (simp add: ready_len_def)
  have c: "con_count s = Suc (con_count ?s)" using arg_cong [OF t, of length] by (simp add: length_typed)
  show "in_buf s (in_idx (in_r s)) = hd (fst (lines s))" by (simp add: lines_def t r)
  show l: "lines ?s = (tl (fst (lines s)), snd (lines s))" by (simp add: lines_def t r)
  show "con_inv ?s" using i l by (simp add: con_inv_def con_ok_def r c)
qed

lemma consoleread_line:
  assumes "con_inv s" "fst (lines s) = l @ 10 # rest" "10 \<notin> set l" "4 \<notin> set l" "length l < n"
  shows "\<exists>s'. consoleread_loop target n acc s = Ret (Some (acc @ l @ [10])) s'
    \<and> lines s' = (rest, snd (lines s)) \<and> con_inv s' \<and> spin s' = spin s"
  using assms
proof (induction l arbitrary: s n acc)
  case Nil
  then obtain m where n: "n = Suc m" by (cases n) auto
  have ne: "fst (lines s) \<noteq> []" using Nil by simp
  show ?case using con_take [OF Nil(1) ne] Nil(2) by (simp add: n kexec)
next
  case (Cons b l)
  then obtain m where n: "n = Suc m" by (cases n) auto
  have ne: "fst (lines s) \<noteq> []" using Cons by simp
  note g = con_take [OF Cons.prems(1) ne]
  have "consoleread_loop target n acc s = consoleread_loop target m (acc @ [b]) (s\<lparr>in_r := in_r s + 1\<rparr>)"
    using g Cons.prems by (simp add: n kexec)
  then show ?case using Cons.IH [of "s\<lparr>in_r := in_r s + 1\<rparr>" m "acc @ [b]"] g Cons.prems n by simp
qed

text \<open>
  Control-D ends the read. It stays in the buffer when bytes came before it, so that the next read
  returns nothing.
\<close>

lemma consoleread_eof:
  assumes "con_inv s" "fst (lines s) = l @ 4 # rest" "10 \<notin> set l" "4 \<notin> set l" "length l < n" "n \<le> target"
  shows "\<exists>s'. consoleread_loop target n acc s = Ret (Some (acc @ l)) s' \<and> con_inv s' \<and> spin s' = spin s
    \<and> lines s' = (if l = [] \<and> n = target then rest else 4 # rest, snd (lines s))"
  using assms
proof (induction l arbitrary: s n acc)
  case Nil
  then obtain m where n: "n = Suc m" by (cases n) auto
  have ne: "fst (lines s) \<noteq> []" using Nil by simp
  have "s\<lparr>in_r := in_r s + 1 - 1\<rparr> = s" by simp
  then show ?case using con_take [OF Nil(1) ne] Nil by (auto simp: n kexec prod_eq_iff)
next
  case (Cons b l)
  then obtain m where n: "n = Suc m" by (cases n) auto
  have ne: "fst (lines s) \<noteq> []" using Cons by simp
  note g = con_take [OF Cons.prems(1) ne]
  have "consoleread_loop target n acc s = consoleread_loop target m (acc @ [b]) (s\<lparr>in_r := in_r s + 1\<rparr>)"
    using g Cons.prems by (simp add: n kexec)
  then show ?case using Cons.IH [of "s\<lparr>in_r := in_r s + 1\<rparr>" m "acc @ [b]"] g Cons.prems n by simp
qed

end
