(* ===== verification/Io_Props.thy ===== *)
theory Io_Props
  imports Example Console_Line
begin

text \<open>The properties of pipes and of the console.\<close>

section \<open>Pipes\<close>

text \<open>
  C23. A pipe is a first-in first-out queue of bytes: a write that fits appends its bytes, and a read
  returns the oldest bytes, as many as there are up to its size, and removes them. This holds across
  the wrap-around of the 32-bit counters and of the buffer.
\<close>

theorem pipe_write_then_read:
  assumes s: "ready s" and p: "pipe_ok (pipes s p)"
    and fits: "length (pipe_items (pipes s p)) + length bs \<le> PIPESIZE" and some: "pipe_items (pipes s p) @ bs \<noteq> []"
  shows "\<exists>s' s''. pipewrite p bs s = Ret (int (length bs)) s'
    \<and> pipe_ok (pipes s' p) \<and> pipe_items (pipes s' p) = pipe_items (pipes s p) @ bs
    \<and> piperead p n s' = Ret (int (min n (length (pipe_items (pipes s p) @ bs))), take n (pipe_items (pipes s p) @ bs)) s''
    \<and> pipe_ok (pipes s'' p) \<and> pipe_items (pipes s'' p) = drop n (pipe_items (pipes s p) @ bs)"
proof -
  let ?x = "fold pipe_put bs (pipes s p)"
  let ?s' = "s\<lparr>ptable := wake_fun (Some (ChanPipeR p)) (ptable s), pipes := (pipes s)(p := ?x)\<rparr>"
  have c: "pipe_count (pipes s p) + length bs \<le> PIPESIZE" using fits by (simp add: pipe_count_items)
  have w: "pipewrite p bs s = Ret (int (length bs)) ?s'" by (rule pipewrite_fits [OF s c])
  have x: "pipe_ok ?x" "pipe_items ?x = pipe_items (pipes s p) @ bs" using pipeq.put_all [OF p c] by simp_all
  have "ready ?s'" using s by (simp add: ready_def)
  then obtain y where y: "piperead p n ?s' = Ret (int (min n (length (pipe_items ?x))), take n (pipe_items ?x))
      (?s'\<lparr>ptable := wake_fun (Some (ChanPipeW p)) (ptable ?s'), pipes := (pipes ?s')(p := y)\<rparr>)"
    "pipe_ok y" "pipe_items y = drop n (pipe_items ?x)"
    using piperead_run [of ?s' p n] x some by auto
  show ?thesis
    by (rule exI [of _ ?s'], rule exI [of _ "?s'\<lparr>ptable := wake_fun (Some (ChanPipeW p)) (ptable ?s'), pipes := (pipes ?s')(p := y)\<rparr>"])
      (use w x y in simp)
qed

lemma ex_pipe: "pipes (ex cs d ic) = (\<lambda>_. no_pipe)" "pipe_ok no_pipe" "pipe_items no_pipe = []" "p_writeopen no_pipe"
  by (simp_all add: ex_def no_pipe_def pipe_ok_def pipe_count_def pipe_items_def ring_items_def)

theorem pipe_write_then_read_witness:
  "\<exists>s' s''. pipewrite 5 [1, 2, 3] ex0 = Ret 3 s' \<and> piperead 5 2 s' = Ret (2, [1, 2]) s''"
  using pipe_write_then_read [of ex0 5 "[1, 2, 3]" 2] by (auto simp: ex_pipe PIPESIZE_def)

lemma fold_put_open: "p_readopen (fold pipe_put bs x) = p_readopen x"
  by (induction bs arbitrary: x) (simp_all add: pipe_put_def)

text \<open>
  C24. A write larger than the room fills the pipe with its first bytes, wakes the readers and sleeps;
  a read of an empty pipe with an open write end sleeps. Both give up with -1 when the process is killed,
  the writer also when the read end is closed. A read of an empty pipe whose write end is closed returns
  0 bytes.
\<close>

theorem pipe_full_and_empty:
  assumes s: "ready s" and p: "pipe_ok (pipes s p)"
  shows "(PIPESIZE < length (pipe_items (pipes s p)) + length bs \<longrightarrow>
      (\<exists>s'. pipe_items (pipes s' p) = pipe_items (pipes s p) @ take (PIPESIZE - length (pipe_items (pipes s p))) bs
        \<and> pipewrite p bs s = (if \<not> p_readopen (pipes s p) \<or> killed (ptable s (curproc s)) then Ret (- 1) s' else Switch s')
        \<and> (p_readopen (pipes s p) \<and> \<not> killed (ptable s (curproc s)) \<longrightarrow>
            ptable s' = asleep (curproc s) (Some (ChanPipeW p)) (wake_fun (Some (ChanPipeR p)) (ptable s)))))
    \<and> (pipe_items (pipes s p) = [] \<longrightarrow>
        (if p_writeopen (pipes s p) then
           if killed (ptable s (curproc s)) then piperead p n s = Ret (- 1, []) s
           else \<exists>s'. piperead p n s = Switch s' \<and> ptable s' = asleep (curproc s) (Some (ChanPipeR p)) (ptable s)
         else \<exists>s'. piperead p n s = Ret (0, []) s'))"
proof (intro conjI impI)
  assume big: "PIPESIZE < length (pipe_items (pipes s p)) + length bs"
  let ?k = "PIPESIZE - length (pipe_items (pipes s p))"
  let ?x = "fold pipe_put (take ?k bs) (pipes s p)"
  have r: "pipe_room (pipes s p) = ?k" by (simp add: pipe_room_def pipe_count_items)
  have le: "length (pipe_items (pipes s p)) \<le> PIPESIZE" using p by (simp add: pipe_ok_def pipe_count_items)
  have x: "pipe_items ?x = pipe_items (pipes s p) @ take ?k bs"
    using pipeq.put_all [OF p, of "take ?k bs"] le by (simp add: pipe_count_items)
  have "pipe_room (pipes s p) < length bs" using big r le by simp
  note w = pipewrite_overflow [OF s p this, unfolded r]
  show "\<exists>s'. pipe_items (pipes s' p) = pipe_items (pipes s p) @ take ?k bs
        \<and> pipewrite p bs s = (if \<not> p_readopen (pipes s p) \<or> killed (ptable s (curproc s)) then Ret (- 1) s' else Switch s')
        \<and> (p_readopen (pipes s p) \<and> \<not> killed (ptable s (curproc s)) \<longrightarrow>
            ptable s' = asleep (curproc s) (Some (ChanPipeW p)) (wake_fun (Some (ChanPipeR p)) (ptable s)))"
  proof (cases "\<not> p_readopen (pipes s p) \<or> killed (ptable s (curproc s))")
    case True
    then show ?thesis using w x by (intro exI [of _ "s\<lparr>pipes := (pipes s)(p := ?x)\<rparr>"]) (auto simp: fold_put_open)
  next
    case False
    then obtain s' where "pipewrite p bs s = Switch s'" "pipes s' p = ?x"
      "ptable s' = asleep (curproc s) (Some (ChanPipeW p)) (wake_fun (Some (ChanPipeR p)) (ptable s))" using w by (simp add: fold_put_open)
    then show ?thesis using False x by (intro exI [of _ s']) simp
  qed
next
  assume e: "pipe_items (pipes s p) = []"
  then show "if p_writeopen (pipes s p) then
           if killed (ptable s (curproc s)) then piperead p n s = Ret (- 1, []) s
           else \<exists>s'. piperead p n s = Switch s' \<and> ptable s' = asleep (curproc s) (Some (ChanPipeR p)) (ptable s)
         else \<exists>s'. piperead p n s = Ret (0, []) s'"
    using piperead_waits [OF s e, of n] piperead_run [OF s p, of n] by auto
qed

theorem pipe_full_and_empty_witness:
  "\<exists>s1 s2. pipewrite 5 (replicate 600 1) ex0 = Switch s1 \<and> length (pipe_items (pipes s1 5)) = 512
     \<and> piperead 5 2 ex0 = Switch s2"
proof -
  have "killed (ptable ex0 0) = False" "p_readopen no_pipe" by (simp_all add: ex_proc_def no_pipe_def)
  then show ?thesis
    using pipe_full_and_empty [of ex0 5 "replicate 600 1" 2] by (auto simp: ex_pipe PIPESIZE_def)
qed

section \<open>The console\<close>

text \<open>
  C25. The keyboard handler implements line editing. Whatever the keys, \<open>consoleintr\<close> turns the complete
  lines and the line being edited into what \<open>key\<close> says: a character is appended, backspace removes the
  last one, Control-U clears the line, and a newline, Control-D or a full buffer makes the line complete.
  Complete lines are never edited, no more than 128 bytes are held, and a key that does not fit is dropped.
\<close>

theorem console_line_editing:
  assumes "con_inv s" "can_acq PtableLk (spin s)" "\<forall>c \<in> set cs. 0 \<le> c \<and> c < 256"
  shows "\<exists>s'. kfor cs consoleintr_char s = Ret () s' \<and> lines s' = fold key cs (lines s) \<and> con_inv s'
    \<and> length (fst (lines s')) + length (snd (lines s')) \<le> 128 \<and> (\<exists>zs. fst (lines s') = fst (lines s) @ zs)"
proof -
  obtain s' where s': "kfor cs consoleintr_char s = Ret () s'" "lines s' = fold key cs (lines s)" "con_inv s'"
    using consoleintr_chars_key [OF assms] by blast
  have "length (typed s') \<le> 128" using s'(3) by (simp add: length_typed con_inv_def con_ok_def)
  then have "length (fst (lines s')) + length (snd (lines s')) \<le> 128"
    using lines_typed [of s'] by (metis length_append)
  moreover have "\<exists>zs. fst (key c l) = fst l @ zs" for c l by (auto simp: key_def Let_def split: prod.splits)
  then have "\<exists>zs. fst (fold key cs l) = fst l @ zs" for cs l
    by (induction cs arbitrary: l) (simp, metis append.assoc fold_simps(2))
  ultimately show ?thesis using s' by auto
qed

lemma ex_con: "con_inv (ex cs d ic)" "lines (ex cs d ic) = ([], [])" "can_acq PtableLk (spin (ex cs d ic))"
  using ex_calm
  by (simp_all add: con_inv_def lines_def typed_def con_ok_def con_count_def ready_len_def ring_items_def)
    (simp_all add: ex_def)

theorem console_line_editing_witness:
  "\<exists>s'. kfor [97, 98, 8, 99] consoleintr_char ex0 = Ret () s' \<and> lines s' = ([], [97, 99])"
proof -
  have "fold key [97, 98, 8, 99] ([], []) = ([], [97, 99])" by code_simp
  then show ?thesis using console_line_editing [of ex0 "[97, 98, 8, 99]"] ex_con by auto
qed

text \<open>
  C26. A line that was typed is the line that is read: after printable text and a newline, a read that is
  large enough returns the text and the newline, and leaves later lines for later reads. After text and
  Control-D it returns the text alone and the next read returns no bytes: the end of file.
\<close>

theorem console_line_read:
  assumes s: "con_inv s" "can_acq PtableLk (spin s)" "lines s = ([], [])"
    and l: "\<forall>b \<in> set l. 32 \<le> b \<and> b < 127" "length l < 127" "length l < n"
  shows "(\<exists>s1 s2. kfor (map uint l @ [13]) consoleintr_char s = Ret () s1
      \<and> consoleread_loop n n [] s1 = Ret (Some (l @ [10])) s2 \<and> lines s2 = ([], []))
    \<and> (\<exists>s1 s2 s3. kfor (map uint l @ [ctl_D]) consoleintr_char s = Ret () s1
      \<and> consoleread_loop n n [] s1 = Ret (Some l) s2
      \<and> (l \<noteq> [] \<longrightarrow> consoleread_loop n n [] s2 = Ret (Some []) s3 \<and> lines s3 = ([], [])))"
proof -
  have n: "10 \<notin> set l" "4 \<notin> set l" using l(1) by auto
  have u: "\<forall>c \<in> set (map uint l @ [13]). 0 \<le> c \<and> c < 256" "\<forall>c \<in> set (map uint l @ [ctl_D]). 0 \<le> c \<and> c < 256"
    using l(1) by (auto simp: word_less_def ctl_D_def)
  have t: "fold key (map uint l) (lines s) = ([], l)" using key_text [of l "[]" "[]"] l s(3) by simp
  have k: "key 13 ([], l) = (l @ [10], [])" "key ctl_D ([], l) = (l @ [4], [])"
    using l(2) by (simp_all add: key_def ctl_D_def ctl_P_def ctl_U_def ctl_H_def)
  obtain s1 where s1: "kfor (map uint l @ [13]) consoleintr_char s = Ret () s1" "lines s1 = (l @ [10], [])" "con_inv s1"
    using consoleintr_chars_key [OF s(1,2) u(1)] t k by auto
  obtain s2 where "consoleread_loop n n [] s1 = Ret (Some (l @ [10])) s2" "lines s2 = ([], [])"
    using consoleread_line [of s1 l "[]" n n "[]"] s1 n l(3) by auto
  moreover obtain t1 where t1: "kfor (map uint l @ [ctl_D]) consoleintr_char s = Ret () t1" "lines t1 = (l @ [4], [])" "con_inv t1"
    using consoleintr_chars_key [OF s(1,2) u(2)] t k by auto
  obtain t2 where t2: "consoleread_loop n n [] t1 = Ret (Some l) t2" "con_inv t2"
    "lines t2 = (if l = [] then [] else [4], [])"
    using consoleread_eof [of t1 l "[]" n n "[]"] t1 n l(3) by auto
  moreover have "\<exists>t3. l \<noteq> [] \<longrightarrow> consoleread_loop n n [] t2 = Ret (Some []) t3 \<and> lines t3 = ([], [])"
    using consoleread_eof [of t2 "[]" "[]" n n "[]"] t2 l(3) by auto
  ultimately show ?thesis using s1(1) t1(1) by blast
qed

theorem console_line_read_witness:
  "\<exists>s1 s2. kfor [108, 115, 13] consoleintr_char ex0 = Ret () s1
     \<and> consoleread_loop 100 100 [] s1 = Ret (Some [108, 115, 10]) s2"
  using console_line_read [of ex0 "[108, 115]" 100] ex_con by auto

text \<open>
  C27. The cursor stays on the text screen: from a position in its first 24 lines, whatever is printed,
  \<open>cgaputc\<close> returns a position there, so its panic cannot happen.
\<close>

fun cga_puts :: "int list \<Rightarrow> int \<times> screen \<Rightarrow> (int \<times> screen) option" where
  "cga_puts [] sc = Some sc"
| "cga_puts (c # cs) sc = (case cgaputc c sc of None \<Rightarrow> None | Some sc' \<Rightarrow> cga_puts cs sc')"

theorem cgaputc_stays_on_screen:
  assumes "0 \<le> pos" "pos < 24 * 80"
  shows "\<exists>pos' crt'. cga_puts cs (pos, crt) = Some (pos', crt') \<and> 0 \<le> pos' \<and> pos' < 24 * 80"
  using assms
proof (induction cs arbitrary: pos crt)
  case (Cons c cs)
  then obtain p1 c1 where "cgaputc c (pos, crt) = Some (p1, c1)" "0 \<le> p1" "p1 < 24 * 80"
    using cgaputc_ok [of pos c crt] by blast
  then show ?case using Cons.IH [of p1 c1] by simp
qed simp

theorem cgaputc_stays_on_screen_witness:
  "\<exists>pos' crt'. cga_puts [10, 10, 65] (1919, \<lambda>_. 0) = Some (pos', crt') \<and> pos' < 1920"
  using cgaputc_stays_on_screen [of 1919 "[10, 10, 65]" "\<lambda>_. 0"] by auto

section \<open>The keyboard\<close>









lemma con_spin [simp]: "lines (s\<lparr>spin := x\<rparr>) = lines s" "con_inv (s\<lparr>spin := x\<rparr>) = con_inv s"
  by (simp_all add: con_inv_def lines_def typed_def con_ok_def con_count_def ready_len_def)



end
