(* ===== verification/Vm_Spec.thy ===== *)
theory Vm_Spec
  imports Sysargs
begin

text \<open>
  Page tables as partial maps. \<open>vmap m pgd\<close> is the map from virtual addresses to page table entries that
  the two levels in memory \<open>m\<close> stand for; \<open>pt_ok\<close> says that the page directory, its page tables and the
  free pages are different pages. \<open>mappages\<close> extends the map by a range and keeps the invariant.
\<close>

section \<open>Addresses\<close>

lemma idx_less: "PDX va < 1024" "PTX va < 1024"
proof -
  have "x AND 0x3FF < (1024 :: u32)" for x
    using word_and_le1 [of x "0x3FF"] by (rule le_less_trans) simp
  then show "PDX va < 1024" "PTX va < 1024" by (simp_all add: PDX_def PTX_def)
qed

lemma aligned_iff: "a mod 4096 = 0 \<longleftrightarrow> take_bit 12 a = 0" for a :: u32
  by (simp add: take_bit_eq_mod)

lemma unat_aligned: "a mod 4096 = 0 \<Longrightarrow> unat a mod 4096 = 0" for a :: u32
  using unat_mod_distrib [of a 4096] by simp

lemma PTE_ADDR_aligned: "PTE_ADDR e mod 4096 = 0"
proof -
  have "take_bit 12 (e AND NOT (mask 12)) = (0 :: u32)" by (rule bit_word_eqI) (simp add: bit_simps)
  then show ?thesis by (simp add: aligned_iff PTE_ADDR_def mask_eq_exp_minus_1)
qed

lemma add_aligned: "a mod 4096 = 0 \<Longrightarrow> b mod 4096 = 0 \<Longrightarrow> (a + b) mod 4096 = (0 :: u32)"
proof -
  assume ab: "a mod 4096 = 0" "b mod 4096 = 0"
  have "unat (a + b) mod 4096 = (unat a + unat b) mod 4096"
    by (simp add: unat_word_ariths mod_mod_cancel)
  also have "\<dots> = 0" using unat_aligned [OF ab(1)] unat_aligned [OF ab(2)] by (simp add: mod_eq_0_iff_dvd)
  finally show ?thesis using unat_mod_distrib [of "a + b" 4096] by (simp add: word_unat_eq_iff)
qed

lemma P2V_aligned: "a mod 4096 = 0 \<Longrightarrow> P2V a mod 4096 = 0" "a mod 4096 = 0 \<Longrightarrow> V2P a mod 4096 = 0"
proof -
  assume a: "a mod 4096 = 0"
  have "(- KERNBASE) mod 4096 = 0" "KERNBASE mod 4096 = 0" by (simp_all add: KERNBASE_def)
  then show "P2V a mod 4096 = 0" "V2P a mod 4096 = 0"
    using add_aligned [OF a, of KERNBASE] add_aligned [OF a, of "- KERNBASE"] by (simp_all add: P2V_def V2P_def)
qed

lemma PTE_ADDR_OR:
  assumes "a mod 4096 = 0" "f < 4096"
  shows "PTE_ADDR (a OR f) = a"
proof -
  have a: "12 \<le> n" if "bit a n" for n
    using arg_cong [OF assms(1) [unfolded aligned_iff], of "\<lambda>x. bit x n"] that by (simp add: bit_simps not_less)
  have "f = take_bit 12 f" using assms(2) by (simp add: take_bit_eq_mod word_less_nat_alt word_unat_eq_iff unat_mod)
  then have f: "\<not> bit f n" if "12 \<le> n" for n
    using that by (metis bit_take_bit_iff not_less)
  have m: "(0xFFF :: u32) = mask 12" by (simp add: mask_eq_exp_minus_1)
  show ?thesis unfolding PTE_ADDR_def m
    by (rule bit_word_eqI) (use a f in \<open>auto simp: bit_simps not_less\<close>)
qed

text \<open>The words of pages: entry \<open>i\<close> of the page at \<open>t\<close>.\<close>

lemma unat_ent:
  fixes t i :: u32
  assumes "t mod 4096 = 0" "i < 1024"
  shows "unat (t + 4 * i) = unat t + 4 * unat i"
proof -
  obtain x where x: "unat t = 4096 * x" using unat_aligned [OF assms(1)] by (auto simp: mod_eq_0_iff_dvd dvd_def)
  have "x < 1048576" using x unat_u32 [of t] by simp
  moreover have "unat i < 1024" using assms(2) by (simp add: word_less_nat_alt)
  ultimately show ?thesis using x by (simp add: unat_word_ariths)
qed

lemma ent_inj:
  fixes t u i j :: u32
  assumes "t mod 4096 = 0" "i < 1024" "u mod 4096 = 0" "j < 1024"
  shows "t + 4 * i = u + 4 * j \<longleftrightarrow> t = u \<and> i = j"
proof
  assume "t + 4 * i = u + 4 * j"
  then have e: "unat t + 4 * unat i = unat u + 4 * unat j"
    using unat_ent [OF assms(1,2)] unat_ent [OF assms(3,4)] by metis
  obtain x y where xy: "unat t = 4096 * x" "unat u = 4096 * y"
    using unat_aligned [OF assms(1)] unat_aligned [OF assms(3)] by (auto simp: mod_eq_0_iff_dvd dvd_def)
  have ij: "unat i < 1024" "unat j < 1024" using assms(2,4) by (simp_all add: word_less_nat_alt)
  have e1: "1024 * x + unat i = 1024 * y + unat j" using e xy by simp
  then have "x = y" using arg_cong [OF e1, of "\<lambda>n. n div 1024"] ij by simp
  then have "x = y" "unat i = unat j" using e1 by simp_all
  then show "t = u \<and> i = j" using xy by (simp add: word_unat_eq_iff)
qed simp

section \<open>Words of memory\<close>

lemma word_apart:
  fixes x y :: u32
  assumes "unat x mod 4 = 0" "unat y mod 4 = 0" "x \<noteq> y" "k < 4"
  shows "4 \<le> unat (x + of_nat k - y)"
proof -
  obtain a b where ab: "unat x = 4 * a" "unat y = 4 * b" using assms(1,2) by (auto simp: mod_eq_0_iff_dvd dvd_def)
  have "a \<noteq> b" using ab assms(3) by (metis word_unat_eq_iff)
  have lt: "a < 1073741824" "b < 1073741824" using ab unat_u32 [of x] unat_u32 [of y] by simp_all
  have xk: "unat (x + of_nat k) = 4 * a + k" using ab lt assms(4) by (subst unat_word_ariths) (simp add: unat_of_nat32)
  consider "a + 1 \<le> b" | "b + 1 \<le> a" using \<open>a \<noteq> b\<close> by linarith
  then show ?thesis using ab lt assms(4) xk by cases (simp_all add: unat_sub_if')
qed

lemma ent_mod4:
  fixes t i :: u32
  assumes "t mod 4096 = 0" "i < 1024"
  shows "unat (t + 4 * i) mod 4 = 0"
proof -
  obtain x where x: "unat t = 4096 * x" using unat_aligned [OF assms(1)] by (auto simp: mod_eq_0_iff_dvd dvd_def)
  have "unat (t + 4 * i) = 4 * (1024 * x + unat i)" using unat_ent [OF assms] x by simp
  then show ?thesis by simp
qed

lemma load_store_ent:
  fixes t u i j :: u32
  assumes "t mod 4096 = 0" "i < 1024" "u mod 4096 = 0" "j < 1024"
  shows "load32 (store32 m (t + 4 * i) v) (u + 4 * j) = (if t = u \<and> i = j then v else load32 m (u + 4 * j))"
proof (cases "t = u \<and> i = j")
  case False
  note al = ent_mod4 [OF assms(1,2)] ent_mod4 [OF assms(3,4)]
  have ne: "u + 4 * j \<noteq> t + 4 * i" using ent_inj [OF assms] False by metis
  have "load32 (store32 m (t + 4 * i) v) (u + 4 * j) = load32 m (u + 4 * j)"
    by (rule load32_cong) (use store32_frame word_apart [OF al(2,1) ne] in blast)
  then show ?thesis unfolding if_not_P [OF False] .
qed simp

lemma load_memset_ent:
  fixes x t i :: u32
  assumes "x mod 4096 = 0" "t mod 4096 = 0" "i < 1024"
  shows "load32 (memset m x 0 PGSIZE) (t + 4 * i) = (if t = x then 0 else load32 m (t + 4 * i))"
proof -
  have i: "unat i < 1024" using assms(3) by (simp add: word_less_nat_alt)
  have e: "y + 4 * i + of_nat k = y + of_nat (4 * unat i + k)" for y k by (simp add: add.assoc)
  have m: "memset m x 0 PGSIZE = mset m x 0 4096" by (simp add: memset_mset PGSIZE_def)
  show ?thesis
  proof (cases "t = x")
    case True
    have "mset m x 0 4096 (t + 4 * i + of_nat k) = 0" if "k < 4" for k
      unfolding e True mset_def add_diff_cancel_left' using i that by (subst unat_of_nat32) simp_all
    then have "load32 (memset m x 0 PGSIZE) (t + 4 * i) = load32 (\<lambda>_. 0) (t + 4 * i)" unfolding m by (intro load32_cong)
    also have "\<dots> = 0" by (simp add: load32_def of_le32_def)
    finally show ?thesis using True by simp
  next
    case False
    have "mset m x 0 4096 (t + 4 * i + of_nat k) = m (t + 4 * i + of_nat k)" if "k < 4" for k
      unfolding e by (rule mset_frame, rule pages_apart) (use assms False i that in simp_all)
    then show ?thesis unfolding m using False by (auto intro: load32_cong)
  qed
qed

section \<open>Page tables\<close>

definition pde_at :: "mem \<Rightarrow> u32 \<Rightarrow> u32 \<Rightarrow> u32" where
  "pde_at m pgd d = load32 m (pgd + 4 * d)"

definition ptab :: "mem \<Rightarrow> u32 \<Rightarrow> u32 \<Rightarrow> u32" where
  "ptab m pgd d = P2V (PTE_ADDR (pde_at m pgd d))"

text \<open>The entry that maps an address, when both levels are present.\<close>

definition vmap :: "mem \<Rightarrow> u32 \<Rightarrow> u32 \<Rightarrow> u32 option" where
  "vmap m pgd va = (case pte_at m pgd va of Some e \<Rightarrow> if present e then Some e else None | None \<Rightarrow> None)"

lemma vmap_ent:
  "vmap m pgd va = (if present (pde_at m pgd (PDX va)) \<and> present (load32 m (ptab m pgd (PDX va) + 4 * PTX va))
     then Some (load32 m (ptab m pgd (PDX va) + 4 * PTX va)) else None)"
  by (simp add: vmap_def pte_at_def pde_at_def ptab_def Let_def)

text \<open>The page directory, its page tables and the free pages \<open>xs\<close> are different pages.\<close>

definition pt_ok :: "('z kmstate_scheme) \<Rightarrow> u32 \<Rightarrow> u32 list \<Rightarrow> bool" where
  "pt_ok s pgd xs \<longleftrightarrow> free_pages s xs \<and> pgd mod 4096 = 0 \<and> pgd \<notin> set xs
     \<and> (\<forall>d < 1024. present (pde_at (pmem s) pgd d) \<longrightarrow>
          ptab (pmem s) pgd d \<noteq> 0 \<and> ptab (pmem s) pgd d \<noteq> pgd \<and> ptab (pmem s) pgd d \<notin> set xs)
     \<and> (\<forall>d < 1024. \<forall>e < 1024. present (pde_at (pmem s) pgd d) \<and> present (pde_at (pmem s) pgd e)
          \<and> ptab (pmem s) pgd d = ptab (pmem s) pgd e \<longrightarrow> d = e)"

lemma ptab_aligned: "ptab m pgd d mod 4096 = 0"
  by (simp add: ptab_def P2V_aligned PTE_ADDR_aligned)

lemma pt_okD:
  assumes "pt_ok s pgd xs"
  shows "free_pages s xs" "pgd mod 4096 = 0" "pgd \<notin> set xs"
    "d < 1024 \<Longrightarrow> present (pde_at (pmem s) pgd d) \<Longrightarrow> ptab (pmem s) pgd d \<noteq> 0"
    "d < 1024 \<Longrightarrow> present (pde_at (pmem s) pgd d) \<Longrightarrow> ptab (pmem s) pgd d \<noteq> pgd"
    "d < 1024 \<Longrightarrow> present (pde_at (pmem s) pgd d) \<Longrightarrow> ptab (pmem s) pgd d \<notin> set xs"
    "d < 1024 \<Longrightarrow> e < 1024 \<Longrightarrow> present (pde_at (pmem s) pgd d) \<Longrightarrow> present (pde_at (pmem s) pgd e)
      \<Longrightarrow> ptab (pmem s) pgd d = ptab (pmem s) pgd e \<Longrightarrow> d = e"
  using assms unfolding pt_ok_def by blast+

text \<open>Writing outside the free pages leaves the free list alone.\<close>

lemma page_aligned: "page_ok e x \<Longrightarrow> x mod 4096 = 0"
  by (simp add: page_ok_def PGSIZE_def)

lemma free_pages_store:
  assumes f: "free_pages s xs" and t: "t mod 4096 = 0" "t \<notin> set xs" and i: "i < 1024"
  shows "free_pages (s\<lparr>pmem := store32 (pmem s) (t + 4 * i) v\<rparr>) xs"
proof -
  have st: "store32 (pmem s) (t + 4 * i) v y = pmem s y" if x: "x \<in> set xs" "in_page x y" for x y
  proof (rule store32_frame)
    have "page_ok (kend s) x" using f x(1) by (simp add: free_pages_def)
    then have xa: "x mod 4096 = 0" by (rule page_aligned)
    have n: "unat (y - x) < 4096" using x(2) by (simp add: in_page_def)
    have ne: "x \<noteq> t" using x(1) t(2) by auto
    have y: "x + of_nat (unat (y - x)) = y" by simp
    have p: "4096 \<le> unat (y - t)" using pages_apart [OF xa t(1) ne n] unfolding y .
    have i4: "unat i < 1024" using i by (simp add: word_less_nat_alt)
    then have u: "unat (4 * i) = 4 * unat i" by (simp add: unat_word_ariths)
    then have "4 * i \<le> y - t" using p i4 by (simp add: word_le_nat_alt)
    then have "unat (y - t - 4 * i) = unat (y - t) - 4 * unat i" using u unat_sub [of "4 * i" "y - t"] by simp
    moreover have "y - (t + 4 * i) = y - t - 4 * i" by (rule diff_diff_eq [symmetric])
    ultimately show "4 \<le> unat (y - (t + 4 * i))" using p i4 by presburger
  qed
  have "flist (pmem s) (kfreelist s) xs" using f by (simp add: free_pages_def)
  then have "flist (store32 (pmem s) (t + 4 * i) v) (kfreelist s) xs" by (rule flist_cong) (rule st)
  then show ?thesis using f by (simp add: free_pages_def)
qed

section \<open>walkpgdir\<close>

lemma kload32_run [kexec]: "kload32 a s = Ret (load32 (pmem s) a) s"
  by (simp add: kload32_def kexec)

lemma kstore32_run [kexec]: "kstore32 a v s = Ret () (s\<lparr>pmem := store32 (pmem s) a v\<rparr>)"
  by (simp add: kstore32_def kmod_mem_def kexec)

lemma kmem_ready_mem [simp]: "kmem_ready (s\<lparr>pmem := m\<rparr>) = kmem_ready s" "kmem_ready (s\<lparr>kfreelist := x\<rparr>) = kmem_ready s"
  by (simp_all add: kmem_ready_def)

lemma walkpgdir_hit:
  assumes "present (pde_at (pmem s) pgd (PDX va))"
  shows "walkpgdir pgd va al s = Ret (ptab (pmem s) pgd (PDX va) + 4 * PTX va) s"
  using assms by (simp add: walkpgdir_def Let_def kexec pde_at_def ptab_def)

text \<open>The memory after a page table at \<open>x\<close> is put into slot \<open>d\<close> of the directory.\<close>

definition new_table :: "mem \<Rightarrow> u32 \<Rightarrow> u32 \<Rightarrow> u32 \<Rightarrow> mem" where
  "new_table m pgd d x = store32 (memset m x 0 PGSIZE) (pgd + 4 * d) (V2P x OR PTE_P OR PTE_W OR PTE_U)"

lemma walkpgdir_miss:
  assumes "\<not> present (pde_at (pmem s) pgd (PDX va))" "kmem_ready s" "free_pages s xs"
  shows "walkpgdir pgd va True s = (case xs of [] \<Rightarrow> Ret 0 s
    | x # _ \<Rightarrow> Ret (x + 4 * PTX va) (s\<lparr>kfreelist := load32 (pmem s) x, pmem := new_table (pmem s) pgd (PDX va) x\<rparr>))"
proof (cases xs)
  case Nil
  then have "kfreelist s = 0" using assms(3) by (simp add: free_pages_def)
  then show ?thesis using assms(1,2) Nil by (simp add: walkpgdir_def Let_def kexec pde_at_def)
next
  case (Cons x ys)
  then have "kfreelist s = x" "x \<noteq> 0" using assms(3) by (simp_all add: free_pages_def)
  then show ?thesis using assms(1,2) Cons by (simp add: walkpgdir_def Let_def kexec pde_at_def kmod_mem_def new_table_def)
qed

lemma flags_7: "(PTE_P OR PTE_W OR PTE_U) = 7" "x OR PTE_P OR PTE_W OR PTE_U = x OR 7"
  by (simp_all add: PTE_P_def PTE_W_def PTE_U_def or.assoc)

lemma present_OR: "present (x OR y) = (present x \<or> present y)"
  by (simp add: present_def PTE_P_def and_one_eq mod_2_eq_odd even_or_iff)

lemma present_7: "present 7" "present PTE_P" "\<not> present 0"
  by (simp_all add: present_def PTE_P_def)

lemma new_table_ent:
  assumes "x mod 4096 = 0" "pgd mod 4096 = 0" "x \<noteq> pgd" "d < 1024" "t mod 4096 = 0" "i < 1024"
  shows "load32 (new_table m pgd d x) (t + 4 * i) =
    (if t = pgd \<and> i = d then V2P x OR 7 else if t = x then 0 else load32 m (t + 4 * i))"
  using assms by (auto simp: new_table_def load_store_ent load_memset_ent flags_7)

lemma new_table_pde:
  assumes "x mod 4096 = 0" "pgd mod 4096 = 0" "x \<noteq> pgd" "d < 1024" "e < 1024"
  shows "pde_at (new_table m pgd d x) pgd e = (if e = d then V2P x OR 7 else pde_at m pgd e)"
    "ptab (new_table m pgd d x) pgd e = (if e = d then x else ptab m pgd e)"
proof -
  show p: "pde_at (new_table m pgd d x) pgd e = (if e = d then V2P x OR 7 else pde_at m pgd e)"
    using new_table_ent [OF assms(1-4,2,5)] assms(3) by (simp add: pde_at_def)
  have "P2V (PTE_ADDR (V2P x OR 7)) = x"
    using PTE_ADDR_OR [OF P2V_aligned(2) [OF assms(1)], of 7] by (simp add: P2V_def V2P_def)
  then show "ptab (new_table m pgd d x) pgd e = (if e = d then x else ptab m pgd e)" by (simp add: ptab_def p)
qed

text \<open>Adding an empty page table maps nothing new.\<close>

lemma new_table_vmap:
  assumes ok: "pt_ok s pgd (x # ys)" and d: "d < 1024" "\<not> present (pde_at (pmem s) pgd d)"
  shows "vmap (new_table (pmem s) pgd d x) pgd = vmap (pmem s) pgd"
proof
  fix va
  note o = pt_okD [OF ok]
  have x: "x mod 4096 = 0" "x \<noteq> pgd" using o(1,3) page_aligned by (auto simp: free_pages_def)
  note pd = new_table_pde [OF x(1) o(2) x(2) d(1) idx_less(1) [of va]]
  show "vmap (new_table (pmem s) pgd d x) pgd va = vmap (pmem s) pgd va"
  proof (cases "PDX va = d")
    case True
    then show ?thesis
      using pd d(2) new_table_ent [OF x(1) o(2) x(2) d(1) x(1) idx_less(2) [of va]] x(2) by (simp add: vmap_ent present_7)
  next
    case False
    have "load32 (new_table (pmem s) pgd d x) (ptab (pmem s) pgd (PDX va) + 4 * PTX va)
        = load32 (pmem s) (ptab (pmem s) pgd (PDX va) + 4 * PTX va)" if "present (pde_at (pmem s) pgd (PDX va))"
      using new_table_ent [OF x(1) o(2) x(2) d(1) ptab_aligned idx_less(2)] o(5,6) [OF idx_less(1) that] by auto
    then show ?thesis using pd False by (auto simp: vmap_ent)
  qed
qed

lemma free_pages_memset:
  assumes f: "free_pages s xs" and x: "page_ok e x" "x \<notin> set xs"
  shows "free_pages (s\<lparr>pmem := memset (pmem s) x 0 PGSIZE\<rparr>) xs"
proof -
  have "memset (pmem s) x 0 PGSIZE y = pmem s y" if "z \<in> set xs" "in_page z y" for z y
  proof -
    have z: "page_ok (kend s) z" using f that(1) by (simp add: free_pages_def)
    have "z \<noteq> x" using that(1) x(2) by auto
    then have "\<not> in_page x y" by (rule in_page_apart [OF z x(1) _ that(2)])
    then show ?thesis by (simp add: memset_mset PGSIZE_def mset_def in_page_def)
  qed
  then have "flist (memset (pmem s) x 0 PGSIZE) (kfreelist s) xs"
    using f flist_cong [of "pmem s" "kfreelist s" xs] by (simp add: free_pages_def)
  then show ?thesis using f by (simp add: free_pages_def)
qed

lemma new_table_ok:
  assumes ok: "pt_ok s pgd (x # ys)" and d: "d < 1024" "\<not> present (pde_at (pmem s) pgd d)"
  shows "pt_ok (s\<lparr>kfreelist := load32 (pmem s) x, pmem := new_table (pmem s) pgd d x\<rparr>) pgd ys"
proof -
  note o = pt_okD [OF ok]
  have x: "page_ok (kend s) x" "x \<notin> set ys" "x \<noteq> pgd" "x \<noteq> 0" "kfreelist s = x" using o(1,3) by (auto simp: free_pages_def)
  note xa = page_aligned [OF x(1)]
  let ?m = "new_table (pmem s) pgd d x"
  have "free_pages (s\<lparr>kfreelist := load32 (pmem s) x\<rparr>) ys" using free_pages_kalloc [OF o(1)] x(4,5) by simp
  from free_pages_memset [OF this x(1,2)]
  have "free_pages (s\<lparr>kfreelist := load32 (pmem s) x, pmem := memset (pmem s) x 0 PGSIZE\<rparr>) ys" by simp
  from free_pages_store [OF this o(2) _ d(1)] o(3)
  have f: "free_pages (s\<lparr>kfreelist := load32 (pmem s) x, pmem := ?m\<rparr>) ys" by (simp add: new_table_def)
  note pd = new_table_pde [OF xa o(2) x(3) d(1)]
  show ?thesis
    unfolding pt_ok_def using f o(2-) x(2-4) by (simp add: pd) (metis list.set_intros)
qed

text \<open>Writing one page table entry changes the map at one page.\<close>

lemma pte_store:
  fixes w :: u32
  assumes ok: "pt_ok s pgd xs" and d: "d < 1024" "present (pde_at (pmem s) pgd d)" and i: "i < 1024"
  defines "m \<equiv> store32 (pmem s) (ptab (pmem s) pgd d + 4 * i) w"
  shows "pt_ok (s\<lparr>pmem := m\<rparr>) pgd xs"
    "vmap m pgd va = (if PDX va = d \<and> PTX va = i then (if present w then Some w else None) else vmap (pmem s) pgd va)"
proof -
  note o = pt_okD [OF ok]
  have pd: "pde_at m pgd e = pde_at (pmem s) pgd e" if "e < 1024" for e
    using load_store_ent [OF ptab_aligned i o(2) that] o(5) [OF d] by (simp add: pde_at_def m_def)
  then have pt: "ptab m pgd e = ptab (pmem s) pgd e" if "e < 1024" for e using that by (simp add: ptab_def)
  have f: "free_pages (s\<lparr>pmem := m\<rparr>) xs"
    unfolding m_def by (rule free_pages_store [OF o(1) ptab_aligned o(6) [OF d] i])
  show "pt_ok (s\<lparr>pmem := m\<rparr>) pgd xs"
    unfolding pt_ok_def using f ok by (simp add: pd pt pt_ok_def)
  have l: "load32 m (ptab (pmem s) pgd (PDX va) + 4 * PTX va) =
      (if PDX va = d \<and> PTX va = i then w else load32 (pmem s) (ptab (pmem s) pgd (PDX va) + 4 * PTX va))"
    if "present (pde_at (pmem s) pgd (PDX va))"
    using load_store_ent [OF ptab_aligned i ptab_aligned idx_less(2)] o(7) [OF d(1) idx_less(1) d(2) that]
    by (auto simp: m_def)
  show "vmap m pgd va = (if PDX va = d \<and> PTX va = i then (if present w then Some w else None) else vmap (pmem s) pgd va)"
    using l d(2) by (auto simp: vmap_ent pd pt idx_less)
qed

text \<open>The two indices say which page an address is in.\<close>

lemma same_page: "PDX a = PDX b \<and> PTX a = PTX b \<longleftrightarrow> PGROUNDDOWN a = PGROUNDDOWN b"
proof -
  have m: "(0x3FF :: u32) = mask 10" "PGSIZE - 1 = mask 12" by (simp_all add: PGSIZE_def mask_eq_exp_minus_1)
  have "PDX x = take_bit 10 (drop_bit 22 x)" "PTX x = take_bit 10 (drop_bit 12 x)" for x
    by (simp_all add: PDX_def PTX_def m(1) take_bit_eq_mask)
  moreover have "PGROUNDDOWN x = PGROUNDDOWN y \<longleftrightarrow> (\<forall>n. 12 \<le> n \<and> n < 32 \<longrightarrow> bit x n = bit y n)" for x y
    by (auto simp: PGROUNDDOWN_def m(2) bit_eq_iff bit_simps)
  moreover have "take_bit 10 (drop_bit k x) = take_bit 10 (drop_bit k y) \<longleftrightarrow> (\<forall>n. k \<le> n \<and> n < k + 10 \<longrightarrow> bit x n = bit y n)"
    if "k + 10 \<le> 32" for k and x y :: u32
  proof -
    have "take_bit 10 (drop_bit k x) = take_bit 10 (drop_bit k y) \<longleftrightarrow> (\<forall>n < 10. bit x (k + n) = bit y (k + n))"
    proof -
      have "(\<forall>n < 32. (n < 10 \<and> P n) = (n < 10 \<and> Q n)) \<longleftrightarrow> (\<forall>n < 10. P n = Q n)" for P Q :: "nat \<Rightarrow> bool"
        by (meson less_trans numeral_less_iff semiring_norm(76,78,80,81))
      then show ?thesis using that by (simp add: bit_eq_iff bit_simps)
    qed
    then show ?thesis by (metis add_less_cancel_left le_add1 le_add_diff_inverse)
  qed
  ultimately show ?thesis by (auto; metis not_less numeral_plus_numeral)
qed

lemma PGROUNDDOWN_div: "unat (PGROUNDDOWN x) = unat x div 4096 * 4096"
proof -
  have m: "PGSIZE - 1 = mask 12" by (simp add: PGSIZE_def mask_eq_exp_minus_1)
  have "PGROUNDDOWN x = push_bit 12 (drop_bit 12 x)"
    unfolding PGROUNDDOWN_def m by (rule bit_word_eqI) (auto simp: bit_simps)
  then have "PGROUNDDOWN x = (x div 4096) * 4096" by (simp add: push_bit_eq_mult drop_bit_eq_div)
  moreover have "unat x div 4096 * 4096 < 4294967296" using unat_u32 [of x] by linarith
  ultimately show ?thesis by (simp add: unat_word_ariths unat_div_distrib)
qed

lemma in_page_iff:
  assumes "a mod 4096 = 0"
  shows "PGROUNDDOWN va = a \<longleftrightarrow> unat (va - a) < 4096"
proof -
  obtain x where x: "unat a = 4096 * x" using unat_aligned [OF assms] by (auto simp: mod_eq_0_iff_dvd dvd_def)
  have "PGROUNDDOWN va = a \<longleftrightarrow> unat va div 4096 = x"
    using x by (auto simp: word_unat_eq_iff PGROUNDDOWN_div)
  also have "\<dots> \<longleftrightarrow> unat (va - a) < 4096"
    using x unat_u32 [of va] unat_u32 [of a] by (auto simp: unat_sub_if')
  finally show ?thesis .
qed

section \<open>mappages\<close>

text \<open>The map \<open>f\<close> with \<open>n + 1\<close> pages from \<open>a\<close> mapped to those from \<open>pa\<close>.\<close>

definition map_range :: "(u32 \<Rightarrow> u32 option) \<Rightarrow> u32 \<Rightarrow> nat \<Rightarrow> u32 \<Rightarrow> u32 \<Rightarrow> u32 \<Rightarrow> u32 option" where
  "map_range f a n pa perm va = (let i = unat (va - a) div 4096 in
     if i \<le> n then Some ((pa + of_nat i * PGSIZE) OR perm OR PTE_P) else f va)"

lemma shift_page:
  "unat (va - (a + PGSIZE)) div 4096 = (if unat (va - a) < 4096 then 1048575 else unat (va - a) div 4096 - 1)"
proof -
  have d: "va - (a + PGSIZE) = va - a - 4096" by (simp add: PGSIZE_def diff_diff_eq)
  show ?thesis
  proof (cases "unat (va - a) < 4096")
    case True
    then have "unat (va - a - 4096) = 4096 * 1048575 + unat (va - a)" by (simp add: unat_sub_if')
    then show ?thesis unfolding d using True by simp
  next
    case False
    then have "unat (va - a - 4096) = unat (va - a) - 4096" by (simp add: unat_sub_if')
    then show ?thesis unfolding d using False by simp
  qed
qed

lemma map_range_Suc:
  assumes "Suc n < 1048576"
  shows "map_range (\<lambda>va. if unat (va - a) < 4096 then Some (pa OR perm OR PTE_P) else f va) (a + PGSIZE) n (pa + PGSIZE) perm
    = map_range f a (Suc n) pa perm"
proof
  fix va
  show "map_range (\<lambda>va. if unat (va - a) < 4096 then Some (pa OR perm OR PTE_P) else f va) (a + PGSIZE) n (pa + PGSIZE) perm va
    = map_range f a (Suc n) pa perm va"
  proof (cases "unat (va - a) < 4096")
    case True
    then show ?thesis using assms by (simp add: map_range_def Let_def shift_page)
  next
    case False
    then have "1 \<le> unat (va - a) div 4096" by simp
    then obtain j where j: "unat (va - a) div 4096 = Suc j" by (cases "unat (va - a) div 4096") auto
    show ?thesis using False unfolding map_range_def Let_def shift_page j by (simp add: algebra_simps)
  qed
qed

lemma map_range_0:
  "map_range f a 0 pa perm = (\<lambda>va. if unat (va - a) < 4096 then Some (pa OR perm OR PTE_P) else f va)"
  by (auto simp: map_range_def fun_eq_iff Let_def)

text \<open>One page: the entry is found or made, and written.\<close>

lemma walk_for_map:
  assumes ok: "pt_ok s pgd xs" and k: "kmem_ready s" and new: "vmap (pmem s) pgd a = None" and a: "a mod 4096 = 0"
    and full: "\<not> (xs = [] \<and> \<not> present (pde_at (pmem s) pgd (PDX a)))"
  shows "\<exists>pte s1 ys. walkpgdir pgd a True s = Ret pte s1 \<and> pte \<noteq> 0 \<and> \<not> present (load32 (pmem s1) pte) \<and> kmem_ready s1
    \<and> length xs \<le> Suc (length ys) \<and> (\<forall>w. present w \<longrightarrow> pt_ok (s1\<lparr>pmem := store32 (pmem s1) pte w\<rparr>) pgd ys
        \<and> vmap (store32 (pmem s1) pte w) pgd = (\<lambda>va. if unat (va - a) < 4096 then Some w else vmap (pmem s) pgd va))"
proof -
  have "\<exists>s1 ys. walkpgdir pgd a True s = Ret (ptab (pmem s1) pgd (PDX a) + 4 * PTX a) s1 \<and> kmem_ready s1
      \<and> length xs \<le> Suc (length ys)
      \<and> pt_ok s1 pgd ys \<and> present (pde_at (pmem s1) pgd (PDX a)) \<and> vmap (pmem s1) pgd = vmap (pmem s) pgd"
  proof (cases "present (pde_at (pmem s) pgd (PDX a))")
    case True
    then show ?thesis using walkpgdir_hit [OF True] ok k by (intro exI [of _ s] exI [of _ xs]) simp
  next
    case False
    then obtain x ys where xs: "xs = x # ys" using full by (cases xs) auto
    note ok' = ok [unfolded xs]
    let ?s = "s\<lparr>kfreelist := load32 (pmem s) x, pmem := new_table (pmem s) pgd (PDX a) x\<rparr>"
    have x: "x mod 4096 = 0" "x \<noteq> pgd" using pt_okD(1,3) [OF ok'] page_aligned by (auto simp: free_pages_def)
    note pd = new_table_pde [OF x(1) pt_okD(2) [OF ok'] x(2) idx_less(1) idx_less(1)]
    have "walkpgdir pgd a True s = Ret (x + 4 * PTX a) ?s"
      using walkpgdir_miss [OF False k pt_okD(1) [OF ok']] by simp
    moreover have "present (V2P x OR 7)" by (simp add: present_OR present_7)
    ultimately show ?thesis
      using new_table_ok [OF ok' idx_less(1) False] new_table_vmap [OF ok' idx_less(1) False] k
      by (intro exI [of _ ?s] exI [of _ ys]) (simp add: pd xs)
  qed
  then obtain s1 ys where s1: "walkpgdir pgd a True s = Ret (ptab (pmem s1) pgd (PDX a) + 4 * PTX a) s1" "kmem_ready s1"
    "pt_ok s1 pgd ys" "present (pde_at (pmem s1) pgd (PDX a))" "vmap (pmem s1) pgd = vmap (pmem s) pgd"
    "length xs \<le> Suc (length ys)" by blast
  let ?pte = "ptab (pmem s1) pgd (PDX a) + 4 * PTX a"
  have nz: "?pte \<noteq> 0"
  proof -
    have "ptab (pmem s1) pgd (PDX a) \<noteq> 0" by (rule pt_okD(4) [OF s1(3) idx_less(1) s1(4)])
    then have "unat (ptab (pmem s1) pgd (PDX a)) \<noteq> 0" by (simp add: unat_eq_0)
    then have "unat ?pte \<noteq> 0" using unat_ent [OF ptab_aligned idx_less(2)] by simp
    then show ?thesis by auto
  qed
  have np: "\<not> present (load32 (pmem s1) ?pte)"
    using new s1(4,5) by (metis option.distinct(1) vmap_ent)
  have "PDX va = PDX a \<and> PTX va = PTX a \<longleftrightarrow> unat (va - a) < 4096" for va
    using same_page [of va a] in_page_iff [OF a, of va] in_page_iff [OF a, of a] by simp
  then have "vmap (store32 (pmem s1) ?pte w) pgd = (\<lambda>va. if unat (va - a) < 4096 then Some w else vmap (pmem s) pgd va)"
    if "present w" for w
    using pte_store(2) [OF s1(3) idx_less(1) s1(4) idx_less(2)] that s1(5) by (auto simp: fun_eq_iff)
  then show ?thesis
    using s1(1,2,6) nz np pte_store(1) [OF s1(3) idx_less(1) s1(4) idx_less(2)] by blast
qed

lemma page_step:
  assumes "a mod 4096 = 0" "i < 1048576"
  shows "unat (a + of_nat i * PGSIZE - a) = 4096 * i"
  using assms by (simp add: PGSIZE_def unat_word_ariths unat_of_nat32)

lemma mappages_loop_run:
  assumes "pt_ok s pgd xs" "kmem_ready s" "a mod 4096 = 0" "n < k" "n < 1048576"
    and "\<forall>va. unat (va - a) div 4096 \<le> n \<longrightarrow> vmap (pmem s) pgd va = None"
  shows "\<exists>r s' ys. mappages_loop k pgd a (a + of_nat n * PGSIZE) pa perm s = Ret r s' \<and> pt_ok s' pgd ys \<and> kmem_ready s'
    \<and> (n < length xs \<longrightarrow> r = 0) \<and> (r = 0 \<and> vmap (pmem s') pgd = map_range (vmap (pmem s) pgd) a n pa perm
       \<or> r = - 1 \<and> (\<forall>va. \<not> unat (va - a) div 4096 \<le> n \<longrightarrow> vmap (pmem s') pgd va = vmap (pmem s) pgd va))"
  using assms
proof (induction k arbitrary: s xs a n pa)
  case (Suc k)
  note ok = Suc.prems(1) and kr = Suc.prems(2) and al = Suc.prems(3)
  let ?lst = "a + of_nat n * PGSIZE" and ?w = "pa OR perm OR PTE_P"
  have new: "vmap (pmem s) pgd a = None" using Suc.prems(6) [rule_format, of a] by simp
  show ?case
  proof (cases "xs = [] \<and> \<not> present (pde_at (pmem s) pgd (PDX a))")
    case True
    then have "walkpgdir pgd a True s = Ret 0 s" using walkpgdir_miss [OF _ kr pt_okD(1) [OF ok]] by simp
    then show ?thesis using ok kr True by (intro exI [of _ "- 1"] exI [of _ s] exI [of _ xs]) (simp add: kexec)
  next
    case False
    obtain pte s1 ys where w: "walkpgdir pgd a True s = Ret pte s1" "pte \<noteq> 0" "\<not> present (load32 (pmem s1) pte)" "kmem_ready s1"
        "length xs \<le> Suc (length ys)"
      and st: "\<And>w. present w \<Longrightarrow> pt_ok (s1\<lparr>pmem := store32 (pmem s1) pte w\<rparr>) pgd ys
        \<and> vmap (store32 (pmem s1) pte w) pgd = (\<lambda>va. if unat (va - a) < 4096 then Some w else vmap (pmem s) pgd va)"
      using walk_for_map [OF ok kr new al False] by blast
    let ?s2 = "s1\<lparr>pmem := store32 (pmem s1) pte ?w\<rparr>"
    have "present ?w" by (simp add: present_OR present_7)
    note s2 = conjunct1 [OF st [OF this]] conjunct2 [OF st [OF this]]
    have lst: "a = ?lst \<longleftrightarrow> n = 0" using page_step [OF al Suc.prems(5)] by auto
    have r: "mappages_loop (Suc k) pgd a ?lst pa perm s =
        (if n = 0 then Ret 0 ?s2 else mappages_loop k pgd (a + PGSIZE) ?lst (pa + PGSIZE) perm ?s2)"
      using w lst by (simp add: kexec)
    show ?thesis
    proof (cases n)
      case 0
      then show ?thesis
        using r s2 w(4) by (intro exI [of _ 0] exI [of _ ?s2] exI [of _ ys]) (simp add: map_range_0)
    next
      case (Suc m)
      have al': "(a + PGSIZE) mod 4096 = 0" by (rule add_aligned [OF al]) (simp add: PGSIZE_def)
      have l: "a + PGSIZE + of_nat m * PGSIZE = ?lst" by (simp add: Suc algebra_simps)
      have sub: "unat (va - (a + PGSIZE)) div 4096 \<le> m \<Longrightarrow> \<not> unat (va - a) < 4096 \<and> unat (va - a) div 4096 \<le> n" for va
        using Suc.prems(5) Suc by (auto simp: shift_page split: if_splits)
      have none: "\<forall>va. unat (va - (a + PGSIZE)) div 4096 \<le> m \<longrightarrow> vmap (pmem ?s2) pgd va = None"
        using sub Suc.prems(6) s2(2) by simp
      have out: "\<not> unat (va - a) div 4096 \<le> n \<Longrightarrow> \<not> unat (va - (a + PGSIZE)) div 4096 \<le> m \<and> \<not> unat (va - a) < 4096" for va
        using sub by (auto simp: div_less)
      have "m < k" "m < 1048576" using Suc.prems(4,5) Suc by simp_all
      from Suc.IH [OF s2(1) _ al' this none, of "pa + PGSIZE"] w(4) l
      obtain r' s' zs where r': "mappages_loop k pgd (a + PGSIZE) ?lst (pa + PGSIZE) perm ?s2 = Ret r' s'" "pt_ok s' pgd zs" "kmem_ready s'" "m < length ys \<longrightarrow> r' = 0"
        "r' = 0 \<and> vmap (pmem s') pgd = map_range (vmap (pmem ?s2) pgd) (a + PGSIZE) m (pa + PGSIZE) perm
         \<or> r' = - 1 \<and> (\<forall>va. \<not> unat (va - (a + PGSIZE)) div 4096 \<le> m \<longrightarrow> vmap (pmem s') pgd va = vmap (pmem ?s2) pgd va)"
        by auto
      have "map_range (vmap (pmem ?s2) pgd) (a + PGSIZE) m (pa + PGSIZE) perm = map_range (vmap (pmem s) pgd) a n pa perm"
        using map_range_Suc [of m a pa perm "vmap (pmem s) pgd"] s2(2) Suc.prems(5) Suc by simp
      then show ?thesis
        using r r' out s2(2) Suc w(5) by (intro exI [of _ r'] exI [of _ s'] exI [of _ zs]) auto
    qed
  qed
qed simp

lemma mappages_run:
  assumes ok: "pt_ok s pgd xs" "kmem_ready s" and va: "va mod 4096 = 0" "0 < unat n" "unat va + unat n \<le> 2 ^ 32"
    and new: "\<forall>a. unat (a - va) div 4096 \<le> (unat n - 1) div 4096 \<longrightarrow> vmap (pmem s) pgd a = None"
  shows "\<exists>r s' ys. mappages pgd va n pa perm s = Ret r s' \<and> pt_ok s' pgd ys \<and> kmem_ready s'
    \<and> ((unat n - 1) div 4096 < length xs \<longrightarrow> r = 0)
    \<and> (r = 0 \<and> vmap (pmem s') pgd = map_range (vmap (pmem s) pgd) va ((unat n - 1) div 4096) pa perm
       \<or> r = - 1 \<and> (\<forall>a. \<not> unat (a - va) div 4096 \<le> (unat n - 1) div 4096 \<longrightarrow> vmap (pmem s') pgd a = vmap (pmem s) pgd a))"
proof -
  let ?k = "(unat n - 1) div 4096"
  obtain x where x: "unat va = 4096 * x" using unat_aligned [OF va(1)] by (auto simp: mod_eq_0_iff_dvd dvd_def)
  have "n \<noteq> 0" using va(2) by auto
  then have n1: "unat (n - 1) = unat n - 1" by (rule unat_minus_one)
  have e: "va + n - 1 = va + (n - 1)" by simp
  have u: "unat (va + n - 1) = 4096 * x + (unat n - 1)"
    unfolding e using va(2,3) x n1 by (simp add: unat_word_ariths)
  have k: "?k < 1048576" using unat_u32 [of n] by linarith
  have "4096 * x + 4096 * ?k < 4294967296" using x va(2,3) by simp
  then have "unat (va + of_nat ?k * PGSIZE) = 4096 * x + 4096 * ?k"
    using x va(3) k by (simp add: PGSIZE_def unat_word_ariths unat_of_nat32)
  then have l: "PGROUNDDOWN (va + n - 1) = va + of_nat ?k * PGSIZE"
    unfolding word_unat_eq_iff PGROUNDDOWN_div u by simp
  have d: "PGROUNDDOWN va = va" by (simp add: in_page_iff [OF va(1)])
  have f: "unat (va + of_nat ?k * PGSIZE - va) div 4096 + 1 = ?k + 1" using page_step [OF va(1) k] by simp
  show ?thesis
    unfolding mappages_def Let_def l d f by (rule mappages_loop_run [OF ok va(1) _ k new]) simp
qed

lemma mappages_remap:
  assumes ok: "pt_ok s pgd xs" and va: "va mod 4096 = 0" and m: "vmap (pmem s) pgd va \<noteq> None"
  shows "mappages pgd va n pa perm s = Panic ''remap''"
proof -
  have pd: "present (pde_at (pmem s) pgd (PDX va))" "present (load32 (pmem s) (ptab (pmem s) pgd (PDX va) + 4 * PTX va))"
    using m by (auto simp: vmap_ent split: if_splits)
  have "ptab (pmem s) pgd (PDX va) \<noteq> 0" by (rule pt_okD(4) [OF ok idx_less(1) pd(1)])
  then have "unat (ptab (pmem s) pgd (PDX va) + 4 * PTX va) \<noteq> 0"
    using unat_ent [OF ptab_aligned idx_less(2)] by (simp add: unat_eq_0)
  then have nz: "ptab (pmem s) pgd (PDX va) + 4 * PTX va \<noteq> 0" by auto
  have d: "PGROUNDDOWN va = va" by (simp add: in_page_iff [OF va])
  show ?thesis
    unfolding mappages_def Let_def d using walkpgdir_hit [OF pd(1), of True] pd(2) nz by (simp add: kexec)
qed

end
