(* ===== verification/User_Props.thy ===== *)
theory User_Props
  imports Example Vm_Spec
begin

text \<open>The properties of page tables, system call arguments, file descriptors, open files and the dispatch.\<close>

section \<open>Page tables\<close>





section \<open>System call arguments\<close>

text \<open>The process's memory is mapped, up to its size, and ends below the kernel.\<close>

definition user_sz :: "('z kmstate_scheme) \<Rightarrow> nat" where
  "user_sz s = unat (sz (ptable s (curproc s)))"

definition user_ok :: "('z kmstate_scheme) \<Rightarrow> bool" where
  "user_ok s \<longleftrightarrow> ready s \<and> user_sz s \<le> unat KERNBASE
     \<and> (\<forall>va. unat va < user_sz s \<longrightarrow> translate (pmem s) (cur_pgd s) False va \<noteq> None)"

definition umem :: "('z kmstate_scheme) \<Rightarrow> u32 \<Rightarrow> u8" where
  "umem s va = pmem s (the (translate (pmem s) (cur_pgd s) False va))"

lemma with_proc_run [kexec]: "ready s \<Longrightarrow> with_proc f s = f (curproc s) s"
  by (simp add: with_proc_def kexec)

lemma uload8_run: "user_ok s \<Longrightarrow> unat va < user_sz s \<Longrightarrow> uload8 va s = Ret (umem s va) s"
  by (auto simp: user_ok_def uload8_def kexec umem_def split: option.split)

lemma next_addr: "unat va + 1 < 2 ^ 32 \<Longrightarrow> unat (va + 1 :: u32) = unat va + 1"
  by (simp add: unat_word_ariths)

lemma user_small: "user_ok s \<Longrightarrow> user_sz s \<le> 2147483648"
  by (simp add: user_ok_def KERNBASE_def)

lemma uload_run:
  assumes "user_ok s" "unat va + n \<le> user_sz s"
  shows "uload n va s = Ret (map (\<lambda>i. umem s (va + of_nat i)) [0..<n]) s"
  using assms(2)
proof (induction n arbitrary: va)
  case (Suc n)
  have va: "unat va < user_sz s" "unat (va + 1) = unat va + 1"
    using Suc.prems user_small [OF assms(1)] next_addr [of va] by auto
  have up: "[0..<Suc n] = 0 # map Suc [0..<n]" by (simp add: map_Suc_upt upt_conv_Cons del: upt_Suc)
  show ?case
    using Suc.IH [of "va + 1"] Suc.prems va uload8_run [OF assms(1) va(1)]
    unfolding up by (simp add: kexec comp_def add.assoc)
qed (simp add: kexec)

lemma fetchint_run:
  assumes ok: "user_ok s"
  shows "fetchint a s = Ret (if unat a + 4 \<le> user_sz s then Some (of_le32 (map (\<lambda>i. umem s (a + of_nat i)) [0..<4])) else None) s"
proof -
  have r: "ready s" using ok by (simp add: user_ok_def)
  let ?n = "sz (ptable s (curproc s))"
  have n: "unat ?n \<le> 2147483648" using user_small [OF ok] by (simp add: user_sz_def)
  have "\<not> (a \<ge> ?n \<or> a + 4 > ?n) \<longleftrightarrow> unat a + 4 \<le> unat ?n"
  proof (cases "unat a < unat ?n")
    case True
    then have "unat (a + 4) = unat a + 4" using n by (simp add: unat_word_ariths)
    then show ?thesis using True by (auto simp: word_le_nat_alt word_less_nat_alt)
  qed (auto simp: word_le_nat_alt)
  then show ?thesis
    using uload_run [OF ok, of a 4] r by (auto simp: fetchint_def kexec user_sz_def)
qed

lemma fetchstr_loop_run:
  assumes ok: "user_ok s" and n: "unat a + n \<le> user_sz s"
  shows "\<exists>r. fetchstr_loop n a s = Ret r s \<and> (\<forall>t. r = Some t \<longrightarrow> 0 \<notin> set t \<and> length t < n
    \<and> t = map (\<lambda>i. umem s (a + of_nat i)) [0..<length t] \<and> umem s (a + of_nat (length t)) = 0)"
  using n
proof (induction n arbitrary: a)
  case (Suc n)
  have va: "unat a < user_sz s" "unat (a + 1) = unat a + 1"
    using Suc.prems user_small [OF ok] next_addr [of a] by auto
  note u = uload8_run [OF ok va(1)]
  obtain r where r: "fetchstr_loop n (a + 1) s = Ret r s" and
    t: "\<And>t. r = Some t \<Longrightarrow> 0 \<notin> set t \<and> length t < n
    \<and> t = map (\<lambda>i. umem s (a + 1 + of_nat i)) [0..<length t] \<and> umem s (a + 1 + of_nat (length t)) = 0"
    using Suc.IH [of "a + 1"] Suc.prems va by auto
  have up: "[0..<Suc m] = 0 # map Suc [0..<m]" for m by (simp add: map_Suc_upt upt_conv_Cons del: upt_Suc)
  show ?case
  proof (cases "umem s a = 0")
    case True
    then show ?thesis using u by (simp add: kexec)
  next
    case False
    then have f: "fetchstr_loop (Suc n) a s = Ret (map_option (\<lambda>bs. umem s a # bs) r) s" using u r by (simp add: kexec)
    show ?thesis
    proof (cases r)
      case (Some t')
      note tt = t [OF Some]
      have "map (\<lambda>i. umem s (a + of_nat i)) [0..<length (umem s a # t')] = umem s a # t'"
        using tt unfolding length_Cons up by (simp add: comp_def add.assoc)
      then show ?thesis
        using f tt False Some by (intro exI [of _ "Some (umem s a # t')"]) (simp add: add.assoc del: upt_Suc)
    qed (use f in simp)
  qed
qed (simp add: kexec)

text \<open>
  C30. Whatever a process puts in its registers and on its stack, fetching system call arguments neither
  faults nor leaves the process's memory. \<open>argptr\<close> only passes a block that lies whole below the
  process's size, and \<open>argstr\<close> only a string whose NUL does; everything else is refused with -1.
\<close>

theorem syscall_args_in_bounds:
  assumes ok: "user_ok s"
  shows "(\<exists>r. argint n s = Ret r s)
    \<and> (0 \<le> k \<and> k < 2 ^ 31 \<longrightarrow> (\<exists>r. argptr n k s = Ret r s \<and> (\<forall>p. r = Some p \<longrightarrow> unat p + nat k \<le> user_sz s)))
    \<and> (k < 0 \<longrightarrow> argptr n k s = Ret None s)
    \<and> (\<exists>r. argstr n s = Ret r s \<and> (\<forall>t. r = Some t \<longrightarrow> (\<exists>a. unat a + length t < user_sz s \<and> 0 \<notin> set t
        \<and> t = map (\<lambda>i. umem s (a + of_nat i)) [0..<length t] \<and> umem s (a + of_nat (length t)) = 0)))"
proof -
  have rd: "ready s" using ok by (simp add: user_ok_def)
  have "\<exists>r. argint n s = Ret r s" using rd fetchint_run [OF ok] by (simp add: argint_def kexec)
  then obtain r where r: "argint n s = Ret r s" by blast
  have n: "unat (sz (ptable s (curproc s))) \<le> 2147483648" using user_small [OF ok] by (simp add: user_sz_def)
  have "\<exists>q. argptr n k s = Ret q s \<and> (\<forall>p. q = Some p \<longrightarrow> unat p + nat k \<le> user_sz s)" if k: "0 \<le> k" "k < 2 ^ 31"
  proof (cases r)
    case (Some i)
    have "unat i + nat k \<le> user_sz s" if "\<not> (i \<ge> sz (ptable s (curproc s)) \<or> i + of_int k > sz (ptable s (curproc s)))"
    proof -
      have i: "unat i < unat (sz (ptable s (curproc s)))" using that by (simp add: word_le_nat_alt)
      have "unat (of_int k :: u32) = nat k" using k by (simp add: unat_eq_nat_uint uint_word_of_int)
      then have "unat (i + of_int k) = unat i + nat k" using i n k by (simp add: unat_word_ariths)
      then show ?thesis using that by (simp add: word_less_nat_alt user_sz_def)
    qed
    then show ?thesis using r Some rd k by (auto simp: argptr_def kexec)
  qed (use r rd in \<open>simp add: argptr_def kexec\<close>)
  moreover have "argptr n k s = Ret None s" if "k < 0"
    using r rd that by (cases r) (simp_all add: argptr_def kexec)
  moreover have "\<exists>r. argstr n s = Ret r s \<and> (\<forall>t. r = Some t \<longrightarrow> (\<exists>a. unat a + length t < user_sz s \<and> 0 \<notin> set t
        \<and> t = map (\<lambda>i. umem s (a + of_nat i)) [0..<length t] \<and> umem s (a + of_nat (length t)) = 0))"
  proof (cases r)
    case (Some a)
    show ?thesis
    proof (cases "a \<ge> sz (ptable s (curproc s))")
      case False
      then have a: "unat a < user_sz s" by (simp add: word_le_nat_alt user_sz_def)
      have le: "unat a + (user_sz s - unat a) \<le> user_sz s" using a by simp
      obtain q where "fetchstr_loop (user_sz s - unat a) a s = Ret q s" and
        q: "\<forall>t. q = Some t \<longrightarrow> 0 \<notin> set t \<and> length t < user_sz s - unat a
          \<and> t = map (\<lambda>i. umem s (a + of_nat i)) [0..<length t] \<and> umem s (a + of_nat (length t)) = 0"
        using fetchstr_loop_run [OF ok le] by blast
      then have s: "argstr n s = Ret q s" using r Some rd False by (simp add: argstr_def fetchstr_def kexec user_sz_def)
      show ?thesis
      proof (intro exI [of _ q] conjI s allI impI)
        fix t assume "q = Some t"
        with q have t: "0 \<notin> set t" "length t < user_sz s - unat a" "t = map (\<lambda>i. umem s (a + of_nat i)) [0..<length t]"
          "umem s (a + of_nat (length t)) = 0" by blast+
        from t(2) have "unat a + length t < user_sz s" by linarith
        then show "\<exists>a. unat a + length t < user_sz s \<and> 0 \<notin> set t
            \<and> t = map (\<lambda>i. umem s (a + of_nat i)) [0..<length t] \<and> umem s (a + of_nat (length t)) = 0"
          by (intro exI [of _ a] conjI t(1,3,4))
      qed
    qed (use r rd Some in \<open>simp add: argstr_def fetchstr_def kexec\<close>)
  qed (use r in \<open>simp add: argstr_def kexec\<close>)
  ultimately show ?thesis using r by blast
qed

text \<open>A process with one page of memory, at physical address \<open>0x600000\<close>.\<close>

definition ex_user :: sstate where
  "ex_user = ex0\<lparr>pmem := store32 (store32 (\<lambda>_. 0) 0x80400000 0x500007) 0x80500000 0x600007,
     ptable := (\<lambda>i. if i = 0 then ex_proc\<lparr>sz := 4096\<rparr> else no_proc)\<rparr>"

lemma ex_user_ok: "user_ok ex_user" "user_sz ex_user = 4096"
proof -
  show u: "user_sz ex_user = 4096" by (simp add: user_sz_def ex_user_def curproc_def ex_spin_def)
  have r: "ready ex_user" using ex_ready [of "[]" "\<lambda>_. replicate BSIZE 0" "\<lambda>_. no_inode"] by (simp add: ready_def ex_user_def)
  have pgd: "cur_pgd ex_user = 0x80400000"
    by (simp add: cur_pgd_def ex_user_def P2V_def KERNBASE_def) (simp add: ex_def ex_spin_def)
  have "translate (pmem ex_user) 0x80400000 False va \<noteq> None" if "unat va < 4096" for va
  proof -
    have "drop_bit 12 va = 0" using that by (simp add: drop_bit_eq_div word_unat_eq_iff unat_div_distrib)
    then have z: "PTX va = 0" "PDX va = 0"
      using drop_bit_drop_bit [of 10 12 va] by (simp_all add: PTX_def PDX_def)
    have l: "load32 (pmem ex_user) 0x80400000 = 0x500007" "load32 (pmem ex_user) 0x80500000 = 0x600007"
      using load_store_ent [of "0x80500000" 0 "0x80400000" 0] by (simp_all add: ex_user_def)
    show ?thesis
      by (simp add: translate_def pte_at_def z l Let_def present_def PTE_P_def PTE_ADDR_def P2V_def KERNBASE_def)
  qed
  then show "user_ok ex_user" using r u pgd by (simp add: user_ok_def KERNBASE_def)
qed

theorem syscall_args_in_bounds_witness:
  "\<exists>r. argptr 1 100 ex_user = Ret r ex_user \<and> (\<forall>p. r = Some p \<longrightarrow> unat p + 100 \<le> 4096)"
  using syscall_args_in_bounds [OF ex_user_ok(1), of 1 100] ex_user_ok(2) by auto

section \<open>Descriptors and open files\<close>

text \<open>
  \<open>fdalloc\<close> gives a file the lowest free descriptor of the process, changes no other descriptor and
  no other process, and returns -1 exactly when all 16 are in use.
\<close>

lemma fdalloc_lowest:
  assumes "ready s" "length (ofile (ptable s (curproc s))) = NOFILE"
  shows "case fdalloc f s of
      Ret (Some fd) s' \<Rightarrow> fd < NOFILE \<and> ofile (ptable s (curproc s)) ! fd = None
        \<and> (\<forall>k < fd. ofile (ptable s (curproc s)) ! k \<noteq> None)
        \<and> ofile (ptable s' (curproc s)) = (ofile (ptable s (curproc s)))[fd := Some f]
        \<and> (\<forall>i. i \<noteq> curproc s \<longrightarrow> ptable s' i = ptable s i)
    | Ret None s' \<Rightarrow> s' = s \<and> None \<notin> set (ofile (ptable s (curproc s)))
    | _ \<Rightarrow> False"
proof (cases "find (\<lambda>fd. ofile (ptable s (curproc s)) ! fd = None) [0..<NOFILE]")
  case None
  then have "None \<notin> set (ofile (ptable s (curproc s)))"
    using assms(2) by (auto simp: find_None_iff in_set_conv_nth)
  then show ?thesis using None assms(1) by (simp add: fdalloc_def kexec)
next
  case (Some fd)
  then have "fd < NOFILE" "ofile (ptable s (curproc s)) ! fd = None" "\<forall>k < fd. ofile (ptable s (curproc s)) ! k \<noteq> None"
    by (auto simp: find_Some_iff)
  then show ?thesis using Some assms(1) by (simp add: fdalloc_def kexec kmod_proc_def)
qed

lemma fdalloc_lowest_witness: "\<exists>s'. fdalloc 7 ex0 = Ret (Some 0) s' \<and> ofile (ptable s' 0) ! 0 = Some 7"
proof -
  have o: "length (ofile (ptable ex0 0)) = NOFILE" "ofile (ptable ex0 0) ! 0 = None"
    by (simp_all add: ex_proc_def NOFILE_def)
  have "find (\<lambda>fd. ofile (ptable ex0 0) ! fd = None) [0..<NOFILE] = Some 0"
    unfolding NOFILE_def by (subst upt_conv_Cons) (simp_all add: ex_proc_def)
  then have "\<exists>s'. fdalloc 7 ex0 = Ret (Some 0) s'" by (simp add: fdalloc_def kexec kmod_proc_def)
  then show ?thesis using fdalloc_lowest [of ex0 7] o by (auto simp: NOFILE_def)
qed

text \<open>
  C31. Reference counts of open files. \<open>filealloc\<close> takes the first entry nobody refers to, or fails when
  there is none; \<open>filedup\<close> adds a reference and \<open>fileclose\<close> of a file with others takes one away, so that
  a \<open>filedup\<close> and a \<open>fileclose\<close> cancel out. Both panic on a file that is not open. No other entry changes.
\<close>

theorem file_references:
  assumes s: "ready s"
  shows "(case find (\<lambda>f. f_ref (ftable s f) = 0) [0..<NFILE] of
        None \<Rightarrow> filealloc s = Ret None s
      | Some g \<Rightarrow> filealloc s = Ret (Some g) (s\<lparr>ftable := (ftable s)(g := (ftable s g)\<lparr>f_ref := 1\<rparr>)\<rparr>))
    \<and> (if f_ref (ftable s f) < 1 then filedup f s = Panic ''filedup'' \<and> fileclose f s = Panic ''fileclose''
       else \<exists>s'. filedup f s = Ret f s' \<and> f_ref (ftable s' f) = f_ref (ftable s f) + 1
         \<and> (\<forall>g. g \<noteq> f \<longrightarrow> ftable s' g = ftable s g) \<and> fileclose f s' = Ret () s)"
proof -
  let ?s' = "s\<lparr>ftable := (ftable s)(f := (ftable s f)\<lparr>f_ref := f_ref (ftable s f) + 1\<rparr>)\<rparr>"
  have "fileclose f ?s' = Ret () s" if "\<not> f_ref (ftable s f) < 1"
    using that s by (simp add: fileclose_def kexec kmod_file_def fun_upd_idem)
  moreover have "filedup f s = Ret f ?s'" if "\<not> f_ref (ftable s f) < 1"
    using that s by (simp add: filedup_def kexec kmod_file_def)
  moreover have "filedup f s = Panic ''filedup'' \<and> fileclose f s = Panic ''fileclose''" if "f_ref (ftable s f) < 1"
    using that s by (simp add: filedup_def fileclose_def kexec)
  moreover have "case find (\<lambda>f. f_ref (ftable s f) = 0) [0..<NFILE] of
        None \<Rightarrow> filealloc s = Ret None s
      | Some g \<Rightarrow> filealloc s = Ret (Some g) (s\<lparr>ftable := (ftable s)(g := (ftable s g)\<lparr>f_ref := 1\<rparr>)\<rparr>)"
    using s by (simp add: filealloc_def kexec kmod_file_def split: option.split)
  ultimately show ?thesis by (cases "f_ref (ftable s f) < 1") simp_all
qed

theorem file_references_witness:
  "filedup 3 ex0 = Panic ''filedup'' \<and> (\<exists>s'. filealloc ex0 = Ret (Some 0) s')"
proof -
  have z: "f_ref (ftable ex0 f) = 0" for f by (simp add: ex_def no_file_def)
  have "find (\<lambda>f. f_ref (ftable ex0 f) = 0) [0..<NFILE] = Some 0"
    unfolding NFILE_def by (subst upt_conv_Cons) (simp_all add: z)
  then show ?thesis using file_references [of ex0 3] z by auto
qed

section \<open>Dispatch\<close>













end
