(* ===== verification/Uio.thy ===== *)
theory Uio
  imports Kstring
begin

text \<open>
  The input and output of the user programs, and the formatted output of \<^verbatim>\<open>src/xv6/printf.c\<close>. A program
  sees its files through \<open>read\<close> and \<open>write\<close>: the data that is still to come arrives in pieces (a
  file block, a console line, what the writer of a pipe has put there), and a \<open>read\<close> returns at most the
  bytes asked for and never more than the piece at the front. \<open>urerr\<close> says that the \<open>read\<close> after the
  last piece fails instead of returning 0.
\<close>

record uio =
  uin :: "bytes list"
  urerr :: bool
  uout :: "nat \<Rightarrow> bytes"

text \<open>The result of \<open>read\<close>: \<open>None\<close> is a negative value.\<close>

definition uread :: "nat \<Rightarrow> 'z uio_scheme \<Rightarrow> bytes option \<times> 'z uio_scheme" where
  "uread n u =
     (if n = 0 then (Some [], u)
      else case uin u of
        [] \<Rightarrow> (if urerr u then None else Some [], u)
      | p # ps \<Rightarrow> (Some (take n p), u\<lparr>uin := (if drop n p = [] then ps else drop n p # ps)\<rparr>))"

definition uwrite :: "nat \<Rightarrow> bytes \<Rightarrow> 'z uio_scheme \<Rightarrow> 'z uio_scheme" where
  "uwrite fd bs u = u\<lparr>uout := (uout u)(fd := uout u fd @ bs)\<rparr>"

lemma uwrite_simps [simp]:
  "uin (uwrite fd bs u) = uin u" "urerr (uwrite fd bs u) = urerr u"
  "uout (uwrite fd bs u) = (uout u)(fd := uout u fd @ bs)"
  by (simp_all add: uwrite_def)

lemma uwrite_uwrite [simp]: "uwrite fd bs (uwrite fd as u) = uwrite fd (as @ bs) u"
  by (simp add: uwrite_def)

lemma uwrite_nil [simp]: "uwrite fd [] u = u"
  by (simp add: uwrite_def)

text \<open>A piece that holds nothing would look like the end of the file.\<close>

definition uwf :: "'z uio_scheme \<Rightarrow> bool" where
  "uwf u \<longleftrightarrow> [] \<notin> set (uin u) \<and> \<not> urerr u"

lemma uread_uwf: "uwf u \<Longrightarrow> uwf (snd (uread n u))"
  by (auto simp: uread_def uwf_def split: list.splits)

lemma uread_some:
  assumes "uwf u" "0 < n"
  shows "\<exists>bs. fst (uread n u) = Some bs \<and> length bs \<le> n
    \<and> concat (uin u) = bs @ concat (uin (snd (uread n u))) \<and> (bs = [] \<longleftrightarrow> concat (uin u) = [])"
  using assms by (cases "uin u") (auto simp: uread_def uwf_def)

section \<open>printf\<close>

text \<open>The upper-case digits of \<open>printint\<close>, least significant first; the loop body runs at least once. The
  first argument bounds the iterations: a 32-bit value has at most 32 digits in any base from 2 on.\<close>

definition udigit :: "nat \<Rightarrow> u8" where
  "udigit d = (if d < 10 then 48 + of_nat d else 55 + of_nat d)"

fun uprintint_digits :: "nat \<Rightarrow> nat \<Rightarrow> nat \<Rightarrow> bytes" where
  "uprintint_digits 0 base x = []"
| "uprintint_digits (Suc k) base x =
     udigit (x mod base) # (if x div base \<noteq> 0 then uprintint_digits k base (x div base) else [])"

definition uprintint :: "u32 \<Rightarrow> nat \<Rightarrow> bool \<Rightarrow> bytes" where
  "uprintint xx base sg =
     (let neg = sg \<and> sint xx < 0;
          x = (if neg then - xx else xx)
      in rev (uprintint_digits 32 base (unat x) @ (if neg then [45] else [])))"

text \<open>The variable arguments of \<open>printf\<close>: words, and strings (a null pointer is \<open>None\<close>). A missing
  argument, or one of the wrong kind, has no defined result.\<close>

datatype uarg = UWord u32 | UStr "bytes option"

fun uprintf_fmt :: "bytes \<Rightarrow> uarg list \<Rightarrow> bytes option" where
  "uprintf_fmt [] as = Some []"
| "uprintf_fmt [c] as = Some (if c = 37 then [] else [c])"
| "uprintf_fmt (c # f # fmt) as =
     (if c \<noteq> 37 then map_option ((#) c) (uprintf_fmt (f # fmt) as)
      else if f = 100 then (case as of
          UWord x # as' \<Rightarrow> map_option ((@) (uprintint x 10 True)) (uprintf_fmt fmt as')
        | _ \<Rightarrow> None)
      else if f = 120 \<or> f = 112 then (case as of
          UWord x # as' \<Rightarrow> map_option ((@) (uprintint x 16 False)) (uprintf_fmt fmt as')
        | _ \<Rightarrow> None)
      else if f = 115 then (case as of
          UStr p # as' \<Rightarrow> map_option ((@) (case p of None \<Rightarrow> [40, 110, 117, 108, 108, 41] | Some t \<Rightarrow> cstr t))
            (uprintf_fmt fmt as')
        | _ \<Rightarrow> None)
      else if f = 99 then (case as of
          UWord x # as' \<Rightarrow> map_option ((#) (ucast x)) (uprintf_fmt fmt as')
        | _ \<Rightarrow> None)
      else if f = 37 then map_option ((#) 37) (uprintf_fmt fmt as)
      else map_option (\<lambda>r. 37 # f # r) (uprintf_fmt fmt as))"

definition uprintf :: "nat \<Rightarrow> string \<Rightarrow> uarg list \<Rightarrow> 'z uio_scheme \<Rightarrow> 'z uio_scheme option" where
  "uprintf fd fmt as u = map_option (\<lambda>bs. uwrite fd bs u) (uprintf_fmt (map of_char fmt) as)"

section \<open>gets\<close>

text \<open>\<open>gets\<close> of \<^verbatim>\<open>src/xv6/ulib.c\<close> reads one byte at a time; the buffer is what it stores before the NUL.\<close>

fun gets_loop :: "nat \<Rightarrow> bytes \<Rightarrow> 'z uio_scheme \<Rightarrow> bytes \<times> 'z uio_scheme" where
  "gets_loop 0 buf u = (buf, u)"
| "gets_loop (Suc k) buf u =
     (case uread 1 u of
        (Some (c # _), u') \<Rightarrow>
          if c = 10 \<or> c = 13 then (buf @ [c], u') else gets_loop k (buf @ [c]) u'
      | (_, u') \<Rightarrow> (buf, u'))"

definition gets :: "nat \<Rightarrow> 'z uio_scheme \<Rightarrow> bytes \<times> 'z uio_scheme" where
  "gets mx u = gets_loop (mx - 1) [] u"

section \<open>Printed numbers\<close>

lemma udigit_isdigit: "d < 10 \<Longrightarrow> isdigit8 (udigit d)"
  by (simp add: udigit_def isdigit8_def word_le_nat_alt unat_word_ariths unsigned_of_nat take_bit_nat_eq_self)

lemma udigit_value: "d < 10 \<Longrightarrow> ucast (udigit d) = (48 + of_nat d :: u32)"
  by (rule word_unat_eq_iff [THEN iffD2])
     (simp add: udigit_def unsigned_ucast_eq unat_word_ariths unsigned_of_nat take_bit_nat_eq_self)

lemma uprintint_digits_isdigit: "d \<in> set (uprintint_digits k 10 x) \<Longrightarrow> isdigit8 d"
  by (induction k arbitrary: x) (auto simp: udigit_isdigit split: if_splits)

fun atoi_fold :: "u32 \<Rightarrow> bytes \<Rightarrow> u32" where
  "atoi_fold n [] = n"
| "atoi_fold n (d # ds) = atoi_fold (n * 10 + ucast d - 48) ds"

lemma atoi_fold_append: "atoi_fold n (xs @ ys) = atoi_fold (atoi_fold n xs) ys"
  by (induction xs arbitrary: n) auto

lemma atoi_loop_fold:
  "mread m a (length ds) = ds \<Longrightarrow> (\<And>d. d \<in> set ds \<Longrightarrow> isdigit8 d)
   \<Longrightarrow> \<not> isdigit8 (m (a + of_nat (length ds))) \<Longrightarrow> atoi_loop m a n = Some (atoi_fold n ds)"
proof (induction ds arbitrary: a n)
  case Nil
  then show ?case by (subst atoi_loop.simps) simp
next
  case (Cons d ds)
  then have d: "m a = d" and ds: "mread m (a + 1) (length ds) = ds" by (simp_all add: mread_Suc)
  have e: "a + of_nat (length (d # ds)) = (a + 1) + of_nat (length ds)" by (simp add: add.assoc)
  have "atoi_loop m (a + 1) (n * 10 + ucast d - 48) = Some (atoi_fold (n * 10 + ucast d - 48) ds)"
    using Cons.prems(2) Cons.prems(3) [unfolded e] by (intro Cons.IH ds) auto
  then show ?case using d Cons.prems(2) [of d] by (subst atoi_loop.simps) simp
qed

lemma atoi_fold_digits:
  "x < 10 ^ k \<Longrightarrow> 0 < k \<Longrightarrow> atoi_fold 0 (rev (uprintint_digits k 10 x)) = of_nat x"
proof (induction k arbitrary: x)
  case (Suc k)
  have ds: "ucast (udigit (x mod 10)) = (48 + of_nat (x mod 10) :: u32)" by (simp add: udigit_value)
  have "(of_nat x :: u32) = of_nat (x div 10 * 10 + x mod 10)" by simp
  then have x: "(of_nat x :: u32) = of_nat (x div 10) * 10 + of_nat (x mod 10)"
    by (simp only: of_nat_add of_nat_mult of_nat_numeral)
  show ?case
  proof (cases "x div 10 = 0")
    case True
    then show ?thesis using ds by (subst x) simp
  next
    case False
    then have "0 < k" using Suc.prems by (cases k) auto
    moreover have "x div 10 < 10 ^ k" using Suc.prems by (simp add: div_less_iff_less_mult mult.commute)
    ultimately show ?thesis using False Suc.IH ds by (subst x) (simp add: atoi_fold_append)
  qed
qed simp

lemma length_uprintint_digits:
  "x < 10 ^ n \<Longrightarrow> 0 < n \<Longrightarrow> length (uprintint_digits k 10 x) \<le> n"
proof (induction k arbitrary: x n)
  case (Suc k)
  show ?case
  proof (cases "x div 10 = 0")
    case True
    then show ?thesis using Suc.prems by simp
  next
    case False
    then obtain n' where n: "n = Suc n'" "0 < n'" using Suc.prems by (cases n; cases "n - 1") auto
    then have "x div 10 < 10 ^ n'" using Suc.prems by (simp add: div_less_iff_less_mult mult.commute)
    then show ?thesis using Suc.IH [of "x div 10" n'] n False by simp
  qed
qed simp

end
