(* ===== verification/Utools.thy ===== *)
theory Utools
  imports Uio
begin

text \<open>
  The text tools \<^verbatim>\<open>src/xv6/wc.c\<close>, \<^verbatim>\<open>src/xv6/cat.c\<close>, \<^verbatim>\<open>src/xv6/echo.c\<close> and \<^verbatim>\<open>src/xv6/grep.c\<close> over the
  input and output of \<open>Uio\<close>. Files are opened through a parameter: \<open>None\<close> for an \<open>open\<close> that
  fails, the pieces its reads will return otherwise. A C string is the list of its bytes before the NUL.
  The read loops end because every round consumes input.
\<close>

lemma uread_less:
  assumes "uread n u = (Some (b # bs), u')"
  shows "length (concat (uin u')) < length (concat (uin u))"
proof (cases "uin u")
  case (Cons p ps)
  then have "0 < n" "p \<noteq> []" "uin u' = (if drop n p = [] then ps else drop n p # ps)"
    using assms by (auto simp: uread_def split: if_splits)
  moreover have "length (drop n p) < length p" using calculation by simp
  ultimately show ?thesis using Cons by (auto split: if_splits)
qed (use assms in \<open>auto simp: uread_def split: if_splits\<close>)

section \<open>wc\<close>

record wcount =
  wc_l :: u32
  wc_w :: u32
  wc_c :: u32
  wc_inword :: bool

definition wc_space :: "u8 \<Rightarrow> bool" where
  "wc_space b \<longleftrightarrow> b \<in> {32, 13, 9, 10, 11}"

definition wc_byte :: "u8 \<Rightarrow> wcount \<Rightarrow> wcount" where
  "wc_byte b k =
     (let k = k\<lparr>wc_c := wc_c k + 1\<rparr>;
          k = (if b = 10 then k\<lparr>wc_l := wc_l k + 1\<rparr> else k)
      in if wc_space b then k\<lparr>wc_inword := False\<rparr>
         else if \<not> wc_inword k then k\<lparr>wc_w := wc_w k + 1, wc_inword := True\<rparr>
         else k)"

function wc_loop :: "wcount \<Rightarrow> 'z uio_scheme \<Rightarrow> wcount option \<times> 'z uio_scheme" where
  "wc_loop k u =
     (case uread 512 u of
        (None, u') \<Rightarrow> (None, u')
      | (Some [], u') \<Rightarrow> (Some k, u')
      | (Some (b # bs), u') \<Rightarrow> wc_loop (fold wc_byte (b # bs) k) u')"
  by pat_completeness auto
termination
  by (relation "measure (\<lambda>(k, u). length (concat (uin u)))") (auto dest: uread_less [OF sym])

text \<open>The first result is whether the program still runs: after a read error it exits.\<close>

definition wc :: "bytes \<Rightarrow> 'z uio_scheme \<Rightarrow> bool \<times> 'z uio_scheme option" where
  "wc nm u =
     (case wc_loop \<lparr>wc_l = 0, wc_w = 0, wc_c = 0, wc_inword = False\<rparr> u of
        (None, u') \<Rightarrow> (False, uprintf 1 ''wc: read error\<newline>'' [] u')
      | (Some k, u') \<Rightarrow> (True,
          uprintf 1 ''%d %d %d %s\<newline>'' [UWord (wc_l k), UWord (wc_w k), UWord (wc_c k), UStr (Some nm)] u'))"

text \<open>The loop of \<open>main\<close> over the file arguments, which ends the program at the first file that cannot be
  opened. \<open>opn\<close> gives the pieces of a file and whether reading it ends in an error.\<close>

fun wc_files :: "(bytes \<Rightarrow> (bytes list \<times> bool) option) \<Rightarrow> bytes list \<Rightarrow> 'z uio_scheme \<Rightarrow> 'z uio_scheme option"
where
  "wc_files opn [] u = Some u"
| "wc_files opn (f # fs) u =
     (case opn f of
        None \<Rightarrow> uprintf 1 ''wc: cannot open %s\<newline>'' [UStr (Some f)] u
      | Some (ps, e) \<Rightarrow>
          (case wc f (u\<lparr>uin := ps, urerr := e\<rparr>) of
             (True, Some u') \<Rightarrow> wc_files opn fs u'
           | (_, r) \<Rightarrow> r))"

definition wc_main :: "(bytes \<Rightarrow> (bytes list \<times> bool) option) \<Rightarrow> bytes list \<Rightarrow> 'z uio_scheme \<Rightarrow> 'z uio_scheme option"
where
  "wc_main opn args u = (if args = [] then snd (wc [] u) else wc_files opn args u)"

section \<open>cat and echo\<close>

text \<open>\<open>cat\<close> copies with a buffer of 512 bytes. What a \<open>write\<close> to the standard output returns
  is the parameter \<open>wr\<close>: the number of bytes written, or a negative value. Anything but the whole piece
  ends the program.\<close>

function cat_loop :: "(bytes \<Rightarrow> int) \<Rightarrow> 'z uio_scheme \<Rightarrow> bool \<times> 'z uio_scheme option" where
  "cat_loop wr u =
     (case uread 512 u of
        (None, u') \<Rightarrow> (False, uprintf 1 ''cat: read error\<newline>'' [] u')
      | (Some [], u') \<Rightarrow> (True, Some u')
      | (Some (b # bs), u') \<Rightarrow>
          if wr (b # bs) = int (length (b # bs)) then cat_loop wr (uwrite 1 (b # bs) u')
          else (False, uprintf 1 ''cat: write error\<newline>'' [] (uwrite 1 (take (nat (wr (b # bs))) (b # bs)) u')))"
  by pat_completeness auto
termination
  by (relation "measure (\<lambda>(_, u). length (concat (uin u)))") (auto dest: uread_less [OF sym])

fun cat_files :: "(bytes \<Rightarrow> int) \<Rightarrow> (bytes \<Rightarrow> (bytes list \<times> bool) option) \<Rightarrow> bytes list
  \<Rightarrow> 'z uio_scheme \<Rightarrow> 'z uio_scheme option" where
  "cat_files wr opn [] u = Some u"
| "cat_files wr opn (f # fs) u =
     (case opn f of
        None \<Rightarrow> uprintf 1 ''cat: cannot open %s\<newline>'' [UStr (Some f)] u
      | Some (ps, e) \<Rightarrow>
          (case cat_loop wr (u\<lparr>uin := ps, urerr := e\<rparr>) of
             (True, Some u') \<Rightarrow> cat_files wr opn fs u'
           | (_, r) \<Rightarrow> r))"

definition cat_main :: "(bytes \<Rightarrow> int) \<Rightarrow> (bytes \<Rightarrow> (bytes list \<times> bool) option) \<Rightarrow> bytes list
  \<Rightarrow> 'z uio_scheme \<Rightarrow> 'z uio_scheme option" where
  "cat_main wr opn args u = (if args = [] then snd (cat_loop wr u) else cat_files wr opn args u)"

fun echo_main :: "bytes list \<Rightarrow> 'z uio_scheme \<Rightarrow> 'z uio_scheme option" where
  "echo_main [] u = Some u"
| "echo_main [a] u = uprintf 1 ''%s%s'' [UStr (Some a), UStr (Some [10])] u"
| "echo_main (a # b # as) u =
     Option.bind (uprintf 1 ''%s%s'' [UStr (Some a), UStr (Some [32])] u) (echo_main (b # as))"

section \<open>grep\<close>

text \<open>The matcher: \<open>^\<close> is 94, \<open>$\<close> is 36, \<open>.\<close> is 46 and \<open>*\<close> is 42.\<close>

function (sequential) matchhere :: "bytes \<Rightarrow> bytes \<Rightarrow> bool"
  and matchstar :: "u8 \<Rightarrow> bytes \<Rightarrow> bytes \<Rightarrow> bool" where
  "matchhere [] text = True"
| "matchhere (c # r) text =
     (if r \<noteq> [] \<and> hd r = 42 then matchstar c (tl r) text
      else if c = 36 \<and> r = [] then text = []
      else if text \<noteq> [] \<and> (c = 46 \<or> c = hd text) then matchhere r (tl text)
      else False)"
| "matchstar c re text =
     (if matchhere re text then True
      else if text \<noteq> [] \<and> (hd text = c \<or> c = 46) then matchstar c re (tl text)
      else False)"
  by pat_completeness auto
termination
  by (relation "measures [\<lambda>x. (case x of Inl (re, _) \<Rightarrow> length re | Inr (_, re, _) \<Rightarrow> length re),
        \<lambda>x. (case x of Inl (_, t) \<Rightarrow> length t | Inr (_, _, t) \<Rightarrow> length t),
        \<lambda>x. (case x of Inl _ \<Rightarrow> 0 | Inr _ \<Rightarrow> 1)]") auto

fun match_from :: "bytes \<Rightarrow> bytes \<Rightarrow> bool" where
  "match_from re [] = matchhere re []"
| "match_from re (c # text) = (if matchhere re (c # text) then True else match_from re text)"

definition match :: "bytes \<Rightarrow> bytes \<Rightarrow> bool" where
  "match re text = (if re \<noteq> [] \<and> hd re = 94 then matchhere (tl re) text else match_from re text)"

text \<open>The inner loop: the lines of \<open>p\<close> up to the first NUL, what is printed and what is left.\<close>

function grep_lines :: "bytes \<Rightarrow> bytes \<Rightarrow> bytes \<times> bytes" where
  "grep_lines pat p =
     (if 10 \<in> set (cstr p) then
        let q = takeWhile (\<lambda>b. b \<noteq> 10) p;
            (ws, r) = grep_lines pat (drop (Suc (length q)) p)
        in ((if match pat q then q @ [10] else []) @ ws, r)
      else ([], p))"
  by pat_completeness auto
termination
  by (relation "measure (\<lambda>(_, p). length p)") (auto simp: cstr_def dest!: set_takeWhileD intro: diff_less length_pos_if_in_set)

text \<open>The outer loop, \<open>buf\<close> holding the \<open>m\<close> bytes kept from the last round.\<close>

function grep_loop :: "bytes \<Rightarrow> bytes \<Rightarrow> 'z uio_scheme \<Rightarrow> 'z uio_scheme" where
  "grep_loop pat buf u =
     (case uread (1024 - length buf - 1) u of
        (Some (b # bs), u') \<Rightarrow>
          (let d = buf @ b # bs;
               (ws, p) = grep_lines pat d
           in grep_loop pat (if length p = length d then [] else p) (uwrite 1 ws u'))
      | (_, u') \<Rightarrow> u')"
  by pat_completeness auto
termination
  by (relation "measure (\<lambda>(_, _, u). length (concat (uin u)))") (auto dest: uread_less [OF sym])

definition grep :: "bytes \<Rightarrow> 'z uio_scheme \<Rightarrow> 'z uio_scheme" where
  "grep pat u = grep_loop pat [] u"

fun grep_files :: "(bytes \<Rightarrow> (bytes list \<times> bool) option) \<Rightarrow> bytes \<Rightarrow> bytes list
  \<Rightarrow> 'z uio_scheme \<Rightarrow> 'z uio_scheme option" where
  "grep_files opn pat [] u = Some u"
| "grep_files opn pat (f # fs) u =
     (case opn f of
        None \<Rightarrow> uprintf 1 ''grep: cannot open %s\<newline>'' [UStr (Some f)] u
      | Some (ps, e) \<Rightarrow> grep_files opn pat fs (grep pat (u\<lparr>uin := ps, urerr := e\<rparr>)))"

definition grep_main :: "(bytes \<Rightarrow> (bytes list \<times> bool) option) \<Rightarrow> bytes list \<Rightarrow> 'z uio_scheme \<Rightarrow> 'z uio_scheme option"
where
  "grep_main opn args u =
     (case args of
        [] \<Rightarrow> uprintf 2 ''usage: grep pattern [file ...]\<newline>'' [] u
      | [pat] \<Rightarrow> Some (grep pat u)
      | pat # fs \<Rightarrow> grep_files opn pat fs u)"

declare wc_loop.simps [simp del] cat_loop.simps [simp del] grep_lines.simps [simp del]
  grep_loop.simps [simp del] matchstar.simps [simp del]

section \<open>What wc counts\<close>

definition word_starts :: "bytes \<Rightarrow> nat set" where
  "word_starts bs = {i. i < length bs \<and> \<not> wc_space (bs ! i) \<and> (i = 0 \<or> wc_space (bs ! (i - 1)))}"

lemma word_starts_filter:
  "word_starts bs = set (filter (\<lambda>i. \<not> wc_space (bs ! i) \<and> (i = 0 \<or> wc_space (bs ! (i - 1)))) [0..<length bs])"
  by (auto simp: word_starts_def)

lemma finite_word_starts [simp]: "finite (word_starts bs)"
  by (rule finite_subset [of _ "{..<length bs}"]) (auto simp: word_starts_def)

lemma word_starts_snoc:
  "word_starts (bs @ [b]) = word_starts bs
     \<union> (if \<not> wc_space b \<and> (bs = [] \<or> wc_space (last bs)) then {length bs} else {})"
  by (cases "bs = []") (auto simp: word_starts_def nth_append last_conv_nth less_Suc_eq split: if_splits)

definition wc_after :: "bytes \<Rightarrow> wcount" where
  "wc_after bs = \<lparr>wc_l = of_nat (count_list bs 10), wc_w = of_nat (card (word_starts bs)),
     wc_c = of_nat (length bs), wc_inword = (bs \<noteq> [] \<and> \<not> wc_space (last bs))\<rparr>"

lemma wc_byte_after: "wc_byte b (wc_after bs) = wc_after (bs @ [b])"
proof -
  have "length bs \<notin> word_starts bs" by (simp add: word_starts_def)
  then have "card (word_starts (bs @ [b])) = card (word_starts bs)
      + (if \<not> wc_space b \<and> (bs = [] \<or> wc_space (last bs)) then 1 else 0)"
    by (simp add: word_starts_snoc)
  then show ?thesis
    by (auto simp: wc_byte_def wc_after_def Let_def wc_space_def)
qed

lemma wc_fold_after: "fold wc_byte cs (wc_after bs) = wc_after (bs @ cs)"
  by (induction cs arbitrary: bs) (simp_all add: wc_byte_after)

lemma wc_loop_step:
  "uread 512 u = (Some [], u') \<Longrightarrow> wc_loop k u = (Some k, u')"
  "uread 512 u = (Some (b # bs), u') \<Longrightarrow> wc_loop k u = wc_loop (fold wc_byte (b # bs) k) u'"
  by (subst wc_loop.simps, simp)+

lemma wc_loop_after:
  "uwf u \<Longrightarrow> concat (uin u) = ds \<Longrightarrow>
     \<exists>u'. wc_loop (wc_after bs) u = (Some (wc_after (bs @ ds)), u') \<and> uout u' = uout u"
proof (induction "length ds" arbitrary: ds bs u rule: less_induct)
  case less
  obtain r u1 where r: "uread 512 u = (r, u1)" by (cases "uread 512 u")
  obtain cs where cs: "r = Some cs" "ds = cs @ concat (uin u1)" "cs = [] \<longleftrightarrow> ds = []"
    using uread_some [OF less.prems(1), of 512] unfolding r less.prems(2) by (metis fst_conv snd_conv zero_less_numeral)
  have wf: "uwf u1" using uread_uwf [OF less.prems(1), of 512] r by simp
  have out: "uout u1 = uout u" using r by (auto simp: uread_def split: list.splits)
  show ?case
  proof (cases cs)
    case Nil
    then have "wc_loop (wc_after bs) u = (Some (wc_after bs), u1)" "ds = []"
      using r cs wc_loop_step(1) by blast+
    then show ?thesis using out by simp
  next
    case (Cons c cs')
    then have "wc_loop (wc_after bs) u = wc_loop (wc_after (bs @ cs)) u1"
      using r cs(1) wc_loop_step(2) [of u c cs' u1 "wc_after bs"] wc_fold_after [of cs bs] by simp
    moreover have "length (concat (uin u1)) < length ds" using cs(2) Cons by simp
    ultimately show ?thesis using less.hyps [of "concat (uin u1)" u1 "bs @ cs"] wf cs(2) out
      by (metis append.assoc)
  qed
qed

section \<open>What the matcher accepts\<close>

text \<open>A pattern as a sequence of items, and whether it ends in \<open>$\<close>.\<close>

datatype ritem = One u8 | Star u8

fun re_items :: "bytes \<Rightarrow> ritem list \<times> bool" where
  "re_items [] = ([], False)"
| "re_items [c] = (if c = 36 then ([], True) else ([One c], False))"
| "re_items (c # d # r) = (if d = 42 then apfst ((#) (Star c)) (re_items r)
     else apfst ((#) (One c)) (re_items (d # r)))"

definition sym_ok :: "u8 \<Rightarrow> u8 \<Rightarrow> bool" where
  "sym_ok c b \<longleftrightarrow> c = 46 \<or> c = b"

fun item_matches :: "ritem \<Rightarrow> bytes \<Rightarrow> bool" where
  "item_matches (One c) w \<longleftrightarrow> length w = 1 \<and> list_all (sym_ok c) w"
| "item_matches (Star c) w \<longleftrightarrow> list_all (sym_ok c) w"

definition begins_items :: "ritem list \<Rightarrow> bool \<Rightarrow> bytes \<Rightarrow> bool" where
  "begins_items is e text \<longleftrightarrow>
     (\<exists>ws rest. text = concat ws @ rest \<and> list_all2 item_matches is ws \<and> (e \<longrightarrow> rest = []))"

definition begins :: "bytes \<Rightarrow> bytes \<Rightarrow> bool" where
  "begins re text = begins_items (fst (re_items re)) (snd (re_items re)) text"

lemma begins_items_Cons:
  "begins_items (i # is) e text \<longleftrightarrow>
     (\<exists>w rest. text = w @ rest \<and> item_matches i w \<and> begins_items is e rest)" (is "?l \<longleftrightarrow> ?r")
proof
  assume ?l
  then obtain ws rest where "text = concat ws @ rest" "list_all2 item_matches (i # is) ws" "e \<longrightarrow> rest = []"
    by (auto simp: begins_items_def)
  then show ?r by (cases ws) (auto simp: begins_items_def)
next
  assume ?r
  then obtain w ws rest where "text = w @ concat ws @ rest" "item_matches i w"
      "list_all2 item_matches is ws" "e \<longrightarrow> rest = []"
    by (auto simp: begins_items_def)
  then show ?l by (auto simp: begins_items_def intro!: exI [of _ "w # ws"])
qed

lemma split_one:
  "(\<exists>w rest. xs = w @ rest \<and> (length w = 1 \<and> list_all p w) \<and> q rest) \<longleftrightarrow> xs \<noteq> [] \<and> p (hd xs) \<and> q (tl xs)"
  (is "?l \<longleftrightarrow> ?r")
proof
  assume ?l
  then obtain w rest where "xs = w @ rest" "length w = 1" "list_all p w" "q rest" by blast
  then show ?r by (cases w) auto
next
  assume ?r
  then show ?l by (intro exI [of _ "[hd xs]"] exI [of _ "tl xs"]) simp
qed

lemma split_star:
  "(\<exists>w rest. x # xs = w @ rest \<and> list_all p w \<and> q rest) \<longleftrightarrow>
     q (x # xs) \<or> p x \<and> (\<exists>w rest. xs = w @ rest \<and> list_all p w \<and> q rest)" (is "?l \<longleftrightarrow> ?r")
proof
  assume ?l
  then obtain w rest where "x # xs = w @ rest" "list_all p w" "q rest" by blast
  then show ?r by (cases w) auto
next
  assume ?r
  then show ?l
  proof
    assume "q (x # xs)"
    then show ?l by (intro exI [of _ "[]"] exI [of _ "x # xs"]) simp
  next
    assume "p x \<and> (\<exists>w rest. xs = w @ rest \<and> list_all p w \<and> q rest)"
    then obtain w rest where "p x" "xs = w @ rest" "list_all p w" "q rest" by blast
    then show ?l by (intro exI [of _ "x # w"] exI [of _ rest]) simp
  qed
qed

lemma begins_nil [simp]: "begins [] text"
  by (simp add: begins_def begins_items_def)

lemma begins_star:
  "begins (c # 42 # r) text \<longleftrightarrow> (\<exists>w rest. text = w @ rest \<and> list_all (sym_ok c) w \<and> begins r rest)"
  by (simp add: begins_def begins_items_Cons)

lemma begins_end: "begins [36] text \<longleftrightarrow> text = []"
  by (simp add: begins_def begins_items_def)

lemma begins_one:
  assumes "r = [] \<longrightarrow> c \<noteq> 36" "r \<noteq> [] \<longrightarrow> hd r \<noteq> 42"
  shows "begins (c # r) text \<longleftrightarrow> text \<noteq> [] \<and> sym_ok c (hd text) \<and> begins r (tl text)"
proof -
  have i: "re_items (c # r) = apfst ((#) (One c)) (re_items r)" using assms by (cases r) auto
  show ?thesis by (simp add: begins_def i begins_items_Cons split_one [simplified])
qed

lemma matchhere_begins: "matchhere re text \<longleftrightarrow> begins re text"
  and matchstar_begins: "matchstar c re text
    \<longleftrightarrow> (\<exists>w rest. text = w @ rest \<and> list_all (sym_ok c) w \<and> begins re rest)"
proof (induction re "text" and c re "text" rule: matchhere_matchstar.induct)
  case (2 c r "text")
  show ?case
  proof (cases "r \<noteq> [] \<and> hd r = 42")
    case True
    then obtain r' where "r = 42 # r'" by (cases r) auto
    then show ?thesis using 2(1) True by (simp add: begins_star)
  next
    case False
    then show ?thesis using 2(2) by (cases "c = 36 \<and> r = []") (auto simp: begins_end begins_one sym_ok_def)
  qed
next
  case (3 c re "text")
  show ?case
  proof (cases "text")
    case Nil
    then show ?thesis using 3(1) by (simp add: matchstar.simps [of c re "[]"])
  next
    case (Cons x xs)
    then show ?thesis using 3
      by (simp add: matchstar.simps [of c re "x # xs"] split_star sym_ok_def) metis
  qed
qed simp

lemma match_from_begins: "match_from re text \<longleftrightarrow> (\<exists>pre post. text = pre @ post \<and> begins re post)"
proof (induction "text")
  case (Cons c cs)
  then show ?case by (auto simp: matchhere_begins Cons_eq_append_conv)
qed (simp add: matchhere_begins)

text \<open>The start of a line is lost when the read that brings it has no newline: of the line \<open>ab\<close> in two reads,
  \<open>grep a\<close> sees only \<open>b\<close>.\<close>

lemma grep_drops_partial_line:
  "uout (grep [97] \<lparr>uin = [[97, 98, 10]], urerr = False, uout = \<lambda>_. []\<rparr>) 1 = [97, 98, 10]"
  "uout (grep [97] \<lparr>uin = [[97], [98, 10]], urerr = False, uout = \<lambda>_. []\<rparr>) 1 = []"
  by code_simp+

end
