(* ===== verification/Uthread.thy ===== *)
theory Uthread
  imports Uio
begin

text \<open>
  The user-level threads of \<^verbatim>\<open>src/xv6/uthreadlib.c\<close> and the context switch of
  \<^verbatim>\<open>src/xv6/uthread_switch.S\<close>. The table \<open>all_thread\<close> has its \<open>sp\<close> and \<open>state\<close> fields in the
  record and the stacks in memory, at the addresses the compiler's layout gives them from the base of the
  table; \<open>eax\<close> to \<open>edi\<close> are the registers in the order \<open>pusha\<close> stores them. Assembly
  instructions are the updates they make.
\<close>

datatype thread_state = FREE | TRUNNING | TRUNNABLE

record thread =
  t_sp :: u32
  t_state :: thread_state

record uthreads =
  all_thread_at :: u32 \<comment> \<open>the address of the table\<close>
  all_thread :: "nat \<Rightarrow> thread"
  last_index :: nat
  current_thread :: nat
  next_thread :: "nat option"
  tmem :: mem
  tregs :: "u32 list" \<comment> \<open>eax, ecx, edx, ebx, esp, ebp, esi, edi\<close>
  teip :: u32
  terr :: bytes \<comment> \<open>what was printed on descriptor 2\<close>

definition MAX_THREAD :: nat where "MAX_THREAD = 8"
definition STACK_SIZE :: nat where "STACK_SIZE = 8192"

abbreviation esp :: "uthreads \<Rightarrow> u32" where
  "esp u \<equiv> tregs u ! 4"

text \<open>A \<open>struct thread\<close> takes 4 bytes for \<open>sp\<close>, the stack, and 4 for \<open>state\<close>.\<close>

definition thread_addr :: "uthreads \<Rightarrow> nat \<Rightarrow> u32" where
  "thread_addr u i = all_thread_at u + of_nat ((STACK_SIZE + 8) * i)"

definition thread_stack :: "uthreads \<Rightarrow> nat \<Rightarrow> u32" where
  "thread_stack u i = thread_addr u i + 4"

definition set_tstate :: "nat \<Rightarrow> thread_state \<Rightarrow> uthreads \<Rightarrow> uthreads" where
  "set_tstate i st u = u\<lparr>all_thread := (all_thread u)(i := (all_thread u i)\<lparr>t_state := st\<rparr>)\<rparr>"

definition thread_init :: "uthreads \<Rightarrow> uthreads" where
  "thread_init u = set_tstate 0 TRUNNING (u\<lparr>current_thread := 0\<rparr>)"

section \<open>thread_switch\<close>

fun push_words :: "u32 list \<Rightarrow> u32 \<Rightarrow> mem \<Rightarrow> mem" where
  "push_words [] a m = m"
| "push_words (w # ws) a m = push_words ws (a - 4) (store32 m (a - 4) w)"

definition pusha :: "uthreads \<Rightarrow> uthreads" where
  "pusha u = u\<lparr>tmem := push_words (tregs u) (esp u) (tmem u), tregs := (tregs u)[4 := esp u - 32]\<rparr>"

text \<open>\<open>popa\<close> loads the registers from \<open>edi\<close> up to \<open>eax\<close> and skips the stored \<open>esp\<close>.\<close>

definition popa :: "uthreads \<Rightarrow> uthreads" where
  "popa u = (let a = esp u; r = (\<lambda>i. load32 (tmem u) (a + of_nat (28 - 4 * i))) in
     u\<lparr>tregs := [r 0, r 1, r 2, r 3, a + 32, r 5, r 6, r 7]\<rparr>)"

definition ret_insn :: "uthreads \<Rightarrow> uthreads" where
  "ret_insn u = u\<lparr>teip := load32 (tmem u) (esp u), tregs := (tregs u)[4 := esp u + 4]\<rparr>"

text \<open>The call pushes the address the thread continues at. \<open>next_thread\<close> is not null when
  \<open>thread_schedule\<close> calls.\<close>

definition call_insn :: "u32 \<Rightarrow> uthreads \<Rightarrow> uthreads" where
  "call_insn r u = u\<lparr>tmem := store32 (tmem u) (esp u - 4) r, tregs := (tregs u)[4 := esp u - 4]\<rparr>"

definition thread_switch :: "uthreads \<Rightarrow> uthreads" where
  "thread_switch u =
     (let u = pusha u;
          c = current_thread u; n = the (next_thread u);
          u = u\<lparr>all_thread := (all_thread u)(c := (all_thread u c)\<lparr>t_sp := esp u\<rparr>)\<rparr>;
          u = u\<lparr>tregs := (tregs u)[4 := t_sp (all_thread u n)]\<rparr>;
          u = u\<lparr>current_thread := n\<rparr>;
          u = u\<lparr>next_thread := None\<rparr>
      in ret_insn (popa u))"

section \<open>The scheduler\<close>

definition sched_eligible :: "uthreads \<Rightarrow> nat \<Rightarrow> bool" where
  "sched_eligible u i =
     (let indice = (last_index u + i) mod MAX_THREAD
      in t_state (all_thread u indice) = TRUNNABLE \<and> indice \<noteq> current_thread u)"

text \<open>The loop over \<open>i\<close> of \<open>thread_schedule\<close>: it leaves the index of \<open>t\<close>, the last entry it
  looked at.\<close>

definition sched_search :: "uthreads \<Rightarrow> nat \<times> uthreads" where
  "sched_search u =
     (case find (sched_eligible u) [1..<MAX_THREAD] of
        Some i \<Rightarrow> let indice = (last_index u + i) mod MAX_THREAD
          in (indice, u\<lparr>next_thread := Some indice, last_index := indice\<rparr>)
      | None \<Rightarrow> ((last_index u + (MAX_THREAD - 1)) mod MAX_THREAD, u))"

text \<open>\<open>r\<close> is the return address of the call of \<open>thread_switch\<close>.\<close>

definition thread_schedule :: "u32 \<Rightarrow> uthreads \<Rightarrow> uthreads" where
  "thread_schedule r u =
     (let (t, u) = sched_search (u\<lparr>next_thread := None\<rparr>);
          u = (if MAX_THREAD \<le> t \<and> t_state (all_thread u (current_thread u)) = TRUNNABLE
               then u\<lparr>next_thread := Some (current_thread u)\<rparr> else u);
          u = (if next_thread u = None
               then u\<lparr>terr := terr u @ map of_char ''thread_schedule: no runnable threads\<newline>'',
                  next_thread := Some 0\<rparr>
               else u);
          n = the (next_thread u)
      in if current_thread u \<noteq> n then thread_switch (call_insn r (set_tstate n TRUNNING u))
         else u\<lparr>next_thread := None\<rparr>)"

text \<open>With no free entry the loop of \<open>thread_create\<close> ends one past the table and the rest of the function
  writes there: \<open>None\<close>.\<close>

definition thread_create :: "u32 \<Rightarrow> uthreads \<Rightarrow> uthreads option" where
  "thread_create func u =
     (case find (\<lambda>i. t_state (all_thread u i) = FREE) [0..<MAX_THREAD] of
        None \<Rightarrow> None
      | Some i \<Rightarrow>
          (let sp = thread_stack u i + of_nat STACK_SIZE - 4;
               u = u\<lparr>tmem := store32 (tmem u) sp func\<rparr>
           in Some (u\<lparr>all_thread := (all_thread u)(i := \<lparr>t_sp = sp - 32, t_state = TRUNNABLE\<rparr>)\<rparr>)))"

definition thread_yield :: "u32 \<Rightarrow> uthreads \<Rightarrow> uthreads" where
  "thread_yield r u = thread_schedule r (set_tstate (current_thread u) TRUNNABLE u)"

definition thread_exit :: "u32 \<Rightarrow> uthreads \<Rightarrow> uthreads" where
  "thread_exit r u = thread_schedule r (set_tstate (current_thread u) FREE u)"

definition thread_id :: "uthreads \<Rightarrow> u32" where
  "thread_id u = thread_addr u (current_thread u)"

section \<open>What a switch keeps\<close>

lemma set_tstate_simps [simp]:
  "t_state (all_thread (set_tstate i st u) j) = (if j = i then st else t_state (all_thread u j))"
  "last_index (set_tstate i st u) = last_index u" "current_thread (set_tstate i st u) = current_thread u"
  "next_thread (set_tstate i st u) = next_thread u"
  by (simp_all add: set_tstate_def)

lemma call_insn_simps [simp]:
  "all_thread (call_insn r u) = all_thread u" "last_index (call_insn r u) = last_index u"
  "current_thread (call_insn r u) = current_thread u" "next_thread (call_insn r u) = next_thread u"
  by (simp_all add: call_insn_def)

lemma thread_switch_sched [simp]:
  "t_state (all_thread (thread_switch u) j) = t_state (all_thread u j)"
  "last_index (thread_switch u) = last_index u"
  "current_thread (thread_switch u) = the (next_thread u)"
  by (simp_all add: thread_switch_def pusha_def popa_def ret_insn_def Let_def)

section \<open>Round robin\<close>

text \<open>The invariant of a running system: the current thread is the one the last search stopped at.\<close>

definition sched_ok :: "uthreads \<Rightarrow> bool" where
  "sched_ok u \<longleftrightarrow> current_thread u = last_index u \<and> last_index u < MAX_THREAD"

text \<open>How far a thread is ahead of the last one chosen.\<close>

definition ahead :: "uthreads \<Rightarrow> nat \<Rightarrow> nat" where
  "ahead u t = (t + MAX_THREAD - last_index u) mod MAX_THREAD"

definition waiting :: "nat \<Rightarrow> uthreads \<Rightarrow> bool" where
  "waiting t u \<longleftrightarrow> t < MAX_THREAD \<and> t \<noteq> current_thread u \<and> t_state (all_thread u t) = TRUNNABLE"

lemma find_upt_first:
  assumes "p i" "a \<le> i" "i < b"
  shows "\<exists>j. find p [a..<b] = Some j \<and> p j \<and> a \<le> j \<and> j \<le> i"
proof -
  obtain j where j: "find p [a..<b] = Some j" using assms by (cases "find p [a..<b]") (auto simp: find_None_iff)
  then obtain k where k: "k < b - a" "p (a + k)" "j = a + k" "\<forall>l<k. \<not> p (a + l)"
    by (auto simp: find_Some_iff)
  then have "\<not> i - a < k" using assms(1,2) by (metis le_add_diff_inverse)
  then show ?thesis using j k assms(2) by auto
qed

lemma ahead_eq:
  assumes "last_index u < MAX_THREAD" "t < MAX_THREAD"
  shows "ahead u t = (if last_index u \<le> t then t - last_index u else t + 8 - last_index u)"
proof (cases "last_index u \<le> t")
  case True
  then have "t + 8 - last_index u = (t - last_index u) + 8" by simp
  then show ?thesis using True assms by (simp add: ahead_def MAX_THREAD_def del: add_diff_assoc2)
next
  case False
  then show ?thesis using assms by (simp add: ahead_def MAX_THREAD_def)
qed

lemma mod8_add: "a < 8 \<Longrightarrow> b < 8 \<Longrightarrow> (a + b) mod 8 = (if a + b < 8 then a + b else a + b - (8 :: nat))"
  by (simp add: le_mod_geq)

lemma ahead_add:
  assumes "last_index u < MAX_THREAD" "t < MAX_THREAD" "t \<noteq> last_index u"
  shows "1 \<le> ahead u t" "ahead u t < MAX_THREAD" "(last_index u + ahead u t) mod MAX_THREAD = t"
proof -
  note * = ahead_eq [OF assms(1,2)]
  show "1 \<le> ahead u t" "ahead u t < MAX_THREAD" using assms by (auto simp: * MAX_THREAD_def)
  show "(last_index u + ahead u t) mod MAX_THREAD = t"
    using assms unfolding * by (auto simp: MAX_THREAD_def)
qed

lemma ahead_less:
  assumes "last_index u < MAX_THREAD" "t < MAX_THREAD" "t \<noteq> last_index u" "1 \<le> j" "j < ahead u t"
    and "last_index v = (last_index u + j) mod MAX_THREAD"
  shows "ahead v t < ahead u t"
proof -
  note * = ahead_eq [OF assms(1,2)]
  have v: "last_index v = (if last_index u + j < 8 then last_index u + j else last_index u + j - 8)"
    using assms(6) mod8_add [of "last_index u" j] ahead_add(2) [OF assms(1-3)] assms(1,5)
    by (simp add: MAX_THREAD_def)
  have "last_index v < MAX_THREAD" using assms(6) by (simp add: MAX_THREAD_def)
  from ahead_eq [OF this assms(2)] show ?thesis
    using assms(1-5) v unfolding * MAX_THREAD_def by (simp split: if_splits)
qed

lemma schedule_progress:
  assumes "sched_ok u" "waiting t u"
  shows "sched_ok (thread_schedule r u)
    \<and> (current_thread (thread_schedule r u) = t
       \<or> waiting t (thread_schedule r u) \<and> ahead (thread_schedule r u) t < ahead u t)"
proof -
  let ?u = "u\<lparr>next_thread := None\<rparr>"
  have t: "t < MAX_THREAD" "t \<noteq> last_index u" "last_index u < MAX_THREAD"
    using assms by (auto simp: sched_ok_def waiting_def)
  have "sched_eligible ?u (ahead u t)"
    using assms ahead_add(3) [OF t(3,1,2)] by (simp add: sched_eligible_def waiting_def)
  from find_upt_first [of "sched_eligible ?u", OF this ahead_add(1,2) [OF t(3,1,2)]]
  obtain j where j: "find (sched_eligible ?u) [1..<MAX_THREAD] = Some j" "sched_eligible ?u j"
    "1 \<le> j" "j \<le> ahead u t" by blast
  define ix where "ix = (last_index u + j) mod MAX_THREAD"
  have ix: "ix < MAX_THREAD" "ix \<noteq> current_thread u"
    using j(2) by (auto simp: ix_def sched_eligible_def Let_def MAX_THREAD_def)
  have s: "thread_schedule r u = thread_switch (call_insn r (set_tstate ix TRUNNING
      (u\<lparr>next_thread := Some ix, last_index := ix\<rparr>)))"
    using j(1) ix by (simp add: thread_schedule_def sched_search_def ix_def [symmetric] Let_def)
  show ?thesis
  proof (cases "ix = t")
    case True
    then show ?thesis using s ix by (simp add: sched_ok_def)
  next
    case False
    then have "j \<noteq> ahead u t" using ahead_add(3) [OF t(3,1,2)] by (auto simp: ix_def)
    then have "ahead (thread_schedule r u) t < ahead u t"
      using t j s by (intro ahead_less [of u t j]) (auto simp: ix_def)
    then show ?thesis using s ix False assms by (simp add: sched_ok_def waiting_def)
  qed
qed

text \<open>When the current thread is the only runnable one, the test that should let it go on never holds (the
  search never leaves \<open>t\<close> past the table): the main thread runs instead.\<close>

lemma yield_alone:
  assumes "current_thread u \<noteq> 0" "\<And>i. i \<noteq> current_thread u \<Longrightarrow> t_state (all_thread u i) \<noteq> TRUNNABLE"
  shows "current_thread (thread_yield r u) = 0
    \<and> t_state (all_thread (thread_yield r u) (current_thread u)) = TRUNNABLE"
proof -
  let ?u = "(set_tstate (current_thread u) TRUNNABLE u)\<lparr>next_thread := None\<rparr>"
  have "find (sched_eligible ?u) [1..<MAX_THREAD] = None"
    using assms(2) by (auto simp: find_None_iff sched_eligible_def Let_def)
  then obtain t where s: "sched_search ?u = (t, ?u)" and "t < MAX_THREAD"
    by (simp add: sched_search_def MAX_THREAD_def)
  then show ?thesis using assms(1) unfolding thread_yield_def thread_schedule_def s by (simp add: Let_def)
qed

end
