(* ===== verification/Paging.thy ===== *)
theory Paging
  imports Uio "HOL-Library.Monad_Syntax"
begin

text \<open>
  The paging simulator \<^verbatim>\<open>src/lab-07/sim.c\<close>: 8 frames of main memory, 16 of secondary memory, and a page
  table of 16 entries for each process, under FIFO or LRU replacement. The arrays are functions on their
  index; an index outside an array has no defined result (\<open>None\<close>, \<open>SimUndef\<close>). The local
  arrays of \<open>main\<close> start with arbitrary contents. The counters are integers: they stay far below the
  bounds of \<open>int\<close> for any input of a realistic length. The trace lines that the program prints on the
  way are left out, the tables it prints at the end are modelled.
\<close>

record pagina =
  pg_pid :: int
  pg_indice :: int
  nroEnMemoria :: int
  memoria :: int
  lru_indice :: int

record proceso =
  pr_pid :: int
  pr_paginas :: "nat \<Rightarrow> pagina"
  activo :: int

record sim =
  procesos :: "nat \<Rightarrow> proceso"
  ram :: "nat \<Rightarrow> pagina"
  fifo_index :: nat
  memSecundaria :: "nat \<Rightarrow> pagina"
  lru_index :: int

text \<open>A page is named by the process identifier and the page number, \<open>procesos[pid - 1].paginas[pagina]\<close>.\<close>

datatype page = Page (ppid: nat) (pnum: nat)

definition pte :: "sim \<Rightarrow> page \<Rightarrow> pagina" where
  "pte s x = pr_paginas (procesos s (ppid x - 1)) (pnum x)"

definition set_pte :: "page \<Rightarrow> (pagina \<Rightarrow> pagina) \<Rightarrow> sim \<Rightarrow> sim" where
  "set_pte x f s =
     (let i = ppid x - 1; p = procesos s i in
      s\<lparr>procesos := (procesos s)(i := p\<lparr>pr_paginas := (pr_paginas p)(pnum x := f (pr_paginas p (pnum x)))\<rparr>)\<rparr>)"

text \<open>The entry of the page that a frame describes.\<close>

definition owner :: "pagina \<Rightarrow> page option" where
  "owner q = (if 1 \<le> pg_pid q \<and> pg_pid q \<le> 100 \<and> 0 \<le> pg_indice q \<and> pg_indice q < 16
     then Some (Page (nat (pg_pid q)) (nat (pg_indice q))) else None)"

definition frame :: "nat \<Rightarrow> int \<Rightarrow> nat option" where
  "frame n i = (if 0 \<le> i \<and> i < int n then Some (nat i) else None)"

section \<open>Pages that are already known\<close>

text \<open>The frame with the smallest \<open>lru_indice\<close>, the first one if there are several.\<close>

definition lru_victim :: "(nat \<Rightarrow> pagina) \<Rightarrow> nat" where
  "lru_victim r = fst (fold (\<lambda>i (best, m). if lru_indice (r i) < m then (i, lru_indice (r i)) else (best, m))
     [1..<8] (0, lru_indice (r 0)))"

definition gestionar_lru :: "page \<Rightarrow> sim \<Rightarrow> (nat \<times> sim) option" where
  "gestionar_lru x s =
     (if memoria (pte s x) = 1 then do {
        let s = set_pte x (\<lambda>e. e\<lparr>lru_indice := lru_index s\<rparr>) s;
        j \<leftarrow> frame 8 (nroEnMemoria (pte s x));
        let s = s\<lparr>ram := (ram s)(j := (ram s j)\<lparr>lru_indice := lru_index s\<rparr>)\<rparr>;
        Some (0, s\<lparr>lru_index := lru_index s + 1\<rparr>)
      }
      else if memoria (pte s x) = 2 then do {
        marcoSwap \<leftarrow> frame 16 (nroEnMemoria (pte s x));
        let marcoRam = lru_victim (ram s);
        let paginaEnSwap = memSecundaria s marcoSwap;
        let paginaEnRAM = ram s marcoRam;
        let s = s\<lparr>memSecundaria := (memSecundaria s)(marcoSwap := paginaEnRAM\<lparr>memoria := 2\<rparr>)\<rparr>;
        y \<leftarrow> owner paginaEnRAM;
        let s = set_pte y (\<lambda>e. e\<lparr>nroEnMemoria := int marcoSwap, memoria := 2\<rparr>) s;
        let s = s\<lparr>ram := (ram s)(marcoRam := paginaEnSwap\<lparr>memoria := 1, lru_indice := lru_index s\<rparr>)\<rparr>;
        let s = set_pte x (\<lambda>e. e\<lparr>nroEnMemoria := int marcoRam, memoria := 1, lru_indice := lru_index s\<rparr>) s;
        Some (0, s\<lparr>lru_index := lru_index s + 1\<rparr>)
      }
      else Some (1, s))"

definition gestionar_fifo :: "page \<Rightarrow> sim \<Rightarrow> (nat \<times> sim) option" where
  "gestionar_fifo x s =
     (if memoria (pte s x) = 1 then Some (0, s)
      else if memoria (pte s x) = 2 then do {
        marcoSwap \<leftarrow> frame 16 (nroEnMemoria (pte s x));
        let marcoRam = fifo_index s;
        let paginaEnSwap = memSecundaria s marcoSwap;
        let paginaEnRAM = ram s marcoRam;
        let s = s\<lparr>memSecundaria := (memSecundaria s)(marcoSwap := paginaEnRAM\<lparr>memoria := 2\<rparr>)\<rparr>;
        y \<leftarrow> owner paginaEnRAM;
        let s = set_pte y (\<lambda>e. e\<lparr>nroEnMemoria := int marcoSwap, memoria := 2\<rparr>) s;
        let s = s\<lparr>ram := (ram s)(marcoRam := paginaEnSwap\<lparr>memoria := 1\<rparr>)\<rparr>;
        let s = set_pte x (\<lambda>e. e\<lparr>nroEnMemoria := int marcoRam, memoria := 1\<rparr>) s;
        Some (0, s\<lparr>fifo_index := (fifo_index s + 1) mod 8\<rparr>)
      }
      else Some (1, s))"

definition gestionarProcesoEnMemoria :: "char \<Rightarrow> page \<Rightarrow> sim \<Rightarrow> (nat \<times> sim) option" where
  "gestionarProcesoEnMemoria modo x s =
     (if modo = CHR ''l'' then gestionar_lru x s
      else if modo = CHR ''f'' then gestionar_fifo x s
      else Some (1, s))"

text \<open>False when the program ends because the secondary memory is full.\<close>

definition verificarMemoriaSecundaria :: "sim \<Rightarrow> bool" where
  "verificarMemoriaSecundaria s \<longleftrightarrow> list_ex (\<lambda>i. pg_pid (memSecundaria s i) = -1) [0..<16]"

text \<open>The fields of a page other than \<open>memoria\<close> are set when the process first appears.\<close>

definition inicializarProcesoSiEsNecesario :: "nat \<Rightarrow> sim \<Rightarrow> sim" where
  "inicializarProcesoSiEsNecesario pid s =
     (let p = procesos s (pid - 1) in
      if activo p = -1 then
        s\<lparr>procesos := (procesos s)(pid - 1 := p\<lparr>activo := 1, pr_pid := int pid,
          pr_paginas := (\<lambda>i. if i < 16 then (pr_paginas p i)\<lparr>pg_pid := int pid, nroEnMemoria := -1,
            pg_indice := int i, lru_indice := -1\<rparr> else pr_paginas p i)\<rparr>)\<rparr>
      else s)"

section \<open>The loop of main\<close>

text \<open>A page that is in neither memory goes to the first free frame. The result says whether there was one.\<close>

definition cargar_en_hueco :: "page \<Rightarrow> sim \<Rightarrow> bool \<times> sim" where
  "cargar_en_hueco x s =
     (case find (\<lambda>i. pg_pid (ram s i) = -1) [0..<8] of
        None \<Rightarrow> (False, s)
      | Some i \<Rightarrow>
          (let s = set_pte x (\<lambda>e. e\<lparr>nroEnMemoria := int i, memoria := 1, lru_indice := lru_index s\<rparr>) s;
               s = s\<lparr>lru_index := lru_index s + 1\<rparr>
           in (True, s\<lparr>ram := (ram s)(i := pte s x)\<rparr>)))"

definition reemplazo_fifo :: "page \<Rightarrow> sim \<Rightarrow> sim option" where
  "reemplazo_fifo x s = do {
     let k = fifo_index s;
     s \<leftarrow> (case find (\<lambda>i. pg_pid (memSecundaria s i) = -1) [0..<16] of
        None \<Rightarrow> Some s
      | Some i \<Rightarrow> do {
          let s = set_pte x (\<lambda>e. e\<lparr>nroEnMemoria := int k, memoria := 1, lru_indice := lru_index s\<rparr>) s;
          let s = s\<lparr>lru_index := lru_index s + 1\<rparr>;
          let s = s\<lparr>memSecundaria := (memSecundaria s)(i := (ram s k)\<lparr>memoria := 2\<rparr>)\<rparr>;
          y \<leftarrow> owner (ram s k);
          Some (set_pte y (\<lambda>e. e\<lparr>memoria := 2\<rparr>) s)
        });
     let s = s\<lparr>ram := (ram s)(k := pte s x)\<rparr>;
     Some (s\<lparr>fifo_index := (k + 1) mod 8\<rparr>)
   }"

definition reemplazo_lru :: "page \<Rightarrow> sim \<Rightarrow> sim option" where
  "reemplazo_lru x s = do {
     let k = lru_victim (ram s);
     s \<leftarrow> (case find (\<lambda>i. pg_pid (memSecundaria s i) = -1) [0..<16] of
        None \<Rightarrow> Some s
      | Some i \<Rightarrow> do {
          let s = set_pte x (\<lambda>e. e\<lparr>nroEnMemoria := int k, memoria := 1, lru_indice := lru_index s\<rparr>) s;
          let s = s\<lparr>lru_index := lru_index s + 1\<rparr>;
          let s = s\<lparr>memSecundaria := (memSecundaria s)(i := (ram s k)\<lparr>memoria := 2\<rparr>)\<rparr>;
          y \<leftarrow> owner (ram s k);
          Some (set_pte y (\<lambda>e. e\<lparr>memoria := 2, nroEnMemoria := int i\<rparr>) s)
        });
     Some (s\<lparr>ram := (ram s)(k := pte s x)\<rparr>)
   }"

datatype simres = Sim sim | SimExit | SimUndef

definition of_option :: "sim option \<Rightarrow> simres" where
  "of_option r = (case r of None \<Rightarrow> SimUndef | Some s \<Rightarrow> Sim s)"

text \<open>One iteration. The bounds the program checks are 99 and 15; identifiers below 1 and negative page
  numbers go unchecked and index outside the arrays.\<close>

definition sim_step :: "char \<Rightarrow> int \<times> int \<Rightarrow> sim \<Rightarrow> simres" where
  "sim_step modo req s =
     (case req of (pid, pagina) \<Rightarrow>
      if pid > 99 \<or> pagina > 15 then SimExit
      else if \<not> verificarMemoriaSecundaria s then SimExit
      else if pid < 1 \<or> pagina < 0 then SimUndef
      else
        let x = Page (nat pid) (nat pagina);
            s = inicializarProcesoSiEsNecesario (nat pid) s
        in (case gestionarProcesoEnMemoria modo x s of
              None \<Rightarrow> SimUndef
            | Some (r, s) \<Rightarrow>
                if r \<noteq> 1 then Sim s
                else (case cargar_en_hueco x s of
                        (True, s) \<Rightarrow> Sim s
                      | (False, s) \<Rightarrow>
                          if modo = CHR ''f'' then of_option (reemplazo_fifo x s)
                          else if modo = CHR ''l'' then of_option (reemplazo_lru x s)
                          else Sim s)))"

text \<open>The loop, over the pairs of numbers that \<open>scanf\<close> reads before the end of the input.\<close>

fun sim_run :: "char \<Rightarrow> (int \<times> int) list \<Rightarrow> sim \<Rightarrow> simres" where
  "sim_run modo [] s = Sim s"
| "sim_run modo (q # qs) s = (case sim_step modo q s of Sim s' \<Rightarrow> sim_run modo qs s' | r \<Rightarrow> r)"

text \<open>The start of \<open>main\<close>, over whatever the local arrays hold.\<close>

definition sim_init :: "sim \<Rightarrow> sim" where
  "sim_init g = g\<lparr>procesos := (\<lambda>i. if i < 100 then (procesos g i)\<lparr>activo := -1\<rparr> else procesos g i),
     ram := (\<lambda>i. if i < 8 then (ram g i)\<lparr>pg_pid := -1\<rparr> else ram g i),
     memSecundaria := (\<lambda>i. if i < 16 then (memSecundaria g i)\<lparr>pg_pid := -1\<rparr> else memSecundaria g i),
     fifo_index := 0, lru_index := 0\<rparr>"

section \<open>The final tables\<close>

definition numero :: "int \<Rightarrow> bytes" where
  "numero n = uprintint (of_int n) 10 True"

definition celda_tabla :: "pagina \<Rightarrow> bytes" where
  "celda_tabla q =
     (if nroEnMemoria q = -1 then map of_char ''- ''
      else if memoria q = 1 then map of_char ''r.'' @ numero (nroEnMemoria q) @ [32]
      else if memoria q = 2 then map of_char ''s.'' @ numero (nroEnMemoria q) @ [32]
      else [])"

definition imprimirTablaPaginacion :: "sim \<Rightarrow> bytes" where
  "imprimirTablaPaginacion s =
     [10] @ map of_char ''R indica memoria ram, S indica memoria secundaria. Se va a imprimir con el siguiente formato: memoria en la que esta.marco de la memoria\<newline>''
     @ concat (map (\<lambda>j. let p = procesos s j in
         if activo p = 1 \<and> pr_pid p \<noteq> -1 then
           map of_char ''Proceso '' @ numero (pr_pid p) @ map of_char '': ''
           @ concat (map (\<lambda>k. celda_tabla (pr_paginas p k)) [0..<16]) @ [10]
         else []) [0..<100])
     @ [10]"

definition celda_memoria :: "pagina \<Rightarrow> bytes" where
  "celda_memoria q = (if pg_pid q = -1 then map of_char ''- ''
     else numero (pg_pid q) @ [46] @ numero (pg_indice q) @ [32])"

definition imprimirMemorias :: "sim \<Rightarrow> bytes" where
  "imprimirMemorias s =
     map of_char ''Las memorias se van a imprimir con el siguiente formato: Proceso.Pagina del proceso\<newline>''
     @ map of_char ''Memoria fisica: '' @ concat (map (\<lambda>j. celda_memoria (ram s j)) [0..<8]) @ [10]
     @ map of_char ''Memoria secundaria: '' @ concat (map (\<lambda>j. celda_memoria (memSecundaria s j)) [0..<16]) @ [10]"

definition sim_main :: "char \<Rightarrow> (int \<times> int) list \<Rightarrow> sim \<Rightarrow> bytes option" where
  "sim_main modo reqs g =
     (case sim_run modo reqs (sim_init g) of
        Sim s \<Rightarrow> Some (imprimirTablaPaginacion s @ imprimirMemorias s)
      | _ \<Rightarrow> None)"

end
