(* ===== verification/Paging_Spec.thy ===== *)
theory Paging_Spec
  imports Paging
begin

text \<open>
  Least recently used replacement as it should be, and that the simulator implements it: a list of the
  resident pages in the order of their last use and a set of pages in secondary memory, with the
  simulation relation \<open>lru_rel\<close> to the frames and page tables of the program. The abstract machine in
  turn keeps the most recent eight of the pages used so far.
\<close>

section \<open>The abstract machine\<close>

definition lru_access :: "'a \<Rightarrow> 'a list \<times> 'a set \<Rightarrow> 'a list \<times> 'a set" where
  "lru_access x rw = (case rw of (R, W) \<Rightarrow>
     if x \<in> set R then (x # removeAll x R, W)
     else if length R < 8 then (x # R, W)
     else (x # butlast R, insert (last R) (W - {x})))"

text \<open>The pages used so far, the most recent first.\<close>

definition recent :: "'a list \<Rightarrow> 'a list" where
  "recent xs = fold (\<lambda>x L. x # removeAll x L) xs []"

definition lru_split :: "'a list \<Rightarrow> 'a list \<times> 'a set" where
  "lru_split L = (take 8 L, set (drop 8 L))"

lemma take_touch:
  assumes "distinct L" "x \<in> set (take n L)"
  shows "take n (x # removeAll x L) = x # removeAll x (take n L)"
    and "set (drop n (x # removeAll x L)) = set (drop n L)"
proof -
  have "x \<notin> set (drop n L)" using assms by (metis append_take_drop_id disjoint_iff distinct_append)
  then have L: "removeAll x L = removeAll x (take n L) @ drop n L"
    by (metis append_take_drop_id removeAll_append removeAll_id)
  define A B where "A = removeAll x (take n L)" "B = drop n L"
  have "remove1 x (take n L) = A"
    using assms by (simp add: A_B_def distinct_remove1_removeAll)
  then have "length A = length (take n L) - 1" using assms(2) by (metis length_remove1)
  moreover have "0 < length (take n L)" using assms(2) by (metis length_pos_if_in_set)
  ultimately have n: "n = Suc (length A) \<or> B = [] \<and> Suc (length A) \<le> n" by (auto simp: A_B_def min_def)
  have "take n (x # A @ B) = x # A" "drop n (x # A @ B) = B" using n by auto
  then show "take n (x # removeAll x L) = x # removeAll x (take n L)"
    and "set (drop n (x # removeAll x L)) = set (drop n L)"
    unfolding L A_B_def by simp_all
qed

lemma lru_access_split:
  assumes "distinct L"
  shows "lru_access x (lru_split L) = lru_split (x # removeAll x L)"
proof (cases "x \<in> set (take 8 L)")
  case True
  then show ?thesis using take_touch [OF assms True] by (simp add: lru_access_def lru_split_def)
next
  case False
  show ?thesis
  proof (cases "length L < 8")
    case True
    then show ?thesis using False by (simp add: lru_access_def lru_split_def)
  next
    case long: False
    have x: "removeAll x L = take 8 L @ removeAll x (drop 8 L)"
      using False by (metis append_take_drop_id removeAll_append removeAll_id)
    have b: "butlast (take 8 L) = take 7 L" using long by (simp add: butlast_take)
    have t: "take 8 L = take 7 L @ [L ! 7]" using long take_Suc_conv_app_nth [of 7 L] by simp
    then have l: "last (take 8 L) = L ! 7" by simp
    from t have "drop 7 (removeAll x L) = L ! 7 # removeAll x (drop 8 L)" "take 7 (removeAll x L) = take 7 L"
      using long by (simp_all add: x)
    then show ?thesis using False long b l by (simp add: lru_access_def lru_split_def)
  qed
qed

lemma distinct_recent: "distinct (recent xs)" and set_recent: "set (recent xs) = set xs"
proof -
  have "distinct L \<Longrightarrow> distinct (fold (\<lambda>x L. x # removeAll x L) xs L)
      \<and> set (fold (\<lambda>x L. x # removeAll x L) xs L) = set xs \<union> set L" for L :: "'a list"
    by (induction xs arbitrary: L) (auto simp: distinct_removeAll)
  from this [of "[]"] show "distinct (recent xs)" "set (recent xs) = set xs" by (simp_all add: recent_def)
qed

lemma recent_snoc: "recent (xs @ [x]) = x # removeAll x (recent xs)"
  by (simp add: recent_def)

lemma fold_lru_access: "fold lru_access xs ([], {}) = lru_split (recent xs)"
proof (induction xs rule: rev_induct)
  case Nil
  then show ?case by (simp add: lru_split_def recent_def)
next
  case (snoc x xs)
  then show ?case using lru_access_split [OF distinct_recent] by (simp add: recent_snoc)
qed

section \<open>Page table entries\<close>

definition page_ok :: "page \<Rightarrow> bool" where
  "page_ok x \<longleftrightarrow> 1 \<le> ppid x \<and> ppid x \<le> 99 \<and> pnum x < 16"

lemma pte_set_pte [simp]:
  "page_ok x \<Longrightarrow> page_ok y \<Longrightarrow> pte (set_pte x f s) y = (if y = x then f (pte s x) else pte s y)"
  by (cases x; cases y) (auto simp: pte_def set_pte_def Let_def page_ok_def)

lemma set_pte_simps [simp]:
  "ram (set_pte x f s) = ram s" "memSecundaria (set_pte x f s) = memSecundaria s"
  "lru_index (set_pte x f s) = lru_index s" "fifo_index (set_pte x f s) = fifo_index s"
  "activo (procesos (set_pte x f s) i) = activo (procesos s i)"
  by (auto simp: set_pte_def Let_def)

lemma pte_frames [simp]:
  "pte (s\<lparr>ram := r\<rparr>) x = pte s x" "pte (s\<lparr>memSecundaria := r\<rparr>) x = pte s x"
  "pte (s\<lparr>lru_index := l\<rparr>) x = pte s x" "pte (s\<lparr>fifo_index := k\<rparr>) x = pte s x"
  by (simp_all add: pte_def)

text \<open>A frame holds a page.\<close>

definition holds :: "pagina \<Rightarrow> page \<Rightarrow> bool" where
  "holds q x \<longleftrightarrow> pg_pid q = int (ppid x) \<and> pg_indice q = int (pnum x)"

lemma holds_owner: "holds q x \<Longrightarrow> page_ok x \<Longrightarrow> owner q = Some x"
  by (cases x) (auto simp: holds_def page_ok_def owner_def)

lemma holds_unique: "holds q x \<Longrightarrow> holds q y \<Longrightarrow> x = y"
  by (cases x; cases y) (auto simp: holds_def)

lemma holds_used: "holds q x \<Longrightarrow> pg_pid q \<noteq> -1"
  by (auto simp: holds_def)

lemma holds_upd [simp]:
  "holds (q\<lparr>memoria := m\<rparr>) x = holds q x" "holds (q\<lparr>lru_indice := l\<rparr>) x = holds q x"
  "holds (q\<lparr>nroEnMemoria := n\<rparr>) x = holds q x"
  by (simp_all add: holds_def)

section \<open>The victim\<close>

lemma lru_victim_fold:
  assumes "fold (\<lambda>i (best, m). if lru_indice (r i) < m then (i, lru_indice (r i)) else (best, m)) xs (b, m) = (b', m')"
    and "m = lru_indice (r b)"
  shows "m' = lru_indice (r b') \<and> (b' = b \<or> b' \<in> set xs) \<and> m' \<le> m \<and> (\<forall>i\<in>set xs. m' \<le> lru_indice (r i))"
  using assms
proof (induction xs arbitrary: b m)
  case (Cons x xs)
  show ?case
  proof (cases "lru_indice (r x) < m")
    case True
    then show ?thesis using Cons.prems Cons.IH [of x "lru_indice (r x)"] by auto
  next
    case False
    then show ?thesis using Cons.prems Cons.IH [of b m] by auto
  qed
qed simp

lemma lru_victim_min: "lru_victim r < 8" "i < 8 \<Longrightarrow> lru_indice (r (lru_victim r)) \<le> lru_indice (r i)"
proof -
  obtain b m where f: "fold (\<lambda>i (best, m). if lru_indice (r i) < m then (i, lru_indice (r i)) else (best, m))
      [1..<8] (0, lru_indice (r 0)) = (b, m)" by (rule prod.exhaust)
  note v = lru_victim_fold [OF f refl]
  have b: "lru_victim r = b" unfolding lru_victim_def f by simp
  show "lru_victim r < 8" using v b by (auto simp del: upt_rec_numeral)
  show "lru_indice (r (lru_victim r)) \<le> lru_indice (r i)" if "i < 8"
    using v b that by (cases "i = 0") (auto simp del: upt_rec_numeral)
qed

section \<open>The simulation relation\<close>

definition in_ram :: "sim \<Rightarrow> page \<Rightarrow> nat \<Rightarrow> bool" where
  "in_ram s x j \<longleftrightarrow> j < 8 \<and> memoria (pte s x) = 1 \<and> nroEnMemoria (pte s x) = int j \<and> holds (ram s j) x
     \<and> lru_indice (ram s j) = lru_indice (pte s x)"

definition in_swap :: "sim \<Rightarrow> page \<Rightarrow> nat \<Rightarrow> bool" where
  "in_swap s x j \<longleftrightarrow> j < 16 \<and> memoria (pte s x) = 2 \<and> nroEnMemoria (pte s x) = int j
     \<and> holds (memSecundaria s j) x"

definition started :: "sim \<Rightarrow> page \<Rightarrow> bool" where
  "started s x \<longleftrightarrow> activo (procesos s (ppid x - 1)) \<noteq> -1"

definition lists_ok :: "page list \<Rightarrow> page set \<Rightarrow> bool" where
  "lists_ok R W \<longleftrightarrow> distinct R \<and> length R \<le> 8 \<and> set R \<inter> W = {} \<and> finite W \<and> (W \<noteq> {} \<longrightarrow> length R = 8)
     \<and> (\<forall>x\<in>set R \<union> W. page_ok x)"

definition tables_ok :: "sim \<Rightarrow> page set \<Rightarrow> page set \<Rightarrow> bool" where
  "tables_ok s A W \<longleftrightarrow> (\<forall>x\<in>A. started s x \<and> (\<exists>j. in_ram s x j)) \<and> (\<forall>x\<in>W. started s x \<and> (\<exists>j. in_swap s x j))
     \<and> (\<forall>x. page_ok x \<and> x \<notin> A \<and> x \<notin> W \<longrightarrow> memoria (pte s x) \<noteq> 1 \<and> memoria (pte s x) \<noteq> 2)
     \<and> (\<forall>x. page_ok x \<and> started s x \<longrightarrow> holds (pte s x) x)"

definition frames_ok :: "sim \<Rightarrow> page set \<Rightarrow> page set \<Rightarrow> bool" where
  "frames_ok s A W \<longleftrightarrow> (\<forall>j<8. pg_pid (ram s j) = -1 \<or> (\<exists>x\<in>A. in_ram s x j))
     \<and> (\<forall>j<16. pg_pid (memSecundaria s j) = -1 \<or> (\<exists>x\<in>W. in_swap s x j))"

definition order_ok :: "sim \<Rightarrow> page list \<Rightarrow> bool" where
  "order_ok s R \<longleftrightarrow> sorted_wrt (\<lambda>x y. lru_indice (pte s y) < lru_indice (pte s x)) R
     \<and> (\<forall>x\<in>set R. lru_indice (pte s x) < lru_index s)"

definition lru_rel :: "sim \<Rightarrow> page list \<times> page set \<Rightarrow> bool" where
  "lru_rel s rw = (case rw of (R, W) \<Rightarrow> lists_ok R W \<and> tables_ok s (set R) W \<and> frames_ok s (set R) W \<and> order_ok s R)"

lemma in_ram_inj: "in_ram s x j \<Longrightarrow> in_ram s y j \<Longrightarrow> x = y" "in_ram s x i \<Longrightarrow> in_ram s x j \<Longrightarrow> i = j"
  by (auto simp: in_ram_def dest: holds_unique)

lemma in_swap_inj: "in_swap s x j \<Longrightarrow> in_swap s y j \<Longrightarrow> x = y" "in_swap s x i \<Longrightarrow> in_swap s x j \<Longrightarrow> i = j"
  by (auto simp: in_swap_def dest: holds_unique)

text \<open>A relation that gives each frame below \<open>n\<close> its own page needs \<open>n\<close> pages, and one that gives each of
  \<open>n\<close> pages its own frame uses every frame.\<close>

lemma frame_free:
  assumes "finite A" "card A < n" "\<And>x i j. q x i \<Longrightarrow> q x j \<Longrightarrow> i = j"
  shows "\<exists>j<n. \<not> (\<exists>x\<in>A. q x j)"
proof (rule ccontr)
  assume "\<not> ?thesis"
  then obtain f where f: "\<forall>j<n. f j \<in> A \<and> q (f j) j" by metis
  then have "inj_on f {..<n}" by (metis assms(3) inj_on_def lessThan_iff)
  then have "card {..<n} \<le> card A" using f assms(1) by (intro card_inj_on_le) auto
  then show False using assms(2) by simp
qed

lemma frame_used:
  assumes "card A = n" "finite A" "\<forall>x\<in>A. \<exists>j<n. q x j" "\<And>x y j. q x j \<Longrightarrow> q y j \<Longrightarrow> x = y" "j < n"
  shows "\<exists>x\<in>A. q x j"
proof -
  obtain f where f: "\<forall>x\<in>A. f x < n \<and> q x (f x)" using assms(3) by metis
  then have i: "inj_on f A" by (metis assms(4) inj_on_def)
  have "f ` A \<subseteq> {..<n}" using f by auto
  then have "f ` A = {..<n}" using card_image [OF i] assms(1) by (intro card_subset_eq) auto
  then obtain x where "x \<in> A" "f x = j" using assms(5) by (metis imageE lessThan_iff)
  then show ?thesis using f by auto
qed

lemma ram_hole:
  assumes "lru_rel s (R, W)" "length R < 8"
  obtains j where "find (\<lambda>i. pg_pid (ram s i) = -1) [0..<8] = Some j" "j < 8" "pg_pid (ram s j) = -1"
proof -
  have "card (set R) < 8" using assms(2) card_length [of R] by simp
  from frame_free [of "set R" 8 "in_ram s", OF _ this] obtain i where "i < 8" "\<not> (\<exists>x\<in>set R. in_ram s x i)"
    using in_ram_inj(2) by blast
  then have "pg_pid (ram s i) = -1" using assms(1) by (auto simp: lru_rel_def frames_ok_def)
  then obtain j where j: "find (\<lambda>i. pg_pid (ram s i) = -1) [0..<8] = Some j"
    using \<open>i < 8\<close> by (cases "find (\<lambda>i. pg_pid (ram s i) = -1) [0..<8]") (auto simp: find_None_iff simp del: upt_rec_numeral)
  moreover have "j < 8" "pg_pid (ram s j) = -1" using j by (auto simp: find_Some_iff simp del: upt_rec_numeral)
  ultimately show ?thesis using that by blast
qed

lemma swap_hole:
  assumes "lru_rel s (R, W)" "card W < 16"
  obtains j where "find (\<lambda>i. pg_pid (memSecundaria s i) = -1) [0..<16] = Some j" "j < 16" "pg_pid (memSecundaria s j) = -1"
proof -
  have "finite W" using assms(1) by (auto simp: lru_rel_def lists_ok_def)
  from frame_free [of W 16 "in_swap s", OF this assms(2)] obtain i where "i < 16" "\<not> (\<exists>x\<in>W. in_swap s x i)"
    using in_swap_inj(2) by blast
  then have "pg_pid (memSecundaria s i) = -1" using assms(1) by (auto simp: lru_rel_def frames_ok_def)
  then obtain j where j: "find (\<lambda>i. pg_pid (memSecundaria s i) = -1) [0..<16] = Some j"
    using \<open>i < 16\<close> by (cases "find (\<lambda>i. pg_pid (memSecundaria s i) = -1) [0..<16]")
      (auto simp: find_None_iff simp del: upt_rec_numeral)
  moreover have "j < 16" "pg_pid (memSecundaria s j) = -1" using j by (auto simp: find_Some_iff simp del: upt_rec_numeral)
  ultimately show ?thesis using that by blast
qed

lemma ram_full:
  assumes "lru_rel s (R, W)" "length R = 8" "j < 8"
  shows "\<exists>x\<in>set R. in_ram s x j"
proof (rule frame_used [of "set R" 8])
  show "card (set R) = 8" using assms(1,2) by (simp add: lru_rel_def lists_ok_def distinct_card)
  show "\<forall>x\<in>set R. \<exists>j<8. in_ram s x j"
    using assms(1) by (fastforce simp: lru_rel_def tables_ok_def in_ram_def)
qed (use assms in_ram_inj in auto)

text \<open>The victim is the page at the end of the list.\<close>

lemma victim_last:
  assumes "lru_rel s (R, W)" "length R = 8"
  shows "in_ram s (last R) (lru_victim (ram s))"
proof -
  obtain x where x: "x \<in> set R" "in_ram s x (lru_victim (ram s))"
    using ram_full [OF assms] lru_victim_min(1) by blast
  have R: "R = butlast R @ [last R]" using assms(2) by (metis append_butlast_last_id list.size(3) zero_neq_numeral)
  obtain j where j: "in_ram s (last R) j"
    using assms R by (metis (no_types, lifting) case_prod_conv in_set_conv_decomp lru_rel_def tables_ok_def)
  have "lru_indice (pte s x) \<le> lru_indice (pte s (last R))"
    using lru_victim_min(2) [of j "ram s"] x(2) j by (simp add: in_ram_def)
  moreover have "\<forall>y\<in>set (butlast R). lru_indice (pte s (last R)) < lru_indice (pte s y)"
    using assms(1) R by (auto simp: lru_rel_def order_ok_def) (metis last_in_set list.set_intros(1) sorted_wrt_append)
  ultimately have "x = last R" using x(1) R by (metis Un_iff empty_iff not_less set_append set_ConsD set_empty list.set(1))
  then show ?thesis using x(2) by simp
qed

section \<open>Changes that keep the relation\<close>

text \<open>The order of a page list after a page was put in front.\<close>

lemma order_ok_front:
  assumes "order_ok s R" "\<And>z. z \<in> set R' \<Longrightarrow> z \<in> set R" "sorted_wrt (\<lambda>x y. lru_indice (pte s y) < lru_indice (pte s x)) R'"
    and "\<And>z. z \<in> set R' \<Longrightarrow> lru_indice (pte s' z) = lru_indice (pte s z)"
    and "lru_indice (pte s' x) = lru_index s" "lru_index s' = lru_index s + 1"
  shows "order_ok s' (x # R')"
proof -
  have lt: "lru_indice (pte s' z) < lru_index s" if "z \<in> set R'" for z
    using assms(1,2,4) that by (auto simp: order_ok_def)
  have "sorted_wrt (\<lambda>x y. lru_indice (pte s' y) < lru_indice (pte s' x)) R'"
    by (rule sorted_wrt_mono_rel [OF _ assms(3)]) (simp add: assms(4))
  moreover have "lru_indice (pte s' z) < lru_index s + 1" if "z \<in> set (x # R')" for z
    using that lt [of z] assms(5) by (cases "z = x") auto
  ultimately show ?thesis
    unfolding order_ok_def assms(6) by (simp only: sorted_wrt.simps assms(5)) (use lt in blast)
qed

text \<open>A hit: the page moves to the front.\<close>

lemma lru_rel_hit:
  assumes rel: "lru_rel s (R, W)" and x: "x \<in> set R" "in_ram s x j"
    and pt: "\<And>z. page_ok z \<Longrightarrow> pte s' z = (if z = x then (pte s x)\<lparr>lru_indice := lru_index s\<rparr> else pte s z)"
    and ram: "ram s' = (ram s)(j := (ram s j)\<lparr>lru_indice := lru_index s\<rparr>)"
    and sw: "memSecundaria s' = memSecundaria s" "lru_index s' = lru_index s + 1" "\<And>z. started s' z = started s z"
  shows "lru_rel s' (x # removeAll x R, W)"
proof -
  have ok: "page_ok z" if "z \<in> set R \<union> W" for z using rel that by (auto simp: lru_rel_def lists_ok_def)
  have ir: "in_ram s' z i" if "in_ram s z i" "z \<in> set R" for z i
  proof (cases "z = x")
    case True
    then have "i = j" using that x in_ram_inj(2) by blast
    then show ?thesis using True x ok [of x] by (simp add: in_ram_def pt ram)
  next
    case False
    then have "i \<noteq> j" using that x in_ram_inj(1) by blast
    then show ?thesis using that False ok pt ram by (auto simp: in_ram_def)
  qed
  have isw: "in_swap s' z i \<longleftrightarrow> in_swap s z i" if "z \<in> W" for z i
    using that ok pt sw rel x by (auto simp: in_swap_def lru_rel_def lists_ok_def)
  have pj: "pg_pid (ram s' i) = pg_pid (ram s i)" for i by (simp add: ram)
  have xp: "z \<noteq> x" if "z \<notin> set R" for z using that x by auto
  have h: "holds (pte s' z) z" if "page_ok z" "holds (pte s z) z" for z
    using that pt by (cases "z = x") simp_all
  have tab0: "tables_ok s (set R) W" and fr0: "frames_ok s (set R) W" using rel by (simp_all add: lru_rel_def)
  have tab: "tables_ok s' (set R) W" unfolding tables_ok_def
  proof (intro conjI ballI allI impI)
    show "\<exists>j. in_ram s' z j" if "z \<in> set R" for z using tab0 that ir unfolding tables_ok_def by blast
    show "\<exists>j. in_swap s' z j" if "z \<in> W" for z using tab0 that isw unfolding tables_ok_def by blast
    show "memoria (pte s' z) \<noteq> 1" "memoria (pte s' z) \<noteq> 2" if "page_ok z \<and> z \<notin> set R \<and> z \<notin> W" for z
      using tab0 that pt [of z] xp [of z] unfolding tables_ok_def by auto
    show "holds (pte s' z) z" if "page_ok z \<and> started s' z" for z
      using tab0 that h [of z] sw(3) unfolding tables_ok_def by auto
  qed (use tab0 sw(3) in \<open>auto simp: tables_ok_def\<close>)
  have fr: "frames_ok s' (set R) W"
    unfolding frames_ok_def pj sw(1)
  proof (intro conjI allI impI)
    show "pg_pid (ram s i) = -1 \<or> (\<exists>z\<in>set R. in_ram s' z i)" if "i < 8" for i
      using fr0 ir that unfolding frames_ok_def by meson
    show "pg_pid (memSecundaria s i) = -1 \<or> (\<exists>z\<in>W. in_swap s' z i)" if "i < 16" for i
      using fr0 isw that unfolding frames_ok_def by meson
  qed
  have "sorted_wrt (\<lambda>x y. lru_indice (pte s y) < lru_indice (pte s x)) (removeAll x R)"
    using rel by (simp add: lru_rel_def order_ok_def sorted_wrt_filter removeAll_filter_not_eq)
  moreover have "order_ok s R" using rel by (simp add: lru_rel_def)
  ultimately have "order_ok s' (x # removeAll x R)"
    using pt ok x sw by (intro order_ok_front [of s R]) auto
  moreover have "length (x # removeAll x R) = length R" if "distinct R"
    using distinct_remove1_removeAll [OF that, of x] length_remove1 [of x R] x(1) length_pos_if_in_set [OF x(1)] by simp
  then have "lists_ok (x # removeAll x R) W"
    using rel x by (auto simp: lru_rel_def lists_ok_def distinct_removeAll)
  moreover have "set (x # removeAll x R) = set R" using x by auto
  ultimately show ?thesis using tab fr by (simp only: lru_rel_def prod.case simp_thms)
qed

text \<open>A page goes to a free frame.\<close>

lemma lru_rel_load:
  assumes rel: "lru_rel s (R, W)" and R: "length R < 8" and x: "x \<notin> set R" "page_ok x" "started s x"
    and j: "j < 8" "pg_pid (ram s j) = -1"
    and pt: "\<And>z. page_ok z \<Longrightarrow> pte s' z =
      (if z = x then (pte s x)\<lparr>nroEnMemoria := int j, memoria := 1, lru_indice := lru_index s\<rparr> else pte s z)"
    and ram: "ram s' = (ram s)(j := q)" "holds q x" "lru_indice q = lru_index s"
    and sw: "memSecundaria s' = memSecundaria s" "lru_index s' = lru_index s + 1" "\<And>z. started s' z = started s z"
  shows "lru_rel s' (x # R, W)"
proof -
  have W: "W = {}" using rel R by (auto simp: lru_rel_def lists_ok_def)
  have ok: "page_ok z" if "z \<in> set R" for z using rel that by (auto simp: lru_rel_def lists_ok_def)
  have tab0: "tables_ok s (set R) W" and fr0: "frames_ok s (set R) W" and or0: "order_ok s R"
    using rel by (simp_all add: lru_rel_def)
  have ptx: "pte s' x = (pte s x)\<lparr>nroEnMemoria := int j, memoria := 1, lru_indice := lru_index s\<rparr>" using pt x by simp
  have irx: "in_ram s' x j" using j ram by (simp add: in_ram_def ptx)
  have ir: "in_ram s' z i" if "in_ram s z i" "z \<in> set R" for z i
  proof -
    have "i \<noteq> j" using that j holds_used by (auto simp: in_ram_def)
    moreover have "pte s' z = pte s z" using that x pt ok by auto
    ultimately show ?thesis using that ram by (simp add: in_ram_def)
  qed
  have tab: "tables_ok s' (set (x # R)) W" unfolding tables_ok_def W
  proof (intro conjI ballI allI impI)
    show "started s' z" "\<exists>j. in_ram s' z j" if "z \<in> set (x # R)" for z
      using tab0 that ir irx x sw(3) unfolding tables_ok_def set_simps by blast+
    show "memoria (pte s' z) \<noteq> 1" "memoria (pte s' z) \<noteq> 2" if "page_ok z \<and> z \<notin> set (x # R) \<and> z \<notin> {}" for z
      using tab0 that pt [of z] W unfolding tables_ok_def by auto
    show "holds (pte s' z) z" if "page_ok z \<and> started s' z" for z
      using tab0 that pt [of z] sw(3) unfolding tables_ok_def by (cases "z = x") auto
  qed auto
  have fr: "frames_ok s' (set (x # R)) W" unfolding frames_ok_def W sw(1)
  proof (intro conjI allI impI)
    show "pg_pid (ram s' i) = -1 \<or> (\<exists>z\<in>set (x # R). in_ram s' z i)" if "i < 8" for i
    proof (cases "i = j")
      case True
      then show ?thesis using irx by auto
    next
      case False
      then have "ram s' i = ram s i" using ram(1) by simp
      then show ?thesis using fr0 ir that unfolding frames_ok_def by (metis list.set_intros(2))
    qed
    show "pg_pid (memSecundaria s i) = -1 \<or> (\<exists>z\<in>{}. in_swap s' z i)" if "i < 16" for i
      using fr0 that W unfolding frames_ok_def by auto
  qed
  have "order_ok s' (x # R)"
    by (rule order_ok_front [OF or0]) (use or0 pt ok x sw ptx in \<open>auto simp: order_ok_def\<close>)
  moreover have "lists_ok (x # R) W" using rel R x W by (auto simp: lru_rel_def lists_ok_def)
  ultimately show ?thesis using tab fr by (simp add: lru_rel_def)
qed

text \<open>The page at the end of the list makes room: it goes to the slot \<open>i\<close> of secondary memory, where the new
  page was if it was there.\<close>

lemma lru_rel_replace:
  assumes rel: "lru_rel s (R, W)" and R: "length R = 8" "y = last R" "in_ram s y j"
    and x: "x \<notin> set R" "page_ok x" "started s x"
    and i: "i < 16" "x \<in> W \<Longrightarrow> in_swap s x i" "x \<notin> W \<Longrightarrow> pg_pid (memSecundaria s i) = -1"
    and pt: "\<And>z. page_ok z \<Longrightarrow> pte s' z =
      (if z = x then (pte s x)\<lparr>nroEnMemoria := int j, memoria := 1, lru_indice := lru_index s\<rparr>
       else if z = y then (pte s y)\<lparr>nroEnMemoria := int i, memoria := 2\<rparr> else pte s z)"
    and ram: "ram s' = (ram s)(j := q)" "holds q x" "lru_indice q = lru_index s"
    and sw: "memSecundaria s' = (memSecundaria s)(i := p)" "holds p y"
    and rest: "lru_index s' = lru_index s + 1" "\<And>z. started s' z = started s z"
  shows "lru_rel s' (x # butlast R, insert y (W - {x}))"
proof -
  have tab0: "tables_ok s (set R) W" and fr0: "frames_ok s (set R) W" and or0: "order_ok s R" and li: "lists_ok R W"
    using rel by (simp_all add: lru_rel_def)
  have RR: "R = butlast R @ [y]" using R by (metis append_butlast_last_id list.size(3) zero_neq_numeral)
  then have set_R: "set R = insert y (set (butlast R))" by (metis Un_insert_right list.simps(15) set_append sup_bot.right_neutral list.set(1))
  have y: "y \<in> set R" "y \<notin> set (butlast R)" "y \<noteq> x"
    using RR li x(1) by (metis in_set_conv_decomp, metis distinct_append lists_ok_def not_distinct_conv_prefix RR, metis in_set_conv_decomp)
  have ok: "page_ok z" if "z \<in> set R \<union> W" for z using li that by (auto simp: lists_ok_def)
  have ptx: "pte s' x = (pte s x)\<lparr>nroEnMemoria := int j, memoria := 1, lru_indice := lru_index s\<rparr>" using pt x by simp
  have pty: "pte s' y = (pte s y)\<lparr>nroEnMemoria := int i, memoria := 2\<rparr>" using pt [of y] y ok by simp
  have ptz: "pte s' z = pte s z" if "page_ok z" "z \<noteq> x" "z \<noteq> y" for z using pt that by simp
  have irx: "in_ram s' x j" using ram R(3) by (simp add: in_ram_def ptx)
  have isy: "in_swap s' y i" using sw i(1) by (simp add: in_swap_def pty)
  have ir: "in_ram s' z k" if "in_ram s z k" "z \<in> set (butlast R)" for z k
  proof -
    have "z \<noteq> y" "z \<noteq> x" using that y x set_R by auto
    then have "k \<noteq> j" using that R(3) in_ram_inj(1) by blast
    moreover have "pte s' z = pte s z" using \<open>z \<noteq> y\<close> \<open>z \<noteq> x\<close> that ok [of z] set_R by (intro ptz) auto
    ultimately show ?thesis using that ram by (simp add: in_ram_def)
  qed
  have isw: "in_swap s' z k" if "in_swap s z k" "z \<in> W - {x}" for z k
  proof -
    have "z \<noteq> y" using that y li by (auto simp: lists_ok_def)
    moreover have "k \<noteq> i"
      using that i in_swap_inj(1) [of s z i x] holds_used [of "memSecundaria s i" z] by (auto simp: in_swap_def)
    ultimately show ?thesis using that sw ptz [of z] ok by (auto simp: in_swap_def)
  qed
  have inR: "started s z \<and> (\<exists>j. in_ram s z j)" if "z \<in> set R" for z using tab0 that by (simp add: tables_ok_def)
  have inW: "started s z \<and> (\<exists>j. in_swap s z j)" if "z \<in> W" for z using tab0 that by (simp add: tables_ok_def)
  have tab: "tables_ok s' (set (x # butlast R)) (insert y (W - {x}))" unfolding tables_ok_def
  proof (intro conjI ballI allI impI)
    show "started s' z" if "z \<in> set (x # butlast R)" for z
      using inR [of z] that x(3) set_R unfolding rest(2) by auto
    show "\<exists>j. in_ram s' z j" if "z \<in> set (x # butlast R)" for z
      using inR [of z] that ir [of z] irx set_R by auto
    show "started s' z" if "z \<in> insert y (W - {x})" for z
      using inR [of y] inW [of z] that y(1) unfolding rest(2) by auto
    show "\<exists>j. in_swap s' z j" if "z \<in> insert y (W - {x})" for z
      using inW [of z] that isw [of z] isy by auto
    show "memoria (pte s' z) \<noteq> 1" "memoria (pte s' z) \<noteq> 2"
      if "page_ok z \<and> z \<notin> set (x # butlast R) \<and> z \<notin> insert y (W - {x})" for z
      using tab0 that ptz [of z] set_R unfolding tables_ok_def by auto
    show "holds (pte s' z) z" if "page_ok z \<and> started s' z" for z
      using tab0 that pt [of z] rest(2) unfolding tables_ok_def by (cases "z = x"; cases "z = y") auto
  qed
  have fr: "frames_ok s' (set (x # butlast R)) (insert y (W - {x}))" unfolding frames_ok_def
  proof (intro conjI allI impI)
    show "pg_pid (ram s' k) = -1 \<or> (\<exists>z\<in>set (x # butlast R). in_ram s' z k)" if "k < 8" for k
    proof (cases "k = j")
      case True
      then show ?thesis using irx by auto
    next
      case False
      then have "ram s' k = ram s k" "\<not> in_ram s y k" using ram(1) R(3) in_ram_inj(2) by auto
      then show ?thesis using fr0 ir that set_R unfolding frames_ok_def by (metis insertE list.set_intros(2))
    qed
    show "pg_pid (memSecundaria s' k) = -1 \<or> (\<exists>z\<in>insert y (W - {x}). in_swap s' z k)" if "k < 16" for k
    proof (cases "k = i")
      case True
      then show ?thesis using isy by auto
    next
      case False
      then have "memSecundaria s' k = memSecundaria s k" "x \<in> W \<Longrightarrow> \<not> in_swap s x k"
        using sw(1) i(2) in_swap_inj(2) by auto
      then show ?thesis using fr0 isw that unfolding frames_ok_def by (metis Diff_iff insertI2 singletonD)
    qed
  qed
  have "sorted_wrt (\<lambda>x y. lru_indice (pte s y) < lru_indice (pte s x)) (butlast R)"
    using or0 RR unfolding order_ok_def by (metis sorted_wrt_append)
  then have "order_ok s' (x # butlast R)"
    using or0 set_R ptz y x ok rest(1) ptx by (intro order_ok_front [of s R]) (auto, metis)
  moreover have "lists_ok (x # butlast R) (insert y (W - {x}))"
    using li R x y set_R ok by (auto simp: lists_ok_def distinct_butlast)
  ultimately show ?thesis using tab fr by (simp add: lru_rel_def)
qed

section \<open>The simulator implements the abstract machine\<close>

lemma started_frames [simp]:
  "started (s\<lparr>ram := r\<rparr>) x = started s x" "started (s\<lparr>memSecundaria := r\<rparr>) x = started s x"
  "started (s\<lparr>lru_index := l\<rparr>) x = started s x" "started (set_pte y f s) x = started s x"
  by (simp_all add: started_def)

lemma lru_rel_init:
  assumes "\<And>x. page_ok x \<Longrightarrow> memoria (pte g x) \<noteq> 1 \<and> memoria (pte g x) \<noteq> 2"
  shows "lru_rel (sim_init g) ([], {})"
proof -
  have "memoria (pte (sim_init g) x) = memoria (pte g x)" "\<not> started (sim_init g) x" if "page_ok x" for x
    using that by (auto simp: sim_init_def pte_def started_def page_ok_def)
  moreover have "pg_pid (ram (sim_init g) j) = -1" if "j < 8" for j using that by (simp add: sim_init_def)
  moreover have "pg_pid (memSecundaria (sim_init g) j) = -1" if "j < 16" for j using that by (simp add: sim_init_def)
  ultimately show ?thesis using assms
    by (auto simp: lru_rel_def lists_ok_def tables_ok_def frames_ok_def order_ok_def)
qed

text \<open>The first use of a process sets up its page table.\<close>

lemma inicializar_pte:
  assumes "page_ok x" "page_ok y"
  shows "pte (inicializarProcesoSiEsNecesario (ppid y) s) x =
      (if ppid x = ppid y \<and> \<not> started s x then (pte s x)\<lparr>pg_pid := int (ppid x), nroEnMemoria := -1,
         pg_indice := int (pnum x), lru_indice := -1\<rparr> else pte s x)"
    and "started (inicializarProcesoSiEsNecesario (ppid y) s) x \<longleftrightarrow> started s x \<or> ppid x = ppid y"
  using assms
  by (auto simp: inicializarProcesoSiEsNecesario_def pte_def started_def page_ok_def Let_def)

lemma lru_rel_inicializar:
  assumes rel: "lru_rel s (R, W)" and y: "page_ok y"
  shows "lru_rel (inicializarProcesoSiEsNecesario (ppid y) s) (R, W)"
    and "started (inicializarProcesoSiEsNecesario (ppid y) s) y"
proof -
  let ?s = "inicializarProcesoSiEsNecesario (ppid y) s"
  have f: "ram ?s = ram s" "memSecundaria ?s = memSecundaria s" "lru_index ?s = lru_index s"
    by (simp_all add: inicializarProcesoSiEsNecesario_def Let_def)
  note ini = inicializar_pte [OF _ y]
  note st = ini(2)
  have in_RW: "pte ?s x = pte s x \<and> page_ok x \<and> started s x" if "x \<in> set R \<union> W" for x
    using rel that ini(1) [of x s] by (auto simp: lru_rel_def lists_ok_def tables_ok_def)
  have m: "memoria (pte ?s x) = memoria (pte s x)" if "page_ok x" for x
    using ini(1) [OF that, of s] by simp
  have h: "holds (pte ?s x) x" if "page_ok x" "started ?s x" for x
    using that rel ini(1) [OF that(1), of s] st [OF that(1), of s]
    by (auto simp: lru_rel_def tables_ok_def holds_def split: if_splits)
  have ir: "in_ram ?s x j = in_ram s x j" if "x \<in> set R" for x j
    using in_RW [of x] that f by (simp add: in_ram_def)
  have iw: "in_swap ?s x j = in_swap s x j" if "x \<in> W" for x j
    using in_RW [of x] that f by (simp add: in_swap_def)
  have "tables_ok ?s (set R) W"
    using rel ir iw m h st in_RW by (auto simp: lru_rel_def tables_ok_def)
  moreover have "frames_ok ?s (set R) W"
    using rel ir iw unfolding lru_rel_def frames_ok_def f prod.case by meson
  moreover have "order_ok ?s R"
  proof -
    have "sorted_wrt (\<lambda>x y. lru_indice (pte ?s y) < lru_indice (pte ?s x)) R"
      using rel in_RW by (auto simp: lru_rel_def order_ok_def intro: sorted_wrt_mono_rel [rotated])
    then show ?thesis using rel in_RW f by (auto simp: lru_rel_def order_ok_def)
  qed
  ultimately show "lru_rel ?s (R, W)" using rel by (simp add: lru_rel_def)
  show "started ?s y" using st [OF y, of s] by simp
qed

lemma gestionar_hit:
  assumes "lru_rel s (R, W)" "x \<in> set R"
  shows "\<exists>s'. gestionar_lru x s = Some (0, s') \<and> lru_rel s' (x # removeAll x R, W)"
proof -
  obtain j where j: "in_ram s x j" using assms by (auto simp: lru_rel_def tables_ok_def)
  have ok: "page_ok x" using assms by (auto simp: lru_rel_def lists_ok_def)
  let ?s1 = "set_pte x (\<lambda>e. e\<lparr>lru_indice := lru_index s\<rparr>) s"
  let ?s2 = "?s1\<lparr>ram := (ram ?s1)(j := (ram ?s1 j)\<lparr>lru_indice := lru_index ?s1\<rparr>)\<rparr>"
  have "gestionar_lru x s = Some (0, ?s2\<lparr>lru_index := lru_index ?s2 + 1\<rparr>)"
    using j ok by (simp add: gestionar_lru_def in_ram_def frame_def Let_def)
  moreover have "lru_rel (?s2\<lparr>lru_index := lru_index ?s2 + 1\<rparr>) (x # removeAll x R, W)"
    by (rule lru_rel_hit [OF assms j]) (simp_all add: ok)
  ultimately show ?thesis by blast
qed

lemma gestionar_swap:
  assumes "lru_rel s (R, W)" "x \<in> W"
  shows "\<exists>s'. gestionar_lru x s = Some (0, s') \<and> lru_rel s' (x # butlast R, insert (last R) (W - {x}))"
proof -
  obtain i where i: "in_swap s x i" using assms by (auto simp: lru_rel_def tables_ok_def)
  have R: "length R = 8" "x \<notin> set R" "page_ok x" "started s x"
    using assms by (auto simp: lru_rel_def lists_ok_def tables_ok_def)
  define j where "j = lru_victim (ram s)"
  have j: "in_ram s (last R) j" using victim_last [OF assms(1) R(1)] by (simp add: j_def)
  have y: "page_ok (last R)" "last R \<noteq> x"
    using assms(1) R by (auto simp: lru_rel_def lists_ok_def)
      (metis last_in_set list.size(3) zero_neq_numeral UnI1, metis last_in_set list.size(3) zero_neq_numeral)
  have own: "owner (ram s j) = Some (last R)" using j y by (simp add: in_ram_def holds_owner)
  let ?s1 = "s\<lparr>memSecundaria := (memSecundaria s)(i := (ram s j)\<lparr>memoria := 2\<rparr>)\<rparr>"
  let ?s2 = "set_pte (last R) (\<lambda>e. e\<lparr>nroEnMemoria := int i, memoria := 2\<rparr>) ?s1"
  let ?s3 = "?s2\<lparr>ram := (ram ?s2)(j := (memSecundaria s i)\<lparr>memoria := 1, lru_indice := lru_index ?s2\<rparr>)\<rparr>"
  let ?s4 = "set_pte x (\<lambda>e. e\<lparr>nroEnMemoria := int j, memoria := 1, lru_indice := lru_index ?s3\<rparr>) ?s3"
  have "gestionar_lru x s = Some (0, ?s4\<lparr>lru_index := lru_index ?s4 + 1\<rparr>)"
    using i own by (simp add: gestionar_lru_def in_swap_def frame_def Let_def j_def)
  moreover have "lru_rel (?s4\<lparr>lru_index := lru_index ?s4 + 1\<rparr>) (x # butlast R, insert (last R) (W - {x}))"
    by (rule lru_rel_replace [OF assms(1) R(1) refl j R(2-4), of i])
       (use i j assms(2) y R(3) in \<open>auto simp: in_swap_def in_ram_def\<close>)
  ultimately show ?thesis by blast
qed

lemma gestionar_miss:
  assumes "lru_rel s (R, W)" "x \<notin> set R" "x \<notin> W" "page_ok x"
  shows "gestionar_lru x s = Some (1, s)"
  using assms by (auto simp: lru_rel_def tables_ok_def gestionar_lru_def)

lemma cargar_hole:
  assumes "lru_rel s (R, W)" "length R < 8" "x \<notin> set R" "page_ok x" "started s x"
  shows "\<exists>s'. cargar_en_hueco x s = (True, s') \<and> lru_rel s' (x # R, W)"
proof -
  from ram_hole [OF assms(1,2)] obtain j where
    j: "find (\<lambda>i. pg_pid (ram s i) = -1) [0..<8] = Some j" "j < 8" "pg_pid (ram s j) = -1" .
  let ?f = "\<lambda>e. e\<lparr>nroEnMemoria := int j, memoria := 1, lru_indice := lru_index s\<rparr>"
  let ?s1 = "(set_pte x ?f s)\<lparr>lru_index := lru_index s + 1\<rparr>"
  have "cargar_en_hueco x s = (True, ?s1\<lparr>ram := (ram ?s1)(j := pte ?s1 x)\<rparr>)"
    unfolding cargar_en_hueco_def j(1) by (simp add: Let_def)
  moreover have "holds (pte s x) x" using assms by (simp add: lru_rel_def tables_ok_def)
  then have "lru_rel (?s1\<lparr>ram := (ram ?s1)(j := pte ?s1 x)\<rparr>) (x # R, W)"
    by (intro lru_rel_load [OF assms j(2,3), of _ "pte ?s1 x"]) (simp_all add: assms(4))
  ultimately show ?thesis by blast
qed

lemma cargar_full:
  assumes "lru_rel s (R, W)" "length R = 8"
  shows "cargar_en_hueco x s = (False, s)"
proof -
  have "pg_pid (ram s i) \<noteq> -1" if "i < 8" for i
    using ram_full [OF assms that] by (auto simp: in_ram_def dest: holds_used)
  then have "find (\<lambda>i. pg_pid (ram s i) = -1) [0..<8] = None" by (auto simp: find_None_iff simp del: upt_rec_numeral)
  then show ?thesis unfolding cargar_en_hueco_def by simp
qed

lemma reemplazo_new:
  assumes "lru_rel s (R, W)" "length R = 8" "x \<notin> set R" "x \<notin> W" "page_ok x" "started s x" "card W < 16"
  shows "\<exists>s'. reemplazo_lru x s = Some s' \<and> lru_rel s' (x # butlast R, insert (last R) (W - {x}))"
proof -
  from swap_hole [OF assms(1,7)] obtain i where
    i: "find (\<lambda>i. pg_pid (memSecundaria s i) = -1) [0..<16] = Some i" "i < 16" "pg_pid (memSecundaria s i) = -1" .
  define j where "j = lru_victim (ram s)"
  have j: "in_ram s (last R) j" using victim_last [OF assms(1,2)] by (simp add: j_def)
  have y: "page_ok (last R)" "last R \<noteq> x"
    using assms(1-3) by (auto simp: lru_rel_def lists_ok_def)
      (metis last_in_set list.size(3) zero_neq_numeral UnI1, metis last_in_set list.size(3) zero_neq_numeral)
  have own: "owner (ram s j) = Some (last R)" using j y by (simp add: in_ram_def holds_owner)
  let ?f = "\<lambda>e. e\<lparr>nroEnMemoria := int j, memoria := 1, lru_indice := lru_index s\<rparr>"
  let ?s1 = "(set_pte x ?f s)\<lparr>lru_index := lru_index s + 1\<rparr>"
  let ?s2 = "?s1\<lparr>memSecundaria := (memSecundaria ?s1)(i := (ram ?s1 j)\<lparr>memoria := 2\<rparr>)\<rparr>"
  let ?s3 = "set_pte (last R) (\<lambda>e. e\<lparr>memoria := 2, nroEnMemoria := int i\<rparr>) ?s2"
  have "reemplazo_lru x s = Some (?s3\<lparr>ram := (ram ?s3)(j := pte ?s3 x)\<rparr>)"
    unfolding reemplazo_lru_def i(1) using own by (simp add: Let_def j_def)
  moreover have "holds (pte s x) x" using assms by (simp add: lru_rel_def tables_ok_def)
  then have "lru_rel (?s3\<lparr>ram := (ram ?s3)(j := pte ?s3 x)\<rparr>) (x # butlast R, insert (last R) (W - {x}))"
    by (intro lru_rel_replace [OF assms(1,2) refl j assms(3,5,6) i(2), of _ "pte ?s3 x"])
       (use i(3) j assms(4,5) y in \<open>auto simp: in_ram_def\<close>)
  ultimately show ?thesis by blast
qed

definition req :: "page \<Rightarrow> int \<times> int" where
  "req x = (int (ppid x), int (pnum x))"

lemma sim_step_lru:
  assumes rel: "lru_rel s (R, W)" and x: "page_ok x" and W: "card W < 16"
  shows "\<exists>s'. sim_step CHR ''l'' (req x) s = Sim s' \<and> lru_rel s' (lru_access x (R, W))"
proof -
  let ?s = "inicializarProcesoSiEsNecesario (ppid x) s"
  note ini = lru_rel_inicializar [OF rel x]
  from swap_hole [OF rel W] obtain i where "i < 16" "pg_pid (memSecundaria s i) = -1" .
  then have v: "verificarMemoriaSecundaria s"
    by (auto simp: verificarMemoriaSecundaria_def list_ex_iff simp del: upt_rec_numeral)
  have step: "sim_step CHR ''l'' (req x) s = (case gestionar_lru x ?s of None \<Rightarrow> SimUndef
      | Some (r, s) \<Rightarrow> if r \<noteq> 1 then Sim s
          else (case cargar_en_hueco x s of (True, s) \<Rightarrow> Sim s | (False, s) \<Rightarrow> of_option (reemplazo_lru x s)))"
    using x v by (cases x) (simp add: sim_step_def req_def page_ok_def gestionarProcesoEnMemoria_def Let_def
      split: option.split prod.split bool.split)
  have len: "length R \<le> 8" "W \<noteq> {} \<Longrightarrow> length R = 8" "set R \<inter> W = {}"
    using rel by (auto simp: lru_rel_def lists_ok_def)
  consider "x \<in> set R" | "x \<in> W" | "x \<notin> set R" "x \<notin> W" "length R < 8" | "x \<notin> set R" "x \<notin> W" "length R = 8"
    using len(1) by linarith
  then show ?thesis
  proof cases
    case 1
    then show ?thesis using gestionar_hit [OF ini(1) 1] by (auto simp: step lru_access_def)
  next
    case 2
    then have "x \<notin> set R" "length R = 8" using len by auto
    then show ?thesis using gestionar_swap [OF ini(1) 2] by (auto simp: step lru_access_def)
  next
    case 3
    then show ?thesis using gestionar_miss [OF ini(1) 3(1,2) x] cargar_hole [OF ini(1) 3(3,1) x ini(2)]
      by (auto simp: step lru_access_def)
  next
    case 4
    then show ?thesis
      using gestionar_miss [OF ini(1) 4(1,2) x] cargar_full [OF ini(1) 4(3)] reemplazo_new [OF ini(1) 4(3,1,2) x ini(2) W]
      by (auto simp: step lru_access_def of_option_def)
  qed
qed

lemma sim_run_snoc:
  "sim_run modo (xs @ [x]) s = (case sim_run modo xs s of Sim s' \<Rightarrow> sim_step modo x s' | r \<Rightarrow> r)"
  by (induction xs arbitrary: s) (auto split: simres.splits)

lemma sim_run_lru:
  assumes "lru_rel s ([], {})" "\<forall>x\<in>set xs. page_ok x" "card (set xs) \<le> 23"
  shows "\<exists>s'. sim_run CHR ''l'' (map req xs) s = Sim s' \<and> lru_rel s' (lru_split (recent xs))"
  using assms(2,3)
proof (induction xs rule: rev_induct)
  case Nil
  then show ?case using assms(1) by (simp add: lru_split_def recent_def)
next
  case (snoc x xs)
  have "card (set xs) \<le> card (set (xs @ [x]))" by (rule card_mono) auto
  with snoc obtain s' where s': "sim_run CHR ''l'' (map req xs) s = Sim s'" "lru_rel s' (lru_split (recent xs))" by auto
  have "length (recent xs) = card (set xs)" by (metis distinct_card distinct_recent set_recent)
  then have "card (set (drop 8 (recent xs))) < 16"
    using snoc.prems(2) \<open>card (set xs) \<le> card (set (xs @ [x]))\<close> card_length [of "drop 8 (recent xs)"] by simp
  from sim_step_lru [OF s'(2) [unfolded lru_split_def] _ this] obtain s'' where
    "sim_step CHR ''l'' (req x) s' = Sim s''" "lru_rel s'' (lru_access x (lru_split (recent xs)))"
    using snoc.prems(1) by (auto simp: lru_split_def)
  then show ?case using s'(1) lru_access_split [OF distinct_recent, of x xs]
    by (simp add: sim_run_snoc recent_snoc)
qed

lemma lru_rel_pages:
  assumes "lru_rel s (R, W)"
  shows "{x. page_ok x \<and> (\<exists>j. in_ram s x j)} = set R" "{x. page_ok x \<and> (\<exists>j. in_swap s x j)} = W"
proof -
  have a: "\<exists>j. in_ram s x j" if "x \<in> set R" for x using assms that by (simp add: lru_rel_def tables_ok_def)
  have b: "\<exists>j. in_swap s x j" if "x \<in> W" for x using assms that by (simp add: lru_rel_def tables_ok_def)
  have c: "memoria (pte s x) \<noteq> 1 \<and> memoria (pte s x) \<noteq> 2" if "page_ok x" "x \<notin> set R" "x \<notin> W" for x
    using assms that by (simp add: lru_rel_def tables_ok_def)
  have ok: "page_ok x" if "x \<in> set R \<union> W" for x using assms that by (auto simp: lru_rel_def lists_ok_def)
  have m: "in_ram s x j \<Longrightarrow> memoria (pte s x) = 1" "in_swap s x j \<Longrightarrow> memoria (pte s x) = 2" for x j
    by (simp_all add: in_ram_def in_swap_def)
  have "x \<in> set R" if "page_ok x" "in_ram s x j" for x j
    using b [of x] c [OF that(1)] m [of x] that(2) by fastforce
  then show "{x. page_ok x \<and> (\<exists>j. in_ram s x j)} = set R" using a ok by blast
  have "x \<in> W" if "page_ok x" "in_swap s x j" for x j
    using a [of x] c [OF that(1)] m [of x] that(2) by fastforce
  then show "{x. page_ok x \<and> (\<exists>j. in_swap s x j)} = W" using b ok by blast
qed

section \<open>FIFO loses pages\<close>

text \<open>When FIFO replacement moves a page to secondary memory it does not record the frame there in the page
  table. After the pages 0 to 8, 0 and 9 of one process, page 2 is in frame 1 of secondary memory, while its
  table entry still has the number 2 of the frame of main memory it was in; frame 2 of secondary memory
  is empty.\<close>

definition zero_sim :: sim where
  "zero_sim = (let q = \<lparr>pg_pid = 0, pg_indice = 0, nroEnMemoria = 0, memoria = 0, lru_indice = 0\<rparr> in
     \<lparr>procesos = (\<lambda>_. \<lparr>pr_pid = 0, pr_paginas = (\<lambda>_. q), activo = 0\<rparr>), ram = (\<lambda>_. q), fifo_index = 0,
      memSecundaria = (\<lambda>_. q), lru_index = 0\<rparr>)"

lemma fifo_wrong_frame:
  "case sim_run CHR ''f'' (map (\<lambda>k. (1, k)) [0, 1, 2, 3, 4, 5, 6, 7, 8, 0, 9]) (sim_init zero_sim) of
     Sim s \<Rightarrow> memoria (pte s (Page 1 2)) = 2 \<and> nroEnMemoria (pte s (Page 1 2)) = 2
       \<and> pg_pid (memSecundaria s 1) = 1 \<and> pg_indice (memSecundaria s 1) = 2 \<and> pg_pid (memSecundaria s 2) = -1
   | _ \<Rightarrow> False"
  by code_simp

end
