(* ===== verification/Shell.thy ===== *)
theory Shell
  imports Uio
begin

text \<open>
  The shell \<^verbatim>\<open>src/xv6/sh.c\<close>. A pointer into the line buffer is an offset: \<open>es\<close> is the length of the
  line, the bytes before the NUL. The recursive descent parser calls itself through \<open>parseblock\<close>; its
  first argument bounds the nesting, and the length of the line is enough, as every call consumes a
  symbol first. A call of \<open>panic\<close> ends the child process: \<open>PErr\<close> with its message. The program never
  tests the result of \<open>malloc\<close>, and allocation is taken to succeed.
\<close>

section \<open>Tokens\<close>

definition whitespace :: bytes where "whitespace = [32, 9, 13, 10, 11]"
definition symbols :: bytes where "symbols = [60, 124, 62, 38, 59, 40, 41]"
definition MAXARGS :: nat where "MAXARGS = 10"

text \<open>The byte at an offset: the NUL at the end of the line.\<close>

definition byte_at :: "bytes \<Rightarrow> nat \<Rightarrow> u8" where
  "byte_at line s = (if s < length line then line ! s else 0)"

function skip_while :: "(u8 \<Rightarrow> bool) \<Rightarrow> bytes \<Rightarrow> nat \<Rightarrow> nat" where
  "skip_while p line s = (if s < length line \<and> p (line ! s) then skip_while p line (s + 1) else s)"
  by pat_completeness auto
termination by (relation "measure (\<lambda>(p, line, s). length line - s)") auto

declare skip_while.simps [simp del]

abbreviation skip_ws :: "bytes \<Rightarrow> nat \<Rightarrow> nat" where
  "skip_ws \<equiv> skip_while (\<lambda>b. b \<in> set whitespace)"

definition word_byte :: "u8 \<Rightarrow> bool" where
  "word_byte b \<longleftrightarrow> b \<notin> set whitespace \<and> b \<notin> set symbols"

text \<open>The token, \<open>*q\<close>, \<open>*eq\<close> and the new \<open>*ps\<close>. A word is \<open>a\<close> (97), \<open>>>\<close> is \<open>+\<close> (43).\<close>

definition gettoken :: "bytes \<Rightarrow> nat \<Rightarrow> u8 \<times> nat \<times> nat \<times> nat" where
  "gettoken line s =
     (let q = skip_ws line s; c = byte_at line q;
          (ret, e) = (if c = 0 then (0, q)
             else if c \<in> {124, 40, 41, 59, 38, 60} then (c, q + 1)
             else if c = 62 then (if byte_at line (q + 1) = 62 then (43, q + 2) else (62, q + 1))
             else (97, skip_while word_byte line q))
      in (ret, q, e, skip_ws line e))"

definition peek :: "bytes \<Rightarrow> nat \<Rightarrow> bytes \<Rightarrow> nat \<times> bool" where
  "peek line s toks = (let s = skip_ws line s in (s, byte_at line s \<noteq> 0 \<and> byte_at line s \<in> set toks))"

lemma skip_while_ge: "s \<le> skip_while p line s"
proof (induction p line s rule: skip_while.induct)
  case (1 p line s)
  then show ?case by (subst skip_while.simps) (auto dest: Suc_leD)
qed

lemma skip_while_le: "s \<le> length line \<Longrightarrow> skip_while p line s \<le> length line"
proof (induction p line s rule: skip_while.induct)
  case (1 p line s)
  then show ?case by (subst skip_while.simps) auto
qed

lemma skip_while_all: "s \<le> i \<Longrightarrow> i < skip_while p line s \<Longrightarrow> i < length line \<and> p (line ! i)"
proof (induction p line s rule: skip_while.induct)
  case (1 p line s)
  show ?case
  proof (cases "s < length line \<and> p (line ! s)")
    case True
    then have "skip_while p line s = skip_while p line (s + 1)" by (subst skip_while.simps) simp
    then show ?thesis using 1 True by (cases "s = i") auto
  next
    case False
    then have "skip_while p line s = s" by (subst skip_while.simps) auto
    then show ?thesis using 1 by simp
  qed
qed

lemma skip_while_stop: "skip_while p line s < length line \<Longrightarrow> \<not> p (line ! skip_while p line s)"
proof (induction p line s rule: skip_while.induct)
  case (1 p line s)
  show ?case
  proof (cases "s < length line \<and> p (line ! s)")
    case True
    then have "skip_while p line s = skip_while p line (s + 1)" by (subst skip_while.simps) simp
    then show ?thesis using 1 True by simp
  next
    case False
    then have "skip_while p line s = s" by (subst skip_while.simps) auto
    then show ?thesis using 1 False by simp
  qed
qed

text \<open>A token ends after its start, and the scan never leaves the line.\<close>

lemma gettoken_bounds:
  assumes "gettoken line s = (ret, q, e, s')"
  shows "s \<le> q" "q \<le> e" "e \<le> s'" "s \<le> length line \<Longrightarrow> s' \<le> length line"
    and "ret \<noteq> 0 \<Longrightarrow> q < e" "ret \<noteq> 0 \<Longrightarrow> s < s'"
proof -
  have q: "q = skip_ws line s" and s': "s' = skip_ws line e"
    using assms by (auto simp: gettoken_def Let_def split: prod.splits)
  show sq: "s \<le> q" using skip_while_ge q by simp
  show es: "e \<le> s'" using skip_while_ge s' by simp
  have c: "byte_at line q = 0 \<and> ret = 0 \<and> e = q \<or> byte_at line q \<noteq> 0 \<and> (e = q + 1 \<or>
      (byte_at line q = 62 \<and> byte_at line (q + 1) = 62 \<and> e = q + 2)
      \<or> (word_byte (byte_at line q) \<and> e = skip_while word_byte line q))"
    using assms q by (auto simp: gettoken_def Let_def word_byte_def symbols_def byte_at_def split: prod.splits if_splits
        dest: skip_while_stop)
  have w: "q < skip_while word_byte line q" if "word_byte (byte_at line q)" "byte_at line q \<noteq> 0"
  proof -
    have "skip_while word_byte line q = skip_while word_byte line (q + 1)"
      using that by (subst skip_while.simps) (auto simp: byte_at_def split: if_splits)
    then show ?thesis using skip_while_ge [of "q + 1" word_byte line] by simp
  qed
  show "q \<le> e" using c w by auto
  show "q < e" if "ret \<noteq> 0" using c w that by auto
  then show "s < s'" if "ret \<noteq> 0" using that sq es by simp
  show "s' \<le> length line" if "s \<le> length line"
  proof -
    have "q \<le> length line" using that q skip_while_le by simp
    then have "e \<le> length line" using c skip_while_le [of q line word_byte]
      by (auto simp: byte_at_def split: if_splits)
    then show ?thesis using s' skip_while_le by simp
  qed
qed

lemma gettoken_zero: "gettoken line s = (0, q, e, s') \<Longrightarrow> byte_at line (skip_ws line s) = 0"
  by (auto simp: gettoken_def Let_def split: prod.splits if_splits)

lemma peek_bounds:
  assumes "peek line s toks = (s', b)"
  shows "s \<le> s'" "s \<le> length line \<Longrightarrow> s' \<le> length line" "b \<Longrightarrow> s' < length line" "b \<Longrightarrow> skip_ws line s' = s'"
    "b \<Longrightarrow> byte_at line s' \<noteq> 0" "s' = skip_ws line s"
proof -
  show s': "s' = skip_ws line s" using assms by (simp add: peek_def Let_def)
  show "s \<le> s'" "s \<le> length line \<Longrightarrow> s' \<le> length line" using s' skip_while_ge skip_while_le by simp_all
  show "b \<Longrightarrow> byte_at line s' \<noteq> 0" using assms by (auto simp: peek_def Let_def)
  then show "b \<Longrightarrow> s' < length line" by (auto simp: byte_at_def split: if_splits)
  then show "b \<Longrightarrow> skip_ws line s' = s'"
    using skip_while_stop [of _ line s] s' by (subst skip_while.simps) auto
qed

text \<open>A symbol that \<open>peek\<close> has seen is a token.\<close>

lemma peek_gettoken:
  assumes "peek line s toks = (s1, True)" "gettoken line s1 = (ret, q, e, s2)"
  shows "s1 < s2"
  using gettoken_bounds(6) [OF assms(2)] gettoken_zero [of line s1 q e s2] assms peek_bounds [OF assms(1)]
  by (cases "ret = 0") auto

section \<open>Commands\<close>

text \<open>The strings of a command are pairs of offsets, \<open>argv[i]\<close> with \<open>eargv[i]\<close> and \<open>file\<close> with \<open>efile\<close>. The
  modes are the flags of \<^verbatim>\<open>src/xv6/fcntl.h\<close>.\<close>

type_synonym span = "nat \<times> nat"

datatype cmd =
    EXEC "span list"
  | REDIR cmd span nat nat \<comment> \<open>the command, the file, the mode and the descriptor\<close>
  | PIPE cmd cmd
  | LIST cmd cmd
  | BACK cmd

definition sh_O_RDONLY :: nat where "sh_O_RDONLY = 0"
definition sh_O_WRONLY :: nat where "sh_O_WRONLY = 1"
definition sh_O_CREATE :: nat where "sh_O_CREATE = 0x200"

datatype 'a presult = POk 'a | PErr string | PFuel

text \<open>A pending redirection: the file, the mode and the descriptor.\<close>

type_synonym redir = "span \<times> nat \<times> nat"

fun redircmd :: "cmd \<Rightarrow> redir \<Rightarrow> cmd" where
  "redircmd c (f, mode, fd) = REDIR c f mode fd"

text \<open>
  \<open>parseredirs\<close> wraps the command in one \<open>REDIR\<close> node per redirection. In \<open>parseexec\<close> the wrapped
  \<open>EXEC\<close> node goes on receiving arguments afterwards, so the redirections are collected, first one
  innermost, and the nodes built at the end.
\<close>

lemma redirs_decrease:
  assumes "(s1, True) = peek line s toks" "(tok, a, b, s2) = gettoken line s1" "(t, q, e, s3) = gettoken line s2"
  shows "length line - s3 < length line - s"
  using peek_gettoken [OF assms(1,2) [symmetric]] gettoken_bounds(1-3) [OF assms(3) [symmetric]]
    peek_bounds [OF assms(1) [symmetric]] by auto

function parseredirs :: "bytes \<Rightarrow> redir list \<Rightarrow> nat \<Rightarrow> (redir list \<times> nat) presult" where
  "parseredirs line rs s =
     (case peek line s [60, 62] of (s, b) \<Rightarrow>
      if \<not> b then POk (rs, s)
      else (case gettoken line s of (tok, _, _, s) \<Rightarrow>
        (case gettoken line s of (t, q, e, s) \<Rightarrow>
         if t \<noteq> 97 then PErr ''missing file for redirection''
         else if tok = 60 then parseredirs line (rs @ [((q, e), sh_O_RDONLY, 0)]) s
         else if tok = 62 then parseredirs line (rs @ [((q, e), sh_O_WRONLY + sh_O_CREATE, 1)]) s
         else if tok = 43 then parseredirs line (rs @ [((q, e), sh_O_WRONLY + sh_O_CREATE, 1)]) s
         else parseredirs line rs s)))"
  by pat_completeness auto
termination
  by (relation "measure (\<lambda>(line, rs, s). length line - s)") (auto dest: redirs_decrease)

declare parseredirs.simps [simp del]

lemma parseredirs_cases:
  assumes "parseredirs line rs s = POk (rs', s')"
  obtains (stop) "peek line s [60, 62] = (s', False)" "rs' = rs"
  | (more) s1 tok q1 e1 s2 q e s3 r where "peek line s [60, 62] = (s1, True)"
      "gettoken line s1 = (tok, q1, e1, s2)" "gettoken line s2 = (97, q, e, s3)"
      "parseredirs line (rs @ r) s3 = POk (rs', s')" "r = [] \<or> (\<exists>m. r = [((q, e), m)])"
proof -
  obtain s1 b where p: "peek line s [60, 62] = (s1, b)" by (cases "peek line s [60, 62]")
  obtain tok q1 e1 s2 where g1: "gettoken line s1 = (tok, q1, e1, s2)" by (cases "gettoken line s1")
  obtain t q e s3 where g2: "gettoken line s2 = (t, q, e, s3)" by (cases "gettoken line s2")
  show ?thesis
  proof (cases b)
    case False
    then show ?thesis using assms p stop by (subst (asm) parseredirs.simps) simp
  next
    case True
    have t: "t = 97" using assms p g1 g2 True by (subst (asm) parseredirs.simps) (simp split: if_splits)
    have u: "parseredirs line rs s = parseredirs line (if tok = 60 then rs @ [((q, e), sh_O_RDONLY, 0)]
        else if tok = 62 \<or> tok = 43 then rs @ [((q, e), sh_O_WRONLY + sh_O_CREATE, 1)] else rs) s3"
      using p g1 g2 True t by (subst parseredirs.simps) simp
    define r :: "redir list" where "r = (if tok = 60 then [((q, e), sh_O_RDONLY, 0)]
        else if tok = 62 \<or> tok = 43 then [((q, e), sh_O_WRONLY + sh_O_CREATE, 1)] else [])"
    have "parseredirs line (rs @ r) s3 = POk (rs', s')" using u assms by (simp add: r_def)
    moreover have "r = [] \<or> (\<exists>m. r = [((q, e), m)])" by (simp add: r_def)
    ultimately show ?thesis using more [of s1 tok q1 e1 s2 q e s3 r] p g1 g2 True t by simp
  qed
qed

lemma parseredirs_no_fuel: "parseredirs line rs s \<noteq> PFuel"
proof (induction line rs s rule: parseredirs.induct)
  case (1 line rs s)
  then show ?case by (subst parseredirs.simps) (auto split: prod.splits if_splits)
qed

text \<open>A string is a nonempty run of bytes that are neither white space nor symbols, and ends where the run ends.\<close>

definition span_ok :: "bytes \<Rightarrow> span \<Rightarrow> bool" where
  "span_ok line x = (case x of (q, e) \<Rightarrow> q < e \<and> e \<le> length line \<and> list_all word_byte (take (e - q) (drop q line))
     \<and> \<not> (e < length line \<and> word_byte (line ! e)))"

lemma gettoken_word:
  assumes "gettoken line s = (97, q, e, s')" "s \<le> length line"
  shows "span_ok line (q, e)"
proof -
  have q: "q = skip_ws line s" using assms by (auto simp: gettoken_def Let_def split: prod.splits)
  have c: "byte_at line q \<noteq> 0" "e = skip_while word_byte line q"
    using assms q by (auto simp: gettoken_def Let_def split: prod.splits if_splits)
  note b = gettoken_bounds [OF assms(1)]
  have "word_byte (line ! i)" if "q \<le> i" "i < e" for i using skip_while_all that c by blast
  then have "list_all word_byte (take (e - q) (drop q line))" by (auto simp: list_all_length)
  moreover have "e \<le> length line" using b(3) b(4) [OF assms(2)] by simp
  ultimately show ?thesis using b(5) c(2) skip_while_stop [of word_byte line q] by (simp add: span_ok_def)
qed

text \<open>Positions only move forward and stay in the line, and the strings of the result are words of it.\<close>

lemma parseredirs_ok:
  "parseredirs line rs s = POk (rs', s') \<Longrightarrow> s \<le> length line \<Longrightarrow> list_all (span_ok line) (map fst rs)
   \<Longrightarrow> s \<le> s' \<and> s' \<le> length line \<and> list_all (span_ok line) (map fst rs')"
proof (induction "length line - s" arbitrary: rs s rule: less_induct)
  case less
  from less.prems(1) show ?case
  proof (cases rule: parseredirs_cases)
    case stop
    then show ?thesis using less.prems peek_bounds(1,2) by simp
  next
    case (more s1 tok q1 e1 s2 q e s3 r)
    have d: "length line - s3 < length line - s" using redirs_decrease more(1-3) by metis
    have s2: "s2 \<le> length line" "s3 \<le> length line"
      using more peek_bounds(2) gettoken_bounds(4) less.prems(2) by metis+
    have "list_all (span_ok line) (map fst (rs @ r))"
      using more(5) gettoken_word [OF more(3) s2(1)] less.prems(3) by auto
    from less.hyps [OF d more(4) s2(2) this] show ?thesis using d by auto
  qed
qed

section \<open>Recursive descent\<close>

text \<open>The argument loop of \<open>parseexec\<close>.\<close>

function parse_args :: "bytes \<Rightarrow> span list \<Rightarrow> redir list \<Rightarrow> nat \<Rightarrow> (span list \<times> redir list \<times> nat) presult" where
  "parse_args line args rs s =
     (case peek line s [124, 41, 38, 59] of (s, b) \<Rightarrow>
      if b then POk (args, rs, s)
      else (case gettoken line s of (tok, q, e, s) \<Rightarrow>
        if tok = 0 then POk (args, rs, s)
        else if tok \<noteq> 97 then PErr ''syntax''
        else if length (args @ [(q, e)]) \<ge> MAXARGS then PErr ''too many args''
        else (case parseredirs line rs s of
            POk (rs, s) \<Rightarrow> parse_args line (args @ [(q, e)]) rs s
          | PErr m \<Rightarrow> PErr m
          | PFuel \<Rightarrow> PFuel)))"
  by pat_completeness auto
termination
  by (relation "measure (\<lambda>(line, args, rs, s). MAXARGS - length args)") (auto simp: MAXARGS_def)

declare parse_args.simps [simp del]

definition parseblock :: "(bytes \<Rightarrow> nat \<Rightarrow> (cmd \<times> nat) presult) \<Rightarrow> bytes \<Rightarrow> nat \<Rightarrow> (cmd \<times> nat) presult" where
  "parseblock pl line s =
     (case peek line s [40] of (s, b) \<Rightarrow>
      if \<not> b then PErr ''parseblock''
      else (case gettoken line s of (_, _, _, s) \<Rightarrow>
        (case pl line s of
           POk (cmd, s) \<Rightarrow>
             (case peek line s [41] of (s, b) \<Rightarrow>
              if \<not> b then PErr ''syntax - missing )''
              else (case gettoken line s of (_, _, _, s) \<Rightarrow>
                (case parseredirs line [] s of
                   POk (rs, s) \<Rightarrow> POk (foldl redircmd cmd rs, s)
                 | PErr m \<Rightarrow> PErr m
                 | PFuel \<Rightarrow> PFuel)))
         | PErr m \<Rightarrow> PErr m
         | PFuel \<Rightarrow> PFuel)))"

definition parseexec :: "(bytes \<Rightarrow> nat \<Rightarrow> (cmd \<times> nat) presult) \<Rightarrow> bytes \<Rightarrow> nat \<Rightarrow> (cmd \<times> nat) presult" where
  "parseexec pl line s =
     (case peek line s [40] of (s, b) \<Rightarrow>
      if b then parseblock pl line s
      else (case parseredirs line [] s of
          POk (rs, s) \<Rightarrow>
            (case parse_args line [] rs s of
               POk (args, rs, s) \<Rightarrow> POk (foldl redircmd (EXEC args) rs, s)
             | PErr m \<Rightarrow> PErr m
             | PFuel \<Rightarrow> PFuel)
        | PErr m \<Rightarrow> PErr m
        | PFuel \<Rightarrow> PFuel))"

fun parsepipe :: "(bytes \<Rightarrow> nat \<Rightarrow> (cmd \<times> nat) presult) \<Rightarrow> nat \<Rightarrow> bytes \<Rightarrow> nat \<Rightarrow> (cmd \<times> nat) presult" where
  "parsepipe pl 0 line s = PFuel"
| "parsepipe pl (Suc n) line s =
     (case parseexec pl line s of
        POk (cmd, s) \<Rightarrow>
          (case peek line s [124] of (s, b) \<Rightarrow>
           if \<not> b then POk (cmd, s)
           else (case gettoken line s of (_, _, _, s) \<Rightarrow>
             (case parsepipe pl n line s of
                POk (c, s) \<Rightarrow> POk (PIPE cmd c, s)
              | PErr m \<Rightarrow> PErr m
              | PFuel \<Rightarrow> PFuel)))
      | PErr m \<Rightarrow> PErr m
      | PFuel \<Rightarrow> PFuel)"

text \<open>The loop of \<open>parseline\<close> over \<open>&\<close>.\<close>

lemma backs_decrease:
  assumes "(s1, True) = peek line s toks" "(tok, a, b, s2) = gettoken line s1"
  shows "length line - s2 < length line - s"
  using peek_gettoken [OF assms [symmetric]] peek_bounds [OF assms(1) [symmetric]] by auto

function parse_backs :: "bytes \<Rightarrow> cmd \<Rightarrow> nat \<Rightarrow> cmd \<times> nat" where
  "parse_backs line cmd s =
     (case peek line s [38] of (s, b) \<Rightarrow>
      if \<not> b then (cmd, s)
      else (case gettoken line s of (_, _, _, s) \<Rightarrow> parse_backs line (BACK cmd) s))"
  by pat_completeness auto
termination
  by (relation "measure (\<lambda>(line, cmd, s). length line - s)") (auto dest: backs_decrease)

declare parse_backs.simps [simp del]

fun parseline :: "nat \<Rightarrow> bytes \<Rightarrow> nat \<Rightarrow> (cmd \<times> nat) presult" where
  "parseline 0 line s = PFuel"
| "parseline (Suc n) line s =
     (case parsepipe (parseline n) (Suc n) line s of
        POk (cmd, s) \<Rightarrow>
          (case parse_backs line cmd s of (cmd, s) \<Rightarrow>
          (case peek line s [59] of (s, b) \<Rightarrow>
           if \<not> b then POk (cmd, s)
           else (case gettoken line s of (_, _, _, s) \<Rightarrow>
             (case parseline n line s of
                POk (c, s) \<Rightarrow> POk (LIST cmd c, s)
              | PErr m \<Rightarrow> PErr m
              | PFuel \<Rightarrow> PFuel))))
      | PErr m \<Rightarrow> PErr m
      | PFuel \<Rightarrow> PFuel)"

text \<open>The NUL bytes that \<open>nulterminate\<close> writes into the line buffer.\<close>

fun nulterminate :: "cmd \<Rightarrow> bytes \<Rightarrow> bytes" where
  "nulterminate (EXEC args) buf = foldl (\<lambda>b (q, e). b[e := 0]) buf args"
| "nulterminate (REDIR c (q, e) mode fd) buf = (nulterminate c buf)[e := 0]"
| "nulterminate (PIPE l r) buf = nulterminate r (nulterminate l buf)"
| "nulterminate (LIST l r) buf = nulterminate r (nulterminate l buf)"
| "nulterminate (BACK c) buf = nulterminate c buf"

definition parsecmd :: "bytes \<Rightarrow> (cmd \<times> bytes) presult" where
  "parsecmd line =
     (case parseline (Suc (length line)) line 0 of
        POk (cmd, s) \<Rightarrow>
          (case peek line s [] of (s, _) \<Rightarrow>
           if s \<noteq> length line then PErr ''syntax''
           else POk (cmd, nulterminate cmd (line @ [0])))
      | PErr m \<Rightarrow> PErr m
      | PFuel \<Rightarrow> PFuel)"

section \<open>Running commands\<close>

text \<open>What the child process does, in order. \<open>SExec\<close> ends the sequence when it succeeds: another program
  runs then.\<close>

datatype sh_action = SExec bytes "bytes list" | SClose nat | SOpen bytes nat | SPrint string | SExit

definition span_str :: "bytes \<Rightarrow> span \<Rightarrow> bytes" where
  "span_str buf x = cstr (drop (fst x) buf)"

text \<open>\<open>ex\<close> says whether an \<open>exec\<close> succeeds, \<open>op\<close> whether an \<open>open\<close> does. Only the first part of a list or a
  pipe runs, as the messages say.\<close>

fun runcmd :: "(bytes \<Rightarrow> bytes list \<Rightarrow> bool) \<Rightarrow> (bytes \<Rightarrow> nat \<Rightarrow> bool) \<Rightarrow> bytes \<Rightarrow> cmd \<Rightarrow> sh_action list" where
  "runcmd ex op buf (EXEC args) =
     (case map (span_str buf) args of
        [] \<Rightarrow> [SExit]
      | a # as \<Rightarrow> SExec a (a # as) # (if ex a (a # as) then [] else [SPrint ''exec not implemented\<newline>'', SExit]))"
| "runcmd ex op buf (REDIR c x mode fd) =
     SClose fd # SOpen (span_str buf x) mode #
     (if \<not> op (span_str buf x) mode then [SPrint ''redir not implemented\<newline>'', SExit]
      else runcmd ex op buf c)"
| "runcmd ex op buf (LIST l r) = SPrint ''list not implemented\<newline>'' # runcmd ex op buf l"
| "runcmd ex op buf (PIPE l r) = SPrint ''pipe not implemented\<newline>'' # runcmd ex op buf l"
| "runcmd ex op buf (BACK c) = SPrint ''background not implemented\<newline>'' # runcmd ex op buf c"

text \<open>\<open>getcmd\<close>: the prompt, a line of at most 99 bytes, and whether there was one. The buffer was cleared
  before, so the line is what precedes its first NUL.\<close>

definition getcmd :: "'z uio_scheme \<Rightarrow> bytes option \<times> 'z uio_scheme" where
  "getcmd u =
     (case gets 100 (uwrite 2 [36, 32] u) of (bs, u') \<Rightarrow>
      if cstr bs = [] then (None, u') else (Some (cstr bs), u'))"

datatype sh_step = ShCd bytes | ShRun "(cmd \<times> bytes) presult"

text \<open>What the loop of \<open>main\<close> does with a line: \<open>cd\<close> itself, with the last byte of the line cut off, anything
  else in a child. \<open>cd_ok\<close> says whether \<open>chdir\<close> succeeds.\<close>

definition sh_line :: "bytes \<Rightarrow> sh_step" where
  "sh_line line = (if take 3 line = [99, 100, 32] then ShCd (drop 3 (butlast line)) else ShRun (parsecmd line))"

lemma gets_loop_less:
  "gets_loop n buf u = (bs, u') \<Longrightarrow> length (concat (uin u')) \<le> length (concat (uin u))
     \<and> (bs \<noteq> buf \<longrightarrow> length (concat (uin u')) < length (concat (uin u)))"
proof (induction n arbitrary: buf u)
  case (Suc n)
  obtain r u1 where r: "uread 1 u = (r, u1)" by (cases "uread 1 u")
  have len: "length (concat (uin u1)) \<le> length (concat (uin u))"
    using r by (auto simp: uread_def split: list.splits if_splits)
  have less: "length (concat (uin u1)) < length (concat (uin u))" if "r = Some (c # cs)" for c cs
    using r that by (auto simp: uread_def split: list.splits if_splits)
  show ?case
  proof (cases r)
    case (Some x)
    show ?thesis
    proof (cases x)
      case (Cons c cs)
      then show ?thesis using Suc.prems r Some less [of c cs] Suc.IH [of "buf @ [c]" u1] by (auto split: if_splits)
    qed (use Suc.prems r Some len in auto)
  qed (use Suc.prems r len in auto)
qed simp

lemma getcmd_less:
  "getcmd u = (Some line, u') \<Longrightarrow> length (concat (uin u')) < length (concat (uin u))"
  using gets_loop_less [of 99 "[]" "uwrite 2 [36, 32] u"]
  by (auto simp: getcmd_def gets_def split: prod.splits if_splits)

function sh_loop :: "(bytes \<Rightarrow> bool) \<Rightarrow> 'z uio_scheme \<Rightarrow> sh_step list \<times> 'z uio_scheme" where
  "sh_loop cd_ok u =
     (case getcmd u of
        (None, u) \<Rightarrow> ([], u)
      | (Some line, u) \<Rightarrow>
          (case sh_line line of
             ShCd d \<Rightarrow>
               (let u = (if cd_ok d then u else uwrite 2 (map of_char ''cannot cd '' @ d @ [10]) u);
                    (xs, u) = sh_loop cd_ok u
                in (ShCd d # xs, u))
           | ShRun r \<Rightarrow> (let (xs, u) = sh_loop cd_ok u in (ShRun r # xs, u))))"
  by pat_completeness auto
termination
  by (relation "measure (\<lambda>(_, u). length (concat (uin u)))") (auto dest: getcmd_less [OF sym])

section \<open>The parser always answers, with well-formed commands\<close>

fun cmd_ok :: "bytes \<Rightarrow> cmd \<Rightarrow> bool" where
  "cmd_ok line (EXEC args) \<longleftrightarrow> length args < MAXARGS \<and> list_all (span_ok line) args"
| "cmd_ok line (REDIR c x mode fd) \<longleftrightarrow> cmd_ok line c \<and> span_ok line x"
| "cmd_ok line (PIPE l r) \<longleftrightarrow> cmd_ok line l \<and> cmd_ok line r"
| "cmd_ok line (LIST l r) \<longleftrightarrow> cmd_ok line l \<and> cmd_ok line r"
| "cmd_ok line (BACK c) \<longleftrightarrow> cmd_ok line c"

lemma cmd_ok_redirs:
  "cmd_ok line c \<Longrightarrow> list_all (span_ok line) (map fst rs) \<Longrightarrow> cmd_ok line (foldl redircmd c rs)"
proof (induction rs arbitrary: c)
  case (Cons r rs)
  then show ?case by (cases r) auto
qed simp

lemma parse_args_ok:
  "s \<le> length line \<Longrightarrow> length args < MAXARGS \<Longrightarrow> list_all (span_ok line) args \<Longrightarrow> list_all (span_ok line) (map fst rs)
   \<Longrightarrow> case parse_args line args rs s of
        POk (args', rs', s') \<Rightarrow> s \<le> s' \<and> s' \<le> length line \<and> length args' < MAXARGS \<and> list_all (span_ok line) args'
          \<and> list_all (span_ok line) (map fst rs')
      | PErr m \<Rightarrow> True | PFuel \<Rightarrow> False"
proof (induction "MAXARGS - length args" arbitrary: args rs s rule: less_induct)
  case less
  obtain s1 b where p: "peek line s [124, 41, 38, 59] = (s1, b)" by (cases "peek line s [124, 41, 38, 59]")
  obtain tok q e s2 where g: "gettoken line s1 = (tok, q, e, s2)" by (cases "gettoken line s1")
  have s1: "s \<le> s1" "s1 \<le> length line" using peek_bounds(1,2) [OF p] less.prems by auto
  have s2: "s1 \<le> s2" "s2 \<le> length line" using gettoken_bounds(1-4) [OF g] s1 by auto
  show ?case
  proof (cases "b \<or> tok = 0 \<or> tok \<noteq> 97 \<or> length (args @ [(q, e)]) \<ge> MAXARGS")
    case True
    then show ?thesis using p g s1 s2 less.prems by (subst parse_args.simps) auto
  next
    case False
    then have w: "span_ok line (q, e)" using gettoken_word g s1 by simp
    have u: "parse_args line args rs s = (case parseredirs line rs s2 of
        POk (rs, s) \<Rightarrow> parse_args line (args @ [(q, e)]) rs s | PErr m \<Rightarrow> PErr m | PFuel \<Rightarrow> PFuel)"
      using p g False by (subst parse_args.simps) simp
    show ?thesis
    proof (cases "parseredirs line rs s2")
      case (POk x)
      obtain rs' s3 where x: "x = (rs', s3)" by (cases x)
      note r = parseredirs_ok [OF POk [unfolded x] s2(2) less.prems(4)]
      have "MAXARGS - length (args @ [(q, e)]) < MAXARGS - length args" using less.prems(2) by simp
      from less.hyps [OF this _ _ _, of s3 rs'] show ?thesis
        using False r w less.prems(3) s1 s2 u POk x by (auto split: presult.splits)
    qed (use u parseredirs_no_fuel in auto)
  qed
qed

text \<open>What a parser promises at a position of the line.\<close>

definition good :: "bytes \<Rightarrow> nat \<Rightarrow> (cmd \<times> nat) presult \<Rightarrow> bool" where
  "good line s r = (case r of POk (c, s') \<Rightarrow> s \<le> s' \<and> s' \<le> length line \<and> cmd_ok line c | PErr m \<Rightarrow> True | PFuel \<Rightarrow> False)"

lemma good_mono: "good line s' r \<Longrightarrow> s \<le> s' \<Longrightarrow> good line s r"
  by (auto simp: good_def split: presult.splits)

lemma parseblock_good:
  assumes "s \<le> length line" "\<And>s'. s < s' \<Longrightarrow> s' \<le> length line \<Longrightarrow> good line s' (pl line s')"
  shows "good line s (parseblock pl line s)"
proof -
  obtain s1 b where p: "peek line s [40] = (s1, b)" by (cases "peek line s [40]")
  obtain t1 q1 e1 s2 where g: "gettoken line s1 = (t1, q1, e1, s2)" by (cases "gettoken line s1")
  show ?thesis
  proof (cases b)
    case False
    then show ?thesis using p by (simp add: parseblock_def good_def)
  next
    case True
    have s2: "s < s2" "s2 \<le> length line"
      using peek_bounds [OF p] peek_gettoken [OF p [unfolded eqTrueI [OF True]] g] gettoken_bounds(4) [OF g] assms(1) True
      by auto
    note pl = assms(2) [OF s2]
    show ?thesis
    proof (cases "pl line s2")
      case (POk x)
      obtain c s3 where x: "x = (c, s3)" by (cases x)
      obtain s4 b2 where p2: "peek line s3 [41] = (s4, b2)" by (cases "peek line s3 [41]")
      obtain t5 q5 e5 s5 where g2: "gettoken line s4 = (t5, q5, e5, s5)" by (cases "gettoken line s4")
      have b: "s2 \<le> s3" "s3 \<le> length line" "cmd_ok line c" using pl POk x by (auto simp: good_def)
      have s5: "s3 \<le> s5" "s5 \<le> length line"
        using peek_bounds(1,2) [OF p2] gettoken_bounds(1-4) [OF g2] b by auto
      have u: "parseblock pl line s = (if \<not> b2 then PErr ''syntax - missing )'' else case parseredirs line [] s5 of
          POk (rs, s) \<Rightarrow> POk (foldl redircmd c rs, s) | PErr m \<Rightarrow> PErr m | PFuel \<Rightarrow> PFuel)"
        using p True g POk x p2 g2 by (simp add: parseblock_def)
      show ?thesis
        using u parseredirs_no_fuel [of line "[]" s5] parseredirs_ok [of line "[]" s5] s5 b s2 cmd_ok_redirs
        by (auto simp: good_def split: presult.splits)
    qed (use pl p True g in \<open>auto simp: parseblock_def good_def\<close>)
  qed
qed

lemma parseexec_good:
  assumes "s \<le> length line" "\<And>s'. s < s' \<Longrightarrow> s' \<le> length line \<Longrightarrow> good line s' (pl line s')"
  shows "good line s (parseexec pl line s)"
proof -
  obtain s1 b where p: "peek line s [40] = (s1, b)" by (cases "peek line s [40]")
  have s1: "s \<le> s1" "s1 \<le> length line" using peek_bounds(1,2) [OF p] assms(1) by auto
  show ?thesis
  proof (cases b)
    case True
    then show ?thesis using p s1 parseblock_good [of s1 line pl] assms(2)
      by (auto simp: parseexec_def intro: good_mono)
  next
    case False
    show ?thesis
    proof (cases "parseredirs line [] s1")
      case (POk x)
      obtain rs s2 where x: "x = (rs, s2)" by (cases x)
      note r = parseredirs_ok [OF POk [unfolded x] s1(2)]
      have "case parse_args line [] rs s2 of
          POk (args', rs', s') \<Rightarrow> s2 \<le> s' \<and> s' \<le> length line \<and> length args' < MAXARGS \<and> list_all (span_ok line) args'
            \<and> list_all (span_ok line) (map fst rs')
        | PErr m \<Rightarrow> True | PFuel \<Rightarrow> False"
        using r by (intro parse_args_ok) (auto simp: MAXARGS_def)
      then show ?thesis using p False POk x r s1
        by (auto simp: parseexec_def good_def intro!: cmd_ok_redirs split: presult.splits)
    qed (use p False parseredirs_no_fuel in \<open>auto simp: parseexec_def good_def\<close>)
  qed
qed

lemma parsepipe_good:
  "s \<le> length line \<Longrightarrow> length line - s < n \<Longrightarrow> (\<And>s'. s < s' \<Longrightarrow> s' \<le> length line \<Longrightarrow> good line s' (pl line s'))
   \<Longrightarrow> good line s (parsepipe pl n line s)"
proof (induction n arbitrary: s)
  case (Suc n)
  note e = parseexec_good [of s line pl, OF Suc.prems(1,3)]
  show ?case
  proof (cases "parseexec pl line s")
    case (POk x)
    obtain c s1 where x: "x = (c, s1)" by (cases x)
    obtain s2 b where p: "peek line s1 [124] = (s2, b)" by (cases "peek line s1 [124]")
    obtain t3 q3 e3 s3 where g: "gettoken line s2 = (t3, q3, e3, s3)" by (cases "gettoken line s2")
    have s1: "s \<le> s1" "s1 \<le> length line" "cmd_ok line c" using e POk x by (auto simp: good_def)
    show ?thesis
    proof (cases b)
      case False
      then show ?thesis using POk x p s1 peek_bounds(1,2) [OF p] by (simp add: good_def)
    next
      case True
      have s3: "s < s3" "s3 \<le> length line"
        using peek_bounds [OF p] peek_gettoken [OF p [unfolded eqTrueI [OF True]] g] gettoken_bounds(4) [OF g] s1 True
        by auto
      have "good line s3 (parsepipe pl n line s3)"
        using s3 Suc.prems by (intro Suc.IH) auto
      then show ?thesis using POk x p True g s1 s3 by (auto simp: good_def split: presult.splits)
    qed
  qed (use e in \<open>auto simp: good_def\<close>)
qed simp

lemma parse_backs_ok:
  "s \<le> length line \<Longrightarrow> cmd_ok line c \<Longrightarrow> case parse_backs line c s of (c', s') \<Rightarrow> s \<le> s' \<and> s' \<le> length line \<and> cmd_ok line c'"
proof (induction "length line - s" arbitrary: c s rule: less_induct)
  case less
  obtain s1 b where p: "peek line s [38] = (s1, b)" by (cases "peek line s [38]")
  obtain t q e s2 where g: "gettoken line s1 = (t, q, e, s2)" by (cases "gettoken line s1")
  show ?case
  proof (cases b)
    case False
    then show ?thesis using p less.prems peek_bounds(1,2) [OF p] by (subst parse_backs.simps) simp
  next
    case True
    have s2: "s < s2" "s2 \<le> length line"
      using peek_bounds [OF p] peek_gettoken [OF p [unfolded eqTrueI [OF True]] g] gettoken_bounds(4) [OF g] less.prems True
      by auto
    have "parse_backs line c s = parse_backs line (BACK c) s2" using p g True by (subst parse_backs.simps) simp
    moreover have "length line - s2 < length line - s" using s2 by simp
    ultimately show ?thesis using less.hyps [of s2 "BACK c"] s2 less.prems by auto
  qed
qed

lemma parseline_good: "s \<le> length line \<Longrightarrow> length line - s < n \<Longrightarrow> good line s (parseline n line s)"
proof (induction n arbitrary: s)
  case (Suc n)
  have e: "good line s (parsepipe (parseline n) (Suc n) line s)"
    using Suc.prems by (intro parsepipe_good Suc.IH) auto
  show ?case
  proof (cases "parsepipe (parseline n) (Suc n) line s")
    case (POk x)
    obtain c0 s0 where x: "x = (c0, s0)" by (cases x)
    obtain c s1 where bk: "parse_backs line c0 s0 = (c, s1)" by (cases "parse_backs line c0 s0")
    obtain s2 b where p: "peek line s1 [59] = (s2, b)" by (cases "peek line s1 [59]")
    obtain t3 q3 e3 s3 where g: "gettoken line s2 = (t3, q3, e3, s3)" by (cases "gettoken line s2")
    have s1: "s \<le> s1" "s1 \<le> length line" "cmd_ok line c"
      using e POk x bk parse_backs_ok [of s0 line c0] by (auto simp: good_def)
    show ?thesis
    proof (cases b)
      case False
      then show ?thesis using POk x bk p s1 peek_bounds(1,2) [OF p] by (simp add: good_def)
    next
      case True
      have s3: "s < s3" "s3 \<le> length line"
        using peek_bounds [OF p] peek_gettoken [OF p [unfolded eqTrueI [OF True]] g] gettoken_bounds(4) [OF g] s1 True
        by auto
      have "good line s3 (parseline n line s3)" using s3 Suc.prems by (intro Suc.IH) auto
      then show ?thesis using POk x bk p True g s1 s3 by (auto simp: good_def split: presult.splits)
    qed
  qed (use e in \<open>auto simp: good_def\<close>)
qed simp

section \<open>The strings of a parsed command\<close>

fun cmd_spans :: "cmd \<Rightarrow> span list" where
  "cmd_spans (EXEC args) = args"
| "cmd_spans (REDIR c x mode fd) = cmd_spans c @ [x]"
| "cmd_spans (PIPE l r) = cmd_spans l @ cmd_spans r"
| "cmd_spans (LIST l r) = cmd_spans l @ cmd_spans r"
| "cmd_spans (BACK c) = cmd_spans c"

lemma nulterminate_spans: "nulterminate c buf = foldl (\<lambda>b (q, e). b[e := 0]) buf (cmd_spans c)"
  by (induction c buf rule: nulterminate.induct) auto

lemma cmd_ok_spans: "cmd_ok line c \<Longrightarrow> list_all (span_ok line) (cmd_spans c)"
  by (induction c) auto

lemma foldl_zero:
  "length (foldl (\<lambda>b (q, e). b[e := 0]) buf xs) = length buf"
  "i < length buf \<Longrightarrow> foldl (\<lambda>b (q, e). b[e := (0 :: u8)]) buf xs ! i = (if i \<in> snd ` set xs then 0 else buf ! i)"
  by (induction xs arbitrary: buf) (auto simp: nth_list_update image_iff Bex_def)

text \<open>The end of one string is never inside another, so each string of the command can be read from the
  buffer afterwards.\<close>

lemma span_string:
  assumes "0 \<notin> set line" "list_all (span_ok line) xs" "(q, e) \<in> set xs"
  shows "cstr (drop q (foldl (\<lambda>b (q, e). b[e := 0]) (line @ [0]) xs)) = take (e - q) (drop q line)"
proof -
  let ?b = "foldl (\<lambda>b (q, e). b[e := (0 :: u8)]) (line @ [0]) xs"
  have sp: "span_ok line (q, e)" using assms(2,3) by (auto simp: list_all_iff)
  have q: "q < e" "e \<le> length line" using sp by (auto simp: span_ok_def)
  have len: "length ?b = Suc (length line)" by (simp add: foldl_zero(1))
  have ins: "?b ! i = line ! i" if "q \<le> i" "i < e" for i
  proof -
    have w: "word_byte (line ! i)"
      using sp that q by (auto simp: span_ok_def list_all_length dest: spec [of _ "i - q"])
    have "i \<notin> snd ` set xs"
    proof
      assume "i \<in> snd ` set xs"
      then obtain q' where "(q', i) \<in> set xs" by auto
      then have "span_ok line (q', i)" using assms(2) by (auto simp: list_all_iff)
      then show False using w that q by (auto simp: span_ok_def)
    qed
    then show ?thesis using that q foldl_zero(2) [of i "line @ [0]" xs] by (simp add: nth_append)
  qed
  have end0: "?b ! e = 0" using assms(3) q foldl_zero(2) [of e "line @ [0]" xs] by force
  have "drop q ?b = take (e - q) (drop q line) @ drop e ?b"
  proof (rule nth_equalityI)
    show "length (drop q ?b) = length (take (e - q) (drop q line) @ drop e ?b)" using q len by simp
    show "drop q ?b ! i = (take (e - q) (drop q line) @ drop e ?b) ! i" if "i < length (drop q ?b)" for i
      using that q len ins [of "q + i"] by (auto simp: nth_append add.commute)
  qed
  moreover have "drop e ?b = 0 # drop (Suc e) ?b" using end0 q len by (simp add: Cons_nth_drop_Suc [symmetric])
  moreover have "0 \<notin> set (take (e - q) (drop q line))" using assms(1) by (meson in_set_dropD in_set_takeD)
  then have "takeWhile (\<lambda>b. b \<noteq> 0) (take (e - q) (drop q line) @ 0 # r) = take (e - q) (drop q line)" for r
    by (subst takeWhile_append2) auto
  ultimately show ?thesis by (simp add: cstr_def)
qed

end
