(* ===== verification/Bounded.thy ===== *)
theory Bounded
  imports Main
begin

text \<open>
  The bounded buffer of \<^verbatim>\<open>src/lab-05/buf.c\<close>: a producer and a consumer thread that share a circular array
  under two counting semaphores and a mutex. Every semaphore, mutex and array access is one step of the
  relation \<open>bb_step\<close>, so that all interleavings of the two threads are covered. A thread is at the head of
  its loop (\<open>Loop\<close>) or before the statement that its position names. The semaphores and the mutex are
  those of POSIX: \<open>sem_wait\<close> and \<open>pthread_mutex_lock\<close> can only proceed when the semaphore is positive and the
  mutex free. The waiting times and what the consumer prints do not matter and are left out.
\<close>

datatype bpc = Loop | Lock | Access | Unlock | Post | Done

record bbuf =
  bb_size :: nat
  bb_buf :: "nat \<Rightarrow> int"
  bb_items :: nat
  bb_mutex :: bool \<comment> \<open>locked\<close>
  llenos :: nat
  vacios :: nat
  p_pc :: bpc
  p_i :: nat
  c_pc :: bpc
  c_i :: nat
  reader_results :: "int list"

inductive bb_step :: "bbuf \<Rightarrow> bbuf \<Rightarrow> bool" where
  p_wait: "p_pc s = Loop \<Longrightarrow> p_i s < bb_items s \<Longrightarrow> 0 < vacios s \<Longrightarrow>
    bb_step s (s\<lparr>vacios := vacios s - 1, p_pc := Lock\<rparr>)"
| p_lock: "p_pc s = Lock \<Longrightarrow> \<not> bb_mutex s \<Longrightarrow> bb_step s (s\<lparr>bb_mutex := True, p_pc := Access\<rparr>)"
| p_store: "p_pc s = Access \<Longrightarrow>
    bb_step s (s\<lparr>bb_buf := (bb_buf s)(p_i s mod bb_size s := int (p_i s)), p_pc := Unlock\<rparr>)"
| p_unlock: "p_pc s = Unlock \<Longrightarrow> bb_step s (s\<lparr>bb_mutex := False, p_pc := Post\<rparr>)"
| p_post: "p_pc s = Post \<Longrightarrow> bb_step s (s\<lparr>llenos := llenos s + 1, p_i := p_i s + 1, p_pc := Loop\<rparr>)"
| p_exit: "p_pc s = Loop \<Longrightarrow> \<not> p_i s < bb_items s \<Longrightarrow> bb_step s (s\<lparr>p_pc := Done\<rparr>)"
| c_wait: "c_pc s = Loop \<Longrightarrow> c_i s < bb_items s \<Longrightarrow> 0 < llenos s \<Longrightarrow>
    bb_step s (s\<lparr>llenos := llenos s - 1, c_pc := Lock\<rparr>)"
| c_lock: "c_pc s = Lock \<Longrightarrow> \<not> bb_mutex s \<Longrightarrow> bb_step s (s\<lparr>bb_mutex := True, c_pc := Access\<rparr>)"
| c_load: "c_pc s = Access \<Longrightarrow>
    bb_step s (s\<lparr>reader_results := reader_results s @ [bb_buf s (c_i s mod bb_size s)], c_pc := Unlock\<rparr>)"
| c_unlock: "c_pc s = Unlock \<Longrightarrow> bb_step s (s\<lparr>bb_mutex := False, c_pc := Post\<rparr>)"
| c_post: "c_pc s = Post \<Longrightarrow> bb_step s (s\<lparr>vacios := vacios s + 1, c_i := c_i s + 1, c_pc := Loop\<rparr>)"
| c_exit: "c_pc s = Loop \<Longrightarrow> \<not> c_i s < bb_items s \<Longrightarrow> bb_step s (s\<lparr>c_pc := Done\<rparr>)"

text \<open>The state \<open>main\<close> starts the threads in; \<open>g\<close> is what \<open>malloc\<close> left in the array.\<close>

definition bb_start :: "nat \<Rightarrow> nat \<Rightarrow> (nat \<Rightarrow> int) \<Rightarrow> bbuf" where
  "bb_start n k g = \<lparr>bb_size = n, bb_buf = g, bb_items = k, bb_mutex = False, llenos = 0, vacios = n,
     p_pc = Loop, p_i = 0, c_pc = Loop, c_i = 0, reader_results = []\<rparr>"

text \<open>The checks of \<open>main\<close> on its four arguments, as numbers: the size of the buffer, the items, and the
  two waiting times must be positive; otherwise the program ends with a message.\<close>

definition bb_main :: "int list \<Rightarrow> (nat \<Rightarrow> int) \<Rightarrow> string + bbuf" where
  "bb_main args g =
     (case args of
        [n, k, wp, wc] \<Rightarrow>
          if n \<le> 0 then Inl ''bufsize tiene que ser mayor que cero.''
          else if k \<le> 0 then Inl ''counter tiene que ser mayor que cero.''
          else if wp \<le> 0 then Inl ''wait-prod tiene que ser mayor que cero.''
          else if wc \<le> 0 then Inl ''cons-wait tiene que ser mayor que cero.''
          else Inr (bb_start (nat n) (nat k) g)
      | _ \<Rightarrow> Inl ''Uso: size items wait-prod wait-cons rand'')"

inductive bb_reach :: "bbuf \<Rightarrow> bbuf \<Rightarrow> bool" for s0 :: bbuf where
  bb_refl: "bb_reach s0 s0"
| bb_more: "bb_reach s0 s \<Longrightarrow> bb_step s s' \<Longrightarrow> bb_reach s0 s'"

section \<open>The invariant\<close>

text \<open>A thread between its \<open>sem_wait\<close> and its \<open>sem_post\<close> holds a token; between \<open>pthread_mutex_lock\<close> and
  \<open>pthread_mutex_unlock\<close> it holds the mutex; after its access it has dealt with one more item than its
  loop counter says.\<close>

definition token :: "bpc \<Rightarrow> nat" where
  "token p = (if p \<in> {Lock, Access, Unlock, Post} then 1 else 0)"

definition critical :: "bpc \<Rightarrow> bool" where
  "critical p \<longleftrightarrow> p \<in> {Access, Unlock}"

definition after :: "bpc \<Rightarrow> nat" where
  "after p = (if p \<in> {Unlock, Post} then 1 else 0)"

definition stored :: "bbuf \<Rightarrow> nat" where
  "stored s = p_i s + after (p_pc s)"

definition taken :: "bbuf \<Rightarrow> nat" where
  "taken s = c_i s + after (c_pc s)"

definition bb_inv :: "bbuf \<Rightarrow> bool" where
  "bb_inv s \<longleftrightarrow> 0 < bb_size s
     \<and> p_i s = c_i s + token (c_pc s) + llenos s \<and> vacios s + token (p_pc s) + token (c_pc s) + llenos s = bb_size s
     \<and> p_i s + token (p_pc s) \<le> bb_items s \<and> (p_pc s = Done \<longrightarrow> p_i s = bb_items s)
     \<and> (c_pc s = Done \<longrightarrow> c_i s = bb_items s)
     \<and> bb_mutex s = (critical (p_pc s) \<or> critical (c_pc s)) \<and> \<not> (critical (p_pc s) \<and> critical (c_pc s))
     \<and> reader_results s = map int [0..<taken s]
     \<and> (\<forall>k. taken s \<le> k \<and> k < stored s \<longrightarrow> bb_buf s (k mod bb_size s) = int k)"

lemmas bb_defs = token_def critical_def after_def stored_def taken_def

lemma mod_neq_near: "k < i \<Longrightarrow> i < k + n \<Longrightarrow> k mod n \<noteq> (i :: nat) mod n"
proof
  assume "k < i" "i < k + n" "k mod n = i mod n"
  then have "n dvd i - k" by (metis mod_eq_dvd_iff_nat less_imp_le_nat)
  then show False using \<open>k < i\<close> \<open>i < k + n\<close> by (auto dest: dvd_imp_le)
qed

lemma bb_inv_start: "0 < n \<Longrightarrow> bb_inv (bb_start n k g)"
  by (simp add: bb_inv_def bb_start_def bb_defs)

lemma bb_inv_step: "bb_step s s' \<Longrightarrow> bb_inv s \<Longrightarrow> bb_inv s'"
proof (induction rule: bb_step.induct)
  case (p_store s)
  have "k mod bb_size s \<noteq> p_i s mod bb_size s" if "taken s \<le> k" "k < p_i s" for k
    using p_store that by (intro mod_neq_near) (auto simp: bb_inv_def bb_defs split: if_splits)
  then show ?case using p_store by (auto simp: bb_inv_def bb_defs less_Suc_eq)
next
  case (c_load s)
  have "taken s = c_i s" "c_i s < stored s" using c_load by (auto simp: bb_inv_def bb_defs)
  then have "bb_buf s (c_i s mod bb_size s) = int (c_i s)" using c_load by (simp add: bb_inv_def)
  then show ?case using c_load by (auto simp: bb_inv_def bb_defs)
qed (auto simp: bb_inv_def bb_defs split: if_splits)

lemma bb_inv_reach: "bb_reach s0 s \<Longrightarrow> bb_inv s0 \<Longrightarrow> bb_inv s"
  by (induction rule: bb_reach.induct) (auto intro: bb_inv_step)

lemma bb_reach_const: "bb_reach s0 s \<Longrightarrow> bb_size s = bb_size s0 \<and> bb_items s = bb_items s0"
  by (induction rule: bb_reach.induct) (auto elim: bb_step.cases)

text \<open>Some thread can always go on until both are done.\<close>

lemma bb_progress:
  assumes "bb_inv s" "\<not> (p_pc s = Done \<and> c_pc s = Done)"
  shows "\<exists>s'. bb_step s s'"
proof (rule ccontr)
  assume stuck: "\<not> ?thesis"
  then have p: "p_pc s = Done \<or> (p_pc s = Loop \<and> p_i s < bb_items s \<and> vacios s = 0) \<or> (p_pc s = Lock \<and> bb_mutex s)"
    using bb_step.p_wait [of s] bb_step.p_lock [of s] bb_step.p_store [of s] bb_step.p_unlock [of s]
      bb_step.p_post [of s] bb_step.p_exit [of s] by (cases "p_pc s") auto
  from stuck have c: "c_pc s = Done \<or> (c_pc s = Loop \<and> c_i s < bb_items s \<and> llenos s = 0) \<or> (c_pc s = Lock \<and> bb_mutex s)"
    using bb_step.c_wait [of s] bb_step.c_lock [of s] bb_step.c_load [of s] bb_step.c_unlock [of s]
      bb_step.c_post [of s] bb_step.c_exit [of s] by (cases "c_pc s") auto
  have inv: "bb_mutex s = (critical (p_pc s) \<or> critical (c_pc s))" "p_i s = c_i s + token (c_pc s) + llenos s"
      "vacios s + token (p_pc s) + token (c_pc s) + llenos s = bb_size s" "0 < bb_size s"
      "p_pc s = Done \<Longrightarrow> p_i s = bb_items s" "c_pc s = Done \<Longrightarrow> c_i s = bb_items s"
    using assms(1) by (simp_all add: bb_inv_def)
  have "\<not> critical (p_pc s)" "\<not> critical (c_pc s)" using p c by (auto simp: critical_def)
  then have m: "p_pc s = Done \<or> p_pc s = Loop \<and> p_i s < bb_items s \<and> vacios s = 0"
    "c_pc s = Done \<or> c_pc s = Loop \<and> c_i s < bb_items s \<and> llenos s = 0"
    using inv(1) p c by simp_all
  then have "token (p_pc s) = 0" "token (c_pc s) = 0" by (auto simp: token_def)
  then show False using inv(2-6) m assms(2) by auto
qed

end
