(* ===== verification/Umalloc.thy ===== *)
theory Umalloc
  imports Prelude
begin

text \<open>
  The memory allocator of the user library, \<^verbatim>\<open>src/xv6/umalloc.c\<close>. Addresses count in units of a \<open>Header\<close>
  (8 bytes), to which every block is aligned; the \<open>ptr\<close> and \<open>size\<close> fields of the headers are two functions of
  the address. \<open>base\<close> is a static variable and lies below the heap. Sizes in bytes are 32-bit and wrap.
  Whether the kernel grants an \<open>sbrk\<close> is a parameter. The loops of \<open>free\<close> and \<open>malloc\<close> end only because the
  free list is circular and sorted: they are \<open>partial_function\<close>s.
\<close>

section \<open>Operations\<close>

record uheap =
  hptr :: "nat \<Rightarrow> nat"
  hsize :: "nat \<Rightarrow> nat"
  base_at :: nat
  freep :: "nat option"
  ubrk :: nat

text \<open>The search loop of \<open>free\<close>.\<close>

partial_function (option) free_search :: "(nat \<Rightarrow> nat) \<Rightarrow> nat \<Rightarrow> nat \<Rightarrow> nat option" where
  "free_search nxt bp p =
     (if bp > p \<and> bp < nxt p then Some p
      else if p \<ge> nxt p \<and> (bp > p \<or> bp < nxt p) then Some p
      else free_search nxt bp (nxt p))"

definition free_join :: "uheap \<Rightarrow> nat \<Rightarrow> nat \<Rightarrow> uheap" where
  "free_join h bp p =
     (let nx = hptr h p;
          h = (if bp + hsize h bp = nx
               then h\<lparr>hsize := (hsize h)(bp := hsize h bp + hsize h nx), hptr := (hptr h)(bp := hptr h nx)\<rparr>
               else h\<lparr>hptr := (hptr h)(bp := nx)\<rparr>);
          h = (if p + hsize h p = bp
               then h\<lparr>hsize := (hsize h)(p := hsize h p + hsize h bp), hptr := (hptr h)(p := hptr h bp)\<rparr>
               else h\<lparr>hptr := (hptr h)(p := bp)\<rparr>)
      in h\<lparr>freep := Some p\<rparr>)"

text \<open>A null \<open>freep\<close>, before the first \<open>malloc\<close>, is dereferenced: no result.\<close>

definition ufree :: "uheap \<Rightarrow> nat \<Rightarrow> uheap option" where
  "ufree h ap =
     (let bp = ap - 1 in
      case freep h of None \<Rightarrow> None
      | Some f \<Rightarrow> map_option (free_join h bp) (free_search (hptr h) bp f))"

text \<open>\<open>grow\<close> says whether \<open>sbrk\<close> succeeds, for the current break and the number of bytes. The bytes wrap at
  32 bits and \<open>sbrk\<close> takes them as a signed number. The outer option is the result of \<open>free\<close>, the inner one the returned pointer.\<close>

definition morecore :: "(nat \<Rightarrow> u32 \<Rightarrow> bool) \<Rightarrow> u32 \<Rightarrow> uheap \<Rightarrow> (nat option \<times> uheap) option" where
  "morecore grow nu h =
     (let nu = (if nu < 4096 then 4096 else nu); bytes = nu * 8 in
      if \<not> grow (ubrk h) bytes then Some (None, h)
      else
        let hp = ubrk h;
            h = h\<lparr>ubrk := nat (int (ubrk h) + sint bytes div 8)\<rparr>;
            h = h\<lparr>hsize := (hsize h)(hp := unat nu)\<rparr>
        in map_option (\<lambda>h. (freep h, h)) (ufree h (hp + 1)))"

definition nunits_of :: "u32 \<Rightarrow> u32" where
  "nunits_of nbytes = (nbytes + 8 - 1) div 8 + 1"

definition malloc_take :: "uheap \<Rightarrow> nat \<Rightarrow> nat \<Rightarrow> nat \<Rightarrow> nat \<times> uheap" where
  "malloc_take h nunits prevp p =
     (if hsize h p = nunits then (p + 1, h\<lparr>hptr := (hptr h)(prevp := hptr h p), freep := Some prevp\<rparr>)
      else
        let rest = hsize h p - nunits; q = p + rest
        in (q + 1, h\<lparr>hsize := (hsize h)(p := rest, q := nunits), freep := Some prevp\<rparr>))"

partial_function (option) malloc_loop ::
  "(nat \<Rightarrow> u32 \<Rightarrow> bool) \<Rightarrow> u32 \<Rightarrow> uheap \<Rightarrow> nat \<Rightarrow> nat \<Rightarrow> (nat option \<times> uheap) option" where
  "malloc_loop grow nunits h prevp p =
     (if hsize h p \<ge> unat nunits then
        (case malloc_take h (unat nunits) prevp p of (r, h) \<Rightarrow> Some (Some r, h))
      else if Some p = freep h then
        (case morecore grow nunits h of
           None \<Rightarrow> None
         | Some (None, h) \<Rightarrow> Some (None, h)
         | Some (Some p, h) \<Rightarrow> malloc_loop grow nunits h p (hptr h p))
      else malloc_loop grow nunits h p (hptr h p))"

definition umalloc :: "(nat \<Rightarrow> u32 \<Rightarrow> bool) \<Rightarrow> u32 \<Rightarrow> uheap \<Rightarrow> (nat option \<times> uheap) option" where
  "umalloc grow nbytes h =
     (let nunits = nunits_of nbytes;
          h = (case freep h of
                 None \<Rightarrow> h\<lparr>hptr := (hptr h)(base_at h := base_at h), freep := Some (base_at h),
                           hsize := (hsize h)(base_at h := 0)\<rparr>
               | Some _ \<Rightarrow> h);
          prevp = the (freep h)
      in malloc_loop grow nunits h prevp (hptr h prevp))"

declare free_search.simps [code] malloc_loop.simps [code]

section \<open>The free list\<close>

text \<open>\<open>lseg f xs e\<close>: following \<open>f\<close> from the first element of \<open>xs\<close> visits \<open>xs\<close> in order and then \<open>e\<close>.\<close>

fun lseg :: "(nat \<Rightarrow> nat) \<Rightarrow> nat list \<Rightarrow> nat \<Rightarrow> bool" where
  "lseg f [] e \<longleftrightarrow> True"
| "lseg f (a # xs) e \<longleftrightarrow> f a = hd (xs @ [e]) \<and> lseg f xs e"

lemma lseg_append: "lseg f (xs @ ys) e \<longleftrightarrow> lseg f xs (hd (ys @ [e])) \<and> lseg f ys e"
  by (induction xs) (auto simp: hd_append)

lemma lseg_upd: "a \<notin> set xs \<Longrightarrow> lseg (f(a := v)) xs e \<longleftrightarrow> lseg f xs e"
  by (induction xs) auto

lemma lseg_cong: "lseg f xs e \<Longrightarrow> (\<And>a. a \<in> set xs \<Longrightarrow> g a = f a) \<Longrightarrow> lseg g xs e"
  by (induction xs) auto

text \<open>
  The invariant: the nodes are \<open>base\<close> and the free blocks, in the order of their addresses, linked in a
  circle; no two overlap, \<open>base\<close> is empty and the others are not, and all end below the break.
\<close>

definition apart :: "(nat \<Rightarrow> nat) \<Rightarrow> nat \<Rightarrow> nat \<Rightarrow> bool" where
  "apart sz a b \<longleftrightarrow> a < b \<and> a + sz a \<le> b"

definition heap_ok :: "uheap \<Rightarrow> nat list \<Rightarrow> bool" where
  "heap_ok h xs \<longleftrightarrow> lseg (hptr h) (base_at h # xs) (base_at h) \<and> sorted_wrt (apart (hsize h)) (base_at h # xs)
     \<and> hsize h (base_at h) = 0 \<and> (\<forall>a\<in>set xs. 0 < hsize h a \<and> a + hsize h a \<le> ubrk h)
     \<and> (\<exists>f\<in>set (base_at h # xs). freep h = Some f) \<and> base_at h < ubrk h"

definition units :: "uheap \<Rightarrow> nat list \<Rightarrow> nat set" where
  "units h xs = (\<Union>a\<in>set xs. {a..<a + hsize h a})"

lemma heap_ok_distinct: "heap_ok h xs \<Longrightarrow> distinct (base_at h # xs)"
proof -
  have "sorted_wrt (apart sz) ys \<Longrightarrow> distinct ys" for sz ys
    by (induction ys) (auto simp: apart_def)
  then show "heap_ok h xs \<Longrightarrow> distinct (base_at h # xs)" unfolding heap_ok_def by blast
qed

section \<open>Searching the circle\<close>

text \<open>The position of \<open>bp\<close>: \<open>us\<close> and \<open>p\<close> are below it, \<open>vs\<close> above.\<close>

lemma free_search_here:
  assumes "lseg nxt (b # xs) b" "sorted_wrt (<) (b # xs)" "b # xs = us @ p # vs" "p < bp" "\<forall>v\<in>set vs. bp < v"
  shows "free_search nxt bp p = Some p"
proof -
  have n: "nxt p = hd (vs @ [b])" using assms(1,3) by (simp add: lseg_append)
  show ?thesis
  proof (cases vs)
    case Nil
    have "b \<le> p" using assms(2,3) by (cases us) (auto simp: Cons_eq_append_conv)
    then show ?thesis using n Nil assms(4) by (subst free_search.simps) simp
  next
    case (Cons v vs')
    then show ?thesis using n assms(4,5) by (subst free_search.simps) simp
  qed
qed

lemma free_search_skip:
  assumes "lseg nxt (b # xs) b" "sorted_wrt (<) (b # xs)" "b # xs = us @ x # vs" "bp \<noteq> b" "b < bp"
    and "x < bp \<Longrightarrow> vs \<noteq> [] \<and> hd vs < bp" "x \<noteq> bp"
  shows "free_search nxt bp x = free_search nxt bp (hd (vs @ [b]))"
proof -
  have n: "nxt x = hd (vs @ [b])" using assms(1,3) by (simp add: lseg_append)
  have bx: "b \<le> x" using assms(2,3) by (cases us) (auto simp: Cons_eq_append_conv)
  have "vs \<noteq> [] \<Longrightarrow> x < hd vs" using assms(2) unfolding assms(3) by (cases vs) (auto simp: sorted_wrt_append)
  then show ?thesis using n assms(4-7) bx by (subst free_search.simps) (cases vs; auto)
qed

lemma free_search_below:
  assumes "lseg nxt (b # xs) b" "sorted_wrt (<) (b # xs)" "p < bp" "\<forall>v\<in>set vs. bp < v" "b < bp"
    and "b # xs = us @ x # ws @ p # vs" "\<forall>u\<in>set (x # ws). u < bp"
  shows "free_search nxt bp x = Some p"
  using assms(6,7)
proof (induction ws arbitrary: us x)
  case Nil
  have "free_search nxt bp p = Some p"
    using Nil assms by (intro free_search_here [of nxt b xs "us @ [x]" p vs]) auto
  moreover have "free_search nxt bp x = free_search nxt bp (hd ((p # vs) @ [b]))"
    using Nil assms by (intro free_search_skip [of nxt b xs us]) auto
  ultimately show ?case by simp
next
  case (Cons w ws)
  have "free_search nxt bp w = Some p" using Cons.prems by (intro Cons.IH [of "us @ [x]"]) auto
  moreover have "free_search nxt bp x = free_search nxt bp (hd ((w # ws @ p # vs) @ [b]))"
    using Cons.prems assms by (intro free_search_skip [of nxt b xs us]) auto
  ultimately show ?case by simp
qed

lemma free_search_above:
  assumes "lseg nxt (b # xs) b" "sorted_wrt (<) (b # xs)" "b < bp" "free_search nxt bp b = Some p"
    and "b # xs = us @ x # vs" "\<forall>v\<in>set (x # vs). bp < v"
  shows "free_search nxt bp x = Some p"
  using assms(5,6)
proof (induction vs arbitrary: us x)
  case Nil
  then have "free_search nxt bp x = free_search nxt bp (hd ([] @ [b]))"
    using assms by (intro free_search_skip [of nxt b xs us]) auto
  then show ?case using assms(4) by simp
next
  case (Cons v vs)
  have "free_search nxt bp v = Some p" using Cons.prems by (intro Cons.IH [of "us @ [x]"]) auto
  moreover have "free_search nxt bp x = free_search nxt bp (hd ((v # vs) @ [b]))"
    using Cons.prems assms by (intro free_search_skip [of nxt b xs us]) auto
  ultimately show ?case by simp
qed

lemma free_search_finds:
  assumes l: "lseg nxt (b # xs) b" "sorted_wrt (<) (b # xs)" and s: "b # xs = us @ p # vs"
    and bp: "\<forall>u\<in>set (us @ [p]). u < bp" "\<forall>v\<in>set vs. bp < v" and f: "f \<in> set (b # xs)"
  shows "free_search nxt bp f = Some p"
proof -
  have b: "b < bp" using s bp(1) by (cases us) auto
  have below: "free_search nxt bp x = Some p" if "x \<in> set (us @ [p])" for x
  proof (cases "x = p")
    case True
    then show ?thesis using free_search_here [OF l s] bp by simp
  next
    case False
    then have "x \<in> set us" using that by simp
    then obtain u1 u2 where u: "us = u1 @ x # u2" by (meson split_list)
    show ?thesis by (rule free_search_below [OF l, of p bp vs u1 x u2]) (use bp b s u in auto)
  qed
  show ?thesis
  proof (cases "f \<in> set (us @ [p])")
    case True
    then show ?thesis by (rule below)
  next
    case False
    then have "f \<in> set vs" using f s by (metis Un_iff set_ConsD set_append list.set_intros(1) insertE append.assoc append_Cons append_Nil)
    then obtain v1 v2 where v: "vs = v1 @ f # v2" by (meson split_list)
    have "b \<in> set (us @ [p])" using s by (cases us) auto
    from free_search_above [OF l b below [OF this], of "us @ p # v1" f v2] show ?thesis
      using s v bp by auto
  qed
qed

text \<open>Every address outside the free blocks has its place between two of them.\<close>

lemma place:
  assumes "sorted_wrt (<) (b # xs)" "b < (bp :: nat)" "bp \<notin> set xs"
  shows "\<exists>us p vs. b # xs = us @ p # vs \<and> (\<forall>u\<in>set (us @ [p]). u < bp) \<and> (\<forall>v\<in>set vs. bp < v)"
  using assms
proof (induction xs arbitrary: b)
  case Nil
  then show ?case by (intro exI [of _ "[]"] exI [of _ b]) simp
next
  case (Cons x xs)
  show ?case
  proof (cases "x < bp")
    case True
    with Cons obtain us p vs where "x # xs = us @ p # vs" "\<forall>u\<in>set (us @ [p]). u < bp" "\<forall>v\<in>set vs. bp < v"
      by (metis list.set_intros(2) sorted_wrt.simps(2))
    then show ?thesis using Cons.prems by (intro exI [of _ "b # us"] exI [of _ p] exI [of _ vs]) auto
  next
    case False
    then have "bp < x" using Cons.prems(3) by auto
    then show ?thesis using Cons.prems
      by (intro exI [of _ "[]"] exI [of _ b] exI [of _ "x # xs"]) auto
  qed
qed

lemma sorted_apart: "sorted_wrt (apart sz) xs \<Longrightarrow> sorted_wrt (<) xs"
  by (rule sorted_wrt_mono_rel [of xs "apart sz"]) (auto simp: apart_def)

section \<open>free\<close>

text \<open>A list of nodes is a circle when it is linked and sorted, and covers the units of its blocks.\<close>

definition circle :: "(nat \<Rightarrow> nat) \<Rightarrow> (nat \<Rightarrow> nat) \<Rightarrow> nat \<Rightarrow> nat list \<Rightarrow> bool" where
  "circle nxt sz b ys \<longleftrightarrow> lseg nxt ys b \<and> sorted_wrt (apart sz) ys"

definition covers :: "(nat \<Rightarrow> nat) \<Rightarrow> nat list \<Rightarrow> nat set" where
  "covers sz ys = (\<Union>a\<in>set ys. {a..<a + sz a})"

lemma sorted_apart_cong:
  "sorted_wrt (apart sz) ys \<Longrightarrow> (\<And>a. a \<in> set ys \<Longrightarrow> sz' a = sz a) \<Longrightarrow> sorted_wrt (apart sz') ys"
  by (rule sorted_wrt_mono_rel [of ys "apart sz"]) (auto simp: apart_def)

lemma covers_cong: "(\<And>a. a \<in> set ys \<Longrightarrow> sz' a = sz a) \<Longrightarrow> covers sz' ys = covers sz ys"
  by (auto simp: covers_def)

lemma covers_simps [simp]:
  "covers sz [] = {}" "covers sz (a # ys) = {a..<a + sz a} \<union> covers sz ys" "covers sz (ys @ zs) = covers sz ys \<union> covers sz zs"
  by (auto simp: covers_def)

text \<open>The block after the new one is joined to it when they touch.\<close>

lemma join_next:
  assumes c: "circle nxt sz b (us @ p # vs)" and v: "\<forall>v\<in>set vs. bp + n \<le> v" and n: "0 < n" "sz bp = n" and bp: "b < bp"
    and nx: "nx = nxt p"
    and nxt': "nxt' = (if bp + n = nx then nxt(bp := nxt nx) else nxt(bp := nx))"
    and sz': "sz' = (if bp + n = nx then sz(bp := n + sz nx) else sz)"
  shows "\<exists>ws. lseg nxt' (bp # ws) b \<and> sorted_wrt (apart sz') (bp # ws) \<and> covers sz' (bp # ws) = {bp..<bp + n} \<union> covers sz vs
    \<and> set ws \<subseteq> set vs \<and> bp \<notin> set ws"
proof -
  have bpv: "bp \<notin> set vs" using v n by auto
  have l: "nx = hd (vs @ [b])" "lseg nxt vs b" using c nx by (simp_all add: circle_def lseg_append)
  have s: "sorted_wrt (apart sz) vs" using c by (auto simp: circle_def sorted_wrt_append)
  show ?thesis
  proof (cases "bp + n = nx")
    case True
    then obtain ws where vs: "vs = nx # ws" using l(1) bp n by (cases vs) auto
    have a: "\<forall>w\<in>set ws. nx < w \<and> nx + sz nx \<le> w" "sorted_wrt (apart sz) ws" "lseg nxt ws b" "nxt nx = hd (ws @ [b])"
      using s l(2) by (auto simp: vs apart_def)
    have bw: "bp \<notin> set ws" "bp \<noteq> nx" using bpv vs n True by auto
    have "sorted_wrt (apart sz') ws" by (rule sorted_apart_cong [OF a(2)]) (use bw in \<open>auto simp: sz'\<close>)
    moreover have "covers sz' ws = covers sz ws" by (rule covers_cong) (use bw in \<open>auto simp: sz'\<close>)
    moreover have "{bp..<bp + (n + sz nx)} = {bp..<bp + n} \<union> {nx..<nx + sz nx}" using True by auto
    moreover have "apart sz' bp w" if "w \<in> set ws" for w
      using a(1) that True n by (auto simp: apart_def sz')
    moreover have "lseg nxt' (bp # ws) b" using True a bw by (simp add: nxt' lseg_upd)
    ultimately show ?thesis using bw True
      by (intro exI [of _ ws]) (auto simp: sz' vs)
  next
    case False
    then have "lseg nxt' (bp # vs) b" using l bpv by (simp add: nxt' lseg_upd)
    moreover have "\<forall>w\<in>set vs. apart sz bp w" using v n by (auto simp: apart_def)
    ultimately show ?thesis using False s n bpv by (intro exI [of _ vs]) (simp add: sz')
  qed
qed

text \<open>Then the result is joined to the block before it when they touch.\<close>

lemma join_prev:
  assumes c: "circle nxt sz b (us @ p # vs)" and p: "p < bp" "p + sz p \<le> bp"
    and w: "lseg nxt1 (bp # ws) b" "sorted_wrt (apart sz1) (bp # ws)" "set ws \<subseteq> set vs" "bp \<notin> set ws"
    and same: "\<And>a. a \<noteq> bp \<Longrightarrow> nxt1 a = nxt a" "\<And>a. a \<noteq> bp \<Longrightarrow> sz1 a = sz a"
    and fresh: "bp \<notin> set (us @ p # vs)"
    and nxt': "nxt' = (if p + sz1 p = bp then nxt1(p := nxt1 bp) else nxt1(p := bp))"
    and sz': "sz' = (if p + sz1 p = bp then sz1(p := sz1 p + sz1 bp) else sz1)"
  shows "\<exists>zs. circle nxt' sz' b (us @ p # zs) \<and> covers sz' (us @ p # zs) = covers sz (us @ [p]) \<union> covers sz1 (bp # ws)
    \<and> set zs \<subseteq> insert bp (set ws) \<and> (\<exists>a\<in>set (p # zs). sz1 bp \<le> sz' a)"
proof -
  have lus: "lseg nxt us p" using c by (simp add: circle_def lseg_append)
  have d: "p \<notin> set us" "p \<notin> set vs" "bp \<notin> set us" "bp \<noteq> p"
    using c fresh by (auto simp: circle_def sorted_wrt_append apart_def)
  then have pw: "p \<notin> set ws" using w(3) by auto
  have ne: "a \<noteq> bp" "a \<noteq> p" if "a \<in> set us" for a using that d by auto
  have us: "lseg nxt' us p" by (rule lseg_cong [OF lus]) (use ne same(1) in \<open>auto simp: nxt'\<close>)
  have szu: "sz' a = sz a" if "a \<in> set us" for a using ne [OF that] same(2) by (simp add: sz')
  have su: "sorted_wrt (apart sz') us" "\<forall>u\<in>set us. apart sz' u p"
    using c szu by (auto simp: circle_def sorted_wrt_append apart_def intro: sorted_apart_cong)
  have uw: "apart sz' u w" if "u \<in> set us" "w \<in> insert bp (set ws)" for u w
    using that c p su(2) w(3) szu by (fastforce simp: circle_def sorted_wrt_append apart_def)
  have cu: "covers sz' us = covers sz us" using szu by (rule covers_cong)
  have szp: "sz1 p = sz p" using same d by simp
  show ?thesis
  proof (cases "p + sz1 p = bp")
    case True
    have sw: "sz' a = sz1 a" if "a \<in> set ws" for a using that pw by (auto simp: sz')
    have "covers sz' ws = covers sz1 ws" using sw by (rule covers_cong)
    moreover have "sorted_wrt (apart sz') ws" using w(2) sw by (auto intro: sorted_apart_cong)
    moreover have "apart sz' p a" if "a \<in> set ws" for a
      using that w(2) True p by (fastforce simp: apart_def sz')
    moreover have "lseg nxt' (p # ws) b" using w(1) True d pw by (simp add: nxt' lseg_upd)
    moreover have "{p..<p + (sz1 p + sz1 bp)} = {p..<p + sz p} \<union> {bp..<bp + sz1 bp}" using True szp by auto
    ultimately show ?thesis using us su uw cu True
      by (intro exI [of _ ws]) (auto simp: circle_def lseg_append sorted_wrt_append sz')
  next
    case False
    have "sz' = sz1" using False by (simp add: sz')
    moreover have "apart sz1 p a" if "a \<in> insert bp (set ws)" for a
      using that w(2) p szp by (fastforce simp: apart_def)
    moreover have "lseg nxt' (p # bp # ws) b" using w(1) False d pw by (simp add: nxt' lseg_upd)
    ultimately show ?thesis using us su uw cu w(2) szp
      by (intro exI [of _ "bp # ws"]) (auto simp: circle_def lseg_append sorted_wrt_append)
  qed
qed

lemma covers_units: "hsize h (base_at h) = 0 \<Longrightarrow> covers (hsize h) (base_at h # xs) = units h xs"
  by (simp add: units_def covers_def)

text \<open>Joining a block into its place of the circle.\<close>

lemma free_join_circle:
  assumes c: "circle (hptr h) (hsize h) b (us @ p # vs)" and b: "b < bp" "0 < hsize h bp"
    and p: "p < bp" "p + hsize h p \<le> bp" and v: "\<forall>v\<in>set vs. bp + hsize h bp \<le> v" and fresh: "bp \<notin> set (us @ p # vs)"
  shows "\<exists>zs. circle (hptr (free_join h bp p)) (hsize (free_join h bp p)) b (us @ p # zs)
    \<and> covers (hsize (free_join h bp p)) (us @ p # zs) = covers (hsize h) (us @ p # vs) \<union> {bp..<bp + hsize h bp}
    \<and> set zs \<subseteq> insert bp (set vs) \<and> (\<forall>a. hsize h a \<le> hsize (free_join h bp p) a)
    \<and> (\<exists>a\<in>set (p # zs). hsize h bp \<le> hsize (free_join h bp p) a)
    \<and> (\<forall>a. a \<noteq> bp \<and> (a \<noteq> p \<or> p + hsize h p \<noteq> bp) \<longrightarrow> hsize (free_join h bp p) a = hsize h a)"
proof -
  define nx where "nx = hptr h p"
  define nxt1 where "nxt1 = (if bp + hsize h bp = nx then (hptr h)(bp := hptr h nx) else (hptr h)(bp := nx))"
  define sz1 where "sz1 = (if bp + hsize h bp = nx then (hsize h)(bp := hsize h bp + hsize h nx) else hsize h)"
  define nxt2 where "nxt2 = (if p + sz1 p = bp then nxt1(p := nxt1 bp) else nxt1(p := bp))"
  define sz2 where "sz2 = (if p + sz1 p = bp then sz1(p := sz1 p + sz1 bp) else sz1)"
  have j: "hptr (free_join h bp p) = nxt2" "hsize (free_join h bp p) = sz2"
    by (simp_all add: free_join_def Let_def nxt2_def sz2_def nxt1_def sz1_def nx_def)
  have same: "\<And>a. a \<noteq> bp \<Longrightarrow> nxt1 a = hptr h a" "\<And>a. a \<noteq> bp \<Longrightarrow> sz1 a = hsize h a"
    by (simp_all add: nxt1_def sz1_def)
  from join_next [OF c v b(2) refl b(1) nx_def nxt1_def sz1_def] obtain ws where
    ws: "lseg nxt1 (bp # ws) b" "sorted_wrt (apart sz1) (bp # ws)"
      "covers sz1 (bp # ws) = {bp..<bp + hsize h bp} \<union> covers (hsize h) vs" "set ws \<subseteq> set vs" "bp \<notin> set ws" by blast
  from join_prev [OF c p ws(1,2,4,5) same fresh nxt2_def sz2_def] obtain zs where
    zs: "circle nxt2 sz2 b (us @ p # zs)" "covers sz2 (us @ p # zs) = covers (hsize h) (us @ [p]) \<union> covers sz1 (bp # ws)"
      "set zs \<subseteq> insert bp (set ws)" "\<exists>a\<in>set (p # zs). sz1 bp \<le> sz2 a" by blast
  have "hsize h bp \<le> sz1 bp" by (simp add: sz1_def)
  then have "\<exists>a\<in>set (p # zs). hsize h bp \<le> sz2 a" using zs(4) by (meson order_trans)
  moreover have "covers sz2 (us @ p # zs) = covers (hsize h) (us @ p # vs) \<union> {bp..<bp + hsize h bp}"
    unfolding zs(2) ws(3) by auto
  moreover have "hsize h a \<le> sz2 a" for a by (auto simp: sz2_def sz1_def)
  moreover have "sz2 a = hsize h a" if "a \<noteq> bp \<and> (a \<noteq> p \<or> p + hsize h p \<noteq> bp)" for a
    using that p(1) by (auto simp: sz2_def sz1_def)
  ultimately show ?thesis unfolding j using zs ws(4) by blast
qed

lemma heap_ok_size: "heap_ok h xs \<Longrightarrow> a \<in> set xs \<Longrightarrow> 0 < hsize h a \<and> a + hsize h a \<le> ubrk h \<and> base_at h < a"
  by (auto simp: heap_ok_def apart_def)

text \<open>Where a block that overlaps no free block goes.\<close>

lemma heap_place:
  assumes ok: "heap_ok h xs" and bp: "base_at h < bp" "0 < n" and dis: "{bp..<bp + n} \<inter> units h xs = {}"
  shows "\<exists>us p vs. base_at h # xs = us @ p # vs \<and> (\<forall>u\<in>set (us @ [p]). u < bp) \<and> (\<forall>v\<in>set vs. bp < v)
    \<and> p + hsize h p \<le> bp \<and> (\<forall>v\<in>set vs. bp + n \<le> v) \<and> bp \<notin> set (us @ p # vs)"
proof -
  have srt: "sorted_wrt (<) (base_at h # xs)" using ok sorted_apart unfolding heap_ok_def by blast
  have out: "\<not> (a \<le> i \<and> i < a + hsize h a)" if "a \<in> set xs" "bp \<le> i" "i < bp + n" for a i
    using dis that by (force simp: units_def)
  have bpx: "bp \<notin> set xs" using out [of bp bp] bp(2) heap_ok_size [OF ok, of bp] by auto
  from place [OF srt bp(1) bpx] obtain us p vs where
    s: "base_at h # xs = us @ p # vs" "\<forall>u\<in>set (us @ [p]). u < bp" "\<forall>v\<in>set vs. bp < v" by blast
  have vx: "set vs \<subseteq> set xs" and px: "p = base_at h \<or> p \<in> set xs" using s(1) by (cases us; auto)+
  have "p + hsize h p \<le> bp"
  proof (cases "p = base_at h")
    case True
    then show ?thesis using bp(1) ok by (simp add: heap_ok_def)
  next
    case False
    then show ?thesis using px out [of p bp] bp(2) s(2) by auto
  qed
  moreover have "bp + n \<le> v" if "v \<in> set vs" for v
    using out [of v v] that vx s(3) heap_ok_size [OF ok, of v] by force
  moreover have "bp \<notin> set (us @ p # vs)" using bpx bp(1) by (simp flip: s(1))
  ultimately show ?thesis using s by blast
qed

text \<open>Freeing a block that overlaps no free block adds its units to the free ones.\<close>

lemma ufree_ok:
  assumes ok: "heap_ok h xs" and bp: "base_at h < bp" "0 < hsize h bp" "bp + hsize h bp \<le> ubrk h"
    and dis: "{bp..<bp + hsize h bp} \<inter> units h xs = {}"
  shows "\<exists>h' ys. ufree h (bp + 1) = Some h' \<and> heap_ok h' ys \<and> units h' ys = units h xs \<union> {bp..<bp + hsize h bp}
    \<and> ubrk h' = ubrk h \<and> base_at h' = base_at h \<and> (\<exists>a\<in>set ys. hsize h bp \<le> hsize h' a)
    \<and> (\<forall>a. a \<notin> insert (base_at h) (units h xs \<union> {bp..<bp + hsize h bp}) \<longrightarrow> hsize h' a = hsize h a)"
proof -
  let ?b = "base_at h"
  have c0: "circle (hptr h) (hsize h) ?b (?b # xs)" and b0: "hsize h ?b = 0" and bb: "?b < ubrk h"
    using ok by (simp_all add: heap_ok_def circle_def)
  obtain f where f: "f \<in> set (?b # xs)" "freep h = Some f" using ok by (auto simp: heap_ok_def)
  from heap_place [OF ok bp(1,2) dis] obtain us p vs where
    s: "?b # xs = us @ p # vs" "\<forall>u\<in>set (us @ [p]). u < bp" "\<forall>v\<in>set vs. bp < v"
      "p + hsize h p \<le> bp" "\<forall>v\<in>set vs. bp + hsize h bp \<le> v" "bp \<notin> set (us @ p # vs)" by blast
  define h' where "h' = free_join h bp p"
  have "free_search (hptr h) bp f = Some p"
    using free_search_finds [OF _ _ s(1-3) f(1)] c0 sorted_apart unfolding circle_def by blast
  then have run: "ufree h (bp + 1) = Some h'" using f(2) by (simp add: ufree_def h'_def)
  have fld: "base_at h' = ?b" "ubrk h' = ubrk h" "freep h' = Some p" by (simp_all add: h'_def free_join_def Let_def)
  have p: "p < bp" using s(2) by simp
  from free_join_circle [OF c0 [unfolded s(1)] bp(1,2) p s(4-6), folded h'_def] obtain zs where
    zs: "circle (hptr h') (hsize h') ?b (us @ p # zs)"
      "covers (hsize h') (us @ p # zs) = covers (hsize h) (us @ p # vs) \<union> {bp..<bp + hsize h bp}"
      "set zs \<subseteq> insert bp (set vs)" "\<forall>a. hsize h a \<le> hsize h' a"
      "\<forall>a. a \<noteq> bp \<and> (a \<noteq> p \<or> p + hsize h p \<noteq> bp) \<longrightarrow> hsize h' a = hsize h a"
      "\<exists>a\<in>set (p # zs). hsize h bp \<le> hsize h' a" by blast
  obtain ys where ys: "us @ p # zs = ?b # ys" using s(1) by (cases us) auto
  have b': "hsize h' ?b = 0" using zs(5) bp(1) b0 by auto
  have u: "units h' ys = units h xs \<union> {bp..<bp + hsize h bp}"
    using zs(2) covers_units [of h xs, OF b0] covers_units [of h' ys] b' unfolding ys fld s(1) [symmetric] by simp
  have set_ys: "set ys \<subseteq> insert bp (set xs)"
    using ys s(1) zs(3) by (cases us) auto
  have "0 < hsize h' a \<and> a + hsize h' a \<le> ubrk h" if "a \<in> set ys" for a
  proof -
    have pos: "0 < hsize h' a"
      using that set_ys heap_ok_size [OF ok, of a] bp(2) zs(4) by (metis insertE less_le_trans subsetD)
    then have "a + hsize h' a - 1 \<in> units h' ys" unfolding units_def using that by (intro UN_I [of a]) auto
    moreover have "i < ubrk h" if "i \<in> units h xs" for i
      using that heap_ok_size [OF ok] by (auto simp: units_def intro: less_le_trans)
    ultimately have "a + hsize h' a - 1 < ubrk h" using u bp(3) by auto
    then show ?thesis using pos by simp
  qed
  moreover have "p \<in> set (?b # ys)" by (simp flip: ys)
  ultimately have "heap_ok h' ys"
    using zs(1) b' bb unfolding heap_ok_def fld circle_def ys by blast
  moreover have "\<exists>a\<in>set ys. hsize h bp \<le> hsize h' a"
  proof -
    from zs(6) obtain a where a: "a \<in> set (us @ p # zs)" "hsize h bp \<le> hsize h' a" by auto
    then have "a \<noteq> ?b" using b' bp(2) by auto
    then show ?thesis using a ys by auto
  qed
  moreover have "hsize h' a = hsize h a" if "a \<notin> insert ?b (units h xs \<union> {bp..<bp + hsize h bp})" for a
  proof -
    have "a \<noteq> bp" using that bp(2) by auto
    moreover have "a \<notin> set xs" using that heap_ok_size [OF ok, of a] by (auto simp: units_def)
    then have "a \<notin> set (us @ p # vs)" using that unfolding s(1) [symmetric] by simp
    ultimately show ?thesis using zs(5) by simp
  qed
  ultimately show ?thesis using run u fld by blast
qed

section \<open>malloc\<close>

text \<open>The nodes by their number on the circle.\<close>

definition node :: "nat list \<Rightarrow> nat \<Rightarrow> nat" where
  "node ns i = ns ! (i mod length ns)"

lemma lseg_nth: "lseg f ns e \<Longrightarrow> i < length ns \<Longrightarrow> f (ns ! i) = (ns @ [e]) ! Suc i"
proof (induction ns arbitrary: i)
  case (Cons a ns)
  then show ?case by (cases i; cases ns) auto
qed simp

lemma node_next:
  assumes "lseg f ns (hd ns)" "ns \<noteq> []"
  shows "f (node ns i) = node ns (Suc i)"
proof -
  have "i mod length ns < length ns" using assms(2) by simp
  from lseg_nth [OF assms(1) this] this show ?thesis
    using assms(2) by (cases "Suc (i mod length ns) = length ns") (auto simp: node_def mod_Suc nth_append hd_conv_nth)
qed

lemma node_in: "ns \<noteq> [] \<Longrightarrow> node ns i \<in> set ns"
  by (simp add: node_def)

lemma node_eq_iff: "distinct ns \<Longrightarrow> ns \<noteq> [] \<Longrightarrow> node ns i = node ns j \<longleftrightarrow> i mod length ns = j mod length ns"
  by (simp add: node_def nth_eq_iff_index_eq)

text \<open>The loop passes over the nodes that are too small and are not \<open>freep\<close>.\<close>

lemma malloc_walk:
  assumes next_node: "\<And>i. hptr h (nd i) = nd (Suc i)"
  shows "\<forall>j<e. hsize h (nd (Suc i + j)) < unat nu \<and> freep h \<noteq> Some (nd (Suc i + j)) \<Longrightarrow>
    malloc_loop grow nu h (nd i) (nd (Suc i)) = malloc_loop grow nu h (nd (i + e)) (nd (Suc (i + e)))"
proof (induction e arbitrary: i)
  case (Suc e)
  have "malloc_loop grow nu h (nd i) (nd (Suc i)) = malloc_loop grow nu h (nd (Suc i)) (nd (Suc (Suc i)))"
    using Suc.prems next_node by (subst malloc_loop.simps) (force simp: not_le)
  also have "\<dots> = malloc_loop grow nu h (nd (Suc i + e)) (nd (Suc (Suc i + e)))"
    using Suc.prems by (intro Suc.IH) (metis Suc_less_eq add_Suc add_Suc_right)
  finally show ?case by simp
qed simp

text \<open>The blocks of a circle do not overlap.\<close>

lemma sorted_wrt_either: "sorted_wrt r ys \<Longrightarrow> a \<in> set ys \<Longrightarrow> b \<in> set ys \<Longrightarrow> a \<noteq> b \<Longrightarrow> r a b \<or> r b a"
  by (induction ys) auto

lemma heap_ok_disjoint:
  assumes "heap_ok h xs" "a \<in> set (base_at h # xs)" "b \<in> set (base_at h # xs)" "a \<noteq> b"
  shows "{a..<a + hsize h a} \<inter> {b..<b + hsize h b} = {}"
proof -
  have "sorted_wrt (apart (hsize h)) (base_at h # xs)" using assms(1) unfolding heap_ok_def by blast
  from sorted_wrt_either [OF this assms(2-4)] show ?thesis by (auto simp: apart_def)
qed

text \<open>Taking a whole block, or the end of one, out of the circle.\<close>

lemma take_whole:
  assumes ok: "heap_ok h xs" and s: "base_at h # xs = us @ pp # p # vs" and p: "p \<noteq> base_at h"
    and h': "h' = h\<lparr>hptr := (hptr h)(pp := hptr h p), freep := Some pp\<rparr>"
  shows "\<exists>ys. heap_ok h' ys \<and> units h' ys = units h xs - {p..<p + hsize h p}"
proof -
  have d: "distinct (us @ pp # p # vs)" using heap_ok_distinct [OF ok] s by simp
  have l: "lseg (hptr h) (us @ pp # p # vs) (base_at h)" and srt: "sorted_wrt (apart (hsize h)) (us @ pp # p # vs)"
    using ok s by (simp_all add: heap_ok_def)
  obtain ys where ys: "us @ pp # vs = base_at h # ys" using s by (cases us) auto
  have xs: "set xs = insert p (set ys)" "p \<notin> set ys" using s ys d by (cases us; auto)+
  have "lseg (hptr h') (us @ pp # vs) (base_at h)" using l d by (simp add: h' lseg_append lseg_upd)
  moreover have "sorted_wrt (apart (hsize h')) (us @ pp # vs)" using srt by (simp add: sorted_wrt_append h')
  moreover have "pp \<in> set (base_at h # ys)" by (simp flip: ys)
  ultimately have "heap_ok h' ys" using ok xs(1) unfolding heap_ok_def h' ys by simp
  moreover have "i \<notin> {p..<p + hsize h p}" if "a \<in> set ys" "i \<in> {a..<a + hsize h a}" for a i
  proof -
    have "a \<noteq> p" using that(1) xs(2) by auto
    then show ?thesis using heap_ok_disjoint [OF ok, of a p] that xs(1) by auto
  qed
  then have "units h' ys = units h xs - {p..<p + hsize h p}" using xs by (auto simp: units_def h')
  ultimately show ?thesis by blast
qed

lemma take_end:
  assumes ok: "heap_ok h xs" and p: "p \<in> set xs" "pp \<in> set (base_at h # xs)" and n: "0 < n" "n < hsize h p"
    and q: "q = p + (hsize h p - n)"
    and h': "h' = h\<lparr>hsize := (hsize h)(p := hsize h p - n, q := n), freep := Some pp\<rparr>"
  shows "heap_ok h' xs \<and> units h' xs = units h xs - {q..<q + n}"
proof -
  have qp: "q \<in> {p..<p + hsize h p}" "q \<noteq> p" using n q by auto
  have qn: "q \<notin> set (base_at h # xs)"
  proof
    assume a: "q \<in> set (base_at h # xs)"
    have "q \<noteq> base_at h" using heap_ok_size [OF ok p(1)] q by auto
    then have "q \<in> set xs" using a by simp
    then have "q \<in> {q..<q + hsize h q}" using heap_ok_size [OF ok, of q] by simp
    then show False using heap_ok_disjoint [OF ok a, of p] p(1) qp by auto
  qed
  have sz: "hsize h' a = (if a = p then hsize h p - n else hsize h a)" if "a \<in> set (base_at h # xs)" for a
    using that qn qp(2) by (auto simp: h')
  have "sorted_wrt (apart (hsize h)) (base_at h # xs)" using ok unfolding heap_ok_def by blast
  then have "sorted_wrt (apart (hsize h')) (base_at h # xs)"
    by (rule sorted_wrt_mono_rel [rotated]) (auto simp: apart_def sz)
  moreover have "hsize h' (base_at h) = 0" using sz [of "base_at h"] ok heap_ok_size [OF ok p(1)] by (auto simp: heap_ok_def)
  moreover have "0 < hsize h' a \<and> a + hsize h' a \<le> ubrk h" if "a \<in> set xs" for a
    using sz [of a] that heap_ok_size [OF ok that] n by auto
  ultimately have ok': "heap_ok h' xs" using ok p(2) unfolding heap_ok_def by (simp add: h')
  define R where "R = (\<Union>a\<in>set xs - {p}. {a..<a + hsize h a})"
  have "{a..<a + hsize h a} \<inter> {p..<p + hsize h p} = {}" if "a \<in> set xs - {p}" for a
    using heap_ok_disjoint [OF ok, of a p] that p(1) by auto
  then have dis: "R \<inter> {p..<p + hsize h p} = {}" unfolding R_def by blast
  have "units h' xs = {p..<p + hsize h' p} \<union> (\<Union>a\<in>set xs - {p}. {a..<a + hsize h' a})"
    using p(1) by (auto simp: units_def)
  then have u': "units h' xs = {p..<p + hsize h' p} \<union> R" using sz by (simp add: R_def)
  have u: "units h xs = {p..<p + hsize h p} \<union> R" using p(1) by (auto simp: units_def R_def)
  have e: "{p..<p + hsize h' p} = {p..<p + hsize h p} - {q..<q + n}" using sz [of p] p(1) n q by auto
  have "{q..<q + n} \<subseteq> {p..<p + hsize h p}" using n q by auto
  then have "R - {q..<q + n} = R" using dis by blast
  then have "units h' xs = units h xs - {q..<q + n}" unfolding u u' e Un_Diff by simp
  then show ?thesis using ok' by blast
qed

lemma malloc_take_ok:
  assumes ok: "heap_ok h xs" and s: "base_at h # xs = us @ pp # p # vs" and n: "0 < n" "n \<le> hsize h p"
    and r: "malloc_take h n pp p = (ap, h')"
  shows "\<exists>ys. heap_ok h' ys \<and> ubrk h' = ubrk h \<and> base_at h' = base_at h \<and> hsize h' (ap - 1) = n \<and> 0 < ap
    \<and> {ap - 1..<ap - 1 + n} \<subseteq> units h xs \<and> units h' ys = units h xs - {ap - 1..<ap - 1 + n}
    \<and> (\<forall>a. a \<notin> units h xs \<longrightarrow> hsize h' a = hsize h a)"
proof -
  have p: "p \<noteq> base_at h" using ok n by (auto simp: heap_ok_def)
  then have px: "p \<in> set xs" using s by (cases us) auto
  have sub: "{p..<p + hsize h p} \<subseteq> units h xs" using px by (auto simp: units_def)
  show ?thesis
  proof (cases "hsize h p = n")
    case True
    then have h': "h' = h\<lparr>hptr := (hptr h)(pp := hptr h p), freep := Some pp\<rparr>" "ap = p + 1"
      using r by (simp_all add: malloc_take_def)
    from take_whole [OF ok s p h'(1)] show ?thesis using True sub h' by auto
  next
    case False
    define q where "q = p + (hsize h p - n)"
    have h': "h' = h\<lparr>hsize := (hsize h)(p := hsize h p - n, q := n), freep := Some pp\<rparr>" "ap = q + 1"
      using r False by (auto simp: malloc_take_def Let_def q_def)
    have pp: "pp \<in> set (base_at h # xs)" unfolding s by simp
    have qs: "{q..<q + n} \<subseteq> {p..<p + hsize h p}" using n by (auto simp: q_def)
    moreover have "hsize h' a = hsize h a" if "a \<notin> units h xs" for a
    proof -
      have "p \<in> {p..<p + hsize h p}" "q \<in> {q..<q + n}" using n by simp_all
      then have "a \<noteq> p" "a \<noteq> q" using that sub qs by blast+
      then show ?thesis by (simp add: h'(1))
    qed
    ultimately show ?thesis using take_end [OF ok px pp n(1) _ q_def h'(1)] False n sub h' by (intro exI [of _ xs]) auto
  qed
qed

text \<open>The walk from \<open>freep\<close>: either it reaches a block that is large enough, or it comes back to \<open>freep\<close>.\<close>

lemma node_split:
  assumes "ns \<noteq> []" "node ns (Suc k) \<noteq> hd ns"
  shows "\<exists>us vs. ns = us @ node ns k # node ns (Suc k) # vs"
proof -
  define i where "i = k mod length ns"
  have i: "Suc k mod length ns = Suc i" "i < length ns"
    using assms by (auto simp: node_def mod_Suc hd_conv_nth i_def split: if_splits)
  have "Suc i < length ns" using assms(1) by (metis i(1) length_greater_0_conv mod_less_divisor)
  then have "ns = take i ns @ ns ! i # ns ! Suc i # drop (Suc (Suc i)) ns"
    by (simp add: Cons_nth_drop_Suc)
  then show ?thesis unfolding node_def i(1) i_def [symmetric] by blast
qed

lemma walk_to:
  assumes ok: "heap_ok h xs" and f: "freep h = Some f" and e: "e \<le> length xs"
    and small: "\<And>j. j < e \<Longrightarrow> hsize h (node (base_at h # xs) (Suc i + j)) < unat nu"
    and i: "node (base_at h # xs) i = f"
  shows "malloc_loop grow nu h f (hptr h f)
    = malloc_loop grow nu h (node (base_at h # xs) (i + e)) (node (base_at h # xs) (Suc (i + e)))"
proof -
  let ?ns = "base_at h # xs"
  have l: "lseg (hptr h) ?ns (hd ?ns)" using ok by (simp add: heap_ok_def)
  have nn: "hptr h (node ?ns k) = node ?ns (Suc k)" for k using node_next [OF l] by simp
  have "freep h \<noteq> Some (node ?ns (Suc i + j))" if "j < e" for j
  proof -
    have "(Suc i + j) mod length ?ns \<noteq> i mod length ?ns"
    proof
      assume "(Suc i + j) mod length ?ns = i mod length ?ns"
      then have "length ?ns dvd (Suc i + j) - i" by (metis le_add1 add_Suc_shift mod_eq_dvd_iff_nat)
      then have "length ?ns \<le> Suc j" by (auto dest: dvd_imp_le)
      then show False using that e by simp
    qed
    then show ?thesis using node_eq_iff [OF heap_ok_distinct [OF ok]] i f by (metis list.distinct(1) option.inject)
  qed
  with small have "\<forall>j<e. hsize h (node ?ns (Suc i + j)) < unat nu \<and> freep h \<noteq> Some (node ?ns (Suc i + j))" by blast
  from malloc_walk [of h "node ?ns", OF nn this] nn [of i] i show ?thesis by simp
qed

lemma walk_start:
  assumes "heap_ok h xs"
  obtains f i where "freep h = Some f" "node (base_at h # xs) i = f" "f \<in> set (base_at h # xs)"
proof -
  obtain f where f: "f \<in> set (base_at h # xs)" "freep h = Some f" using assms by (auto simp: heap_ok_def)
  then obtain i where "i < length (base_at h # xs)" "(base_at h # xs) ! i = f" by (metis in_set_conv_nth)
  then have "node (base_at h # xs) i = f" by (simp add: node_def)
  then show thesis using that f by blast
qed

lemma walk_covers:
  assumes "a \<in> set ns"
  shows "\<exists>j<length ns. node ns (Suc i + j) = a"
proof -
  obtain k where k: "k < length ns" "ns ! k = a" using assms by (metis in_set_conv_nth)
  define L m where "L = length ns" and "m = Suc i mod L"
  have L: "k < L" "0 < L" using k(1) unfolding L_def by linarith+
  have "m < L" unfolding m_def using L(2) by (rule mod_less_divisor)
  then have "m + (k + L - m) = k + L" by linarith
  then have "(m + (k + L - m)) mod L = k" using L(1) by simp
  then have "(Suc i + (k + L - m) mod L) mod L = k" by (simp only: m_def mod_add_left_eq mod_add_right_eq)
  moreover have "(k + L - m) mod L < L" using L(2) by (rule mod_less_divisor)
  ultimately show ?thesis unfolding node_def L_def [symmetric] using k(2)
    by (intro exI [of _ "(k + L - m) mod L"]) simp
qed

lemma malloc_found:
  assumes ok: "heap_ok h xs" and f: "freep h = Some f" and a: "a \<in> set xs" "unat nu \<le> hsize h a" and nu: "0 < unat nu"
  shows "\<exists>us pp p vs. base_at h # xs = us @ pp # p # vs \<and> unat nu \<le> hsize h p
    \<and> malloc_loop grow nu h f (hptr h f) = Some (case malloc_take h (unat nu) pp p of (r, h) \<Rightarrow> (Some r, h))"
proof -
  let ?ns = "base_at h # xs"
  obtain i where i: "node ?ns i = f" using walk_start [OF ok] f by (metis option.inject)
  define e where "e = (LEAST j. unat nu \<le> hsize h (node ?ns (Suc i + j)))"
  obtain j where j: "j < length ?ns" "unat nu \<le> hsize h (node ?ns (Suc i + j))"
    using walk_covers [of a ?ns i] a by auto
  have e: "unat nu \<le> hsize h (node ?ns (Suc i + e))" unfolding e_def by (rule LeastI) (rule j(2))
  have small: "hsize h (node ?ns (Suc i + k)) < unat nu" if "k < e" for k
    using not_less_Least [of k "\<lambda>j. unat nu \<le> hsize h (node ?ns (Suc i + j))"] that unfolding e_def by (simp only: not_le)
  have "e \<le> j" unfolding e_def by (rule Least_le) (rule j(2))
  then have "e \<le> length xs" using j(1) by simp
  from walk_to [OF ok f this small i]
  have w: "malloc_loop grow nu h f (hptr h f) = malloc_loop grow nu h (node ?ns (i + e)) (node ?ns (Suc (i + e)))" .
  have "node ?ns (Suc (i + e)) \<noteq> hd ?ns" using e nu ok by (auto simp: heap_ok_def)
  from node_split [OF _ this] obtain us vs where "?ns = us @ node ?ns (i + e) # node ?ns (Suc (i + e)) # vs" by blast
  moreover have "malloc_loop grow nu h (node ?ns (i + e)) (node ?ns (Suc (i + e)))
    = Some (case malloc_take h (unat nu) (node ?ns (i + e)) (node ?ns (Suc (i + e))) of (r, h) \<Rightarrow> (Some r, h))"
    using e by (subst malloc_loop.simps) (simp split: prod.split)
  ultimately show ?thesis using w e by (intro exI conjI) (assumption | simp)+
qed

lemma malloc_full:
  assumes ok: "heap_ok h xs" and f: "freep h = Some f" and a: "\<forall>a\<in>set xs. hsize h a < unat nu" and nu: "0 < unat nu"
  shows "malloc_loop grow nu h f (hptr h f) =
    (case morecore grow nu h of None \<Rightarrow> None | Some (None, h) \<Rightarrow> Some (None, h)
     | Some (Some p, h) \<Rightarrow> malloc_loop grow nu h p (hptr h p))"
proof -
  let ?ns = "base_at h # xs"
  obtain i where i: "node ?ns i = f" using walk_start [OF ok] f by (metis option.inject)
  have small: "hsize h (node ?ns k) < unat nu" for k
    using node_in [of ?ns k] a nu ok by (auto simp: heap_ok_def)
  have "node ?ns (Suc (i + length xs)) = f" 
    using i mod_add_self2 [of i "length ?ns"] unfolding node_def by (simp only: list.size add_Suc_right add_0_right)
  then show ?thesis
    using walk_to [OF ok f order_refl small i, of grow] small [of i] i f
    by (subst (asm) (2) malloc_loop.simps) (simp add: not_le [symmetric])
qed

lemma nunits_of_unat:
  assumes "unat nb < 2 ^ 31 - 15"
  shows "unat (nunits_of nb) = (unat nb + 7) div 8 + 1"
proof -
  have "nb + 8 - 1 = nb + 7" by simp
  then have "unat (nb + 8 - 1) = unat nb + 7" using assms by (simp only:) (simp add: unat_word_ariths)
  then have "unat ((nb + 8 - 1) div 8) = (unat nb + 7) div 8" by (simp add: unat_div)
  moreover have "(unat nb + 7) div 8 + 1 < 2 ^ 32" using assms by simp
  ultimately show ?thesis unfolding nunits_of_def by (simp add: unat_word_ariths)
qed

lemma sbrk_bytes:
  assumes "unat nu < 2 ^ 28"
  shows "sint (nu * 8 :: u32) = 8 * int (unat nu)"
proof -
  have "unat (nu * 8) = unat nu * 8" using assms by (simp add: unat_word_ariths)
  then have u: "uint (nu * 8) = 8 * int (unat nu)" by (metis mult.commute of_nat_mult of_nat_numeral uint_nat)
  have "int (unat nu) < 2 ^ 28" using assms by (simp del: of_nat_unat unat_eq_nat_uint)
  then show ?thesis unfolding sint_uint u by (intro signed_take_bit_int_eq_self) (simp_all del: unat_eq_nat_uint int_nat_eq of_nat_unat)
qed

lemma morecore_ok:
  assumes ok: "heap_ok h xs" and nu: "unat nu < 2 ^ 28" "0 < unat nu"
  shows "morecore grow nu h = Some (None, h) \<or>
    (\<exists>h' f ys. morecore grow nu h = Some (Some f, h') \<and> freep h' = Some f \<and> heap_ok h' ys \<and> base_at h' = base_at h
      \<and> ubrk h \<le> ubrk h' \<and> units h' ys = units h xs \<union> {ubrk h..<ubrk h'} \<and> (\<exists>a\<in>set ys. unat nu \<le> hsize h' a)
      \<and> (\<forall>a. a \<notin> insert (base_at h) (units h xs \<union> {ubrk h..<ubrk h'}) \<longrightarrow> hsize h' a = hsize h a))"
proof -
  define nu' where "nu' = (if nu < 4096 then 4096 else nu)"
  have n: "unat nu' < 2 ^ 28" "unat nu \<le> unat nu'" "0 < unat nu'" using nu by (auto simp: nu'_def word_less_nat_alt)
  define h1 where "h1 = h\<lparr>ubrk := ubrk h + unat nu', hsize := (hsize h)(ubrk h := unat nu')\<rparr>"
  have run: "morecore grow nu h = (if \<not> grow (ubrk h) (nu' * 8) then Some (None, h)
      else map_option (\<lambda>h. (freep h, h)) (ufree h1 (ubrk h + 1)))"
    unfolding morecore_def Let_def nu'_def [symmetric] sbrk_bytes [OF n(1)] h1_def
    by (simp add: nat_int_add del: of_nat_unat)
  have top: "a < ubrk h" if "a \<in> units h xs" for a
    using that heap_ok_size [OF ok] by (auto simp: units_def intro: less_le_trans)
  have bb: "base_at h < ubrk h" using ok by (simp add: heap_ok_def)
  have ne: "a \<noteq> ubrk h" if "a \<in> set (base_at h # xs)" for a using that heap_ok_size [OF ok, of a] bb by auto
  have sz: "hsize h1 a = hsize h a" if "a \<in> set (base_at h # xs)" for a using ne [OF that] by (simp add: h1_def)
  have "sorted_wrt (apart (hsize h)) (base_at h # xs)" using ok unfolding heap_ok_def by blast
  then have "sorted_wrt (apart (hsize h1)) (base_at h # xs)"
    by (rule sorted_wrt_mono_rel [rotated]) (auto simp: apart_def sz)
  moreover have "a + hsize h a \<le> ubrk h1" if "a \<in> set xs" for a using heap_ok_size [OF ok that] by (simp add: h1_def)
  moreover have fld: "hptr h1 = hptr h" "base_at h1 = base_at h" "freep h1 = freep h" "ubrk h1 = ubrk h + unat nu'"
    "hsize h1 (ubrk h) = unat nu'" by (simp_all add: h1_def)
  ultimately have ok1: "heap_ok h1 xs" using ok sz unfolding heap_ok_def by simp
  have u1: "units h1 xs = units h xs" using sz by (simp add: units_def)
  have "{ubrk h..<ubrk h + hsize h1 (ubrk h)} \<inter> units h1 xs = {}" using top unfolding u1 by (meson atLeastLessThan_iff disjoint_iff not_le)
  from ufree_ok [OF ok1 _ _ _ this] obtain h' ys where
    r: "ufree h1 (ubrk h + 1) = Some h'" "heap_ok h' ys" "units h' ys = units h xs \<union> {ubrk h..<ubrk h'}"
      "ubrk h' = ubrk h + unat nu'" "base_at h' = base_at h" "\<exists>a\<in>set ys. unat nu' \<le> hsize h' a"
      "\<forall>a. a \<notin> insert (base_at h) (units h xs \<union> {ubrk h..<ubrk h'}) \<longrightarrow> hsize h' a = hsize h1 a"
    using bb n(3) unfolding u1 fld by auto
  have "hsize h1 a = hsize h a" if "a \<notin> {ubrk h..<ubrk h'}" for a using that n(3) r(4) by (auto simp: h1_def)
  then have fr: "\<forall>a. a \<notin> insert (base_at h) (units h xs \<union> {ubrk h..<ubrk h'}) \<longrightarrow> hsize h' a = hsize h a" using r(7) by simp
  obtain f where f: "freep h' = Some f" using r(2) by (auto simp: heap_ok_def)
  have big: "\<exists>a\<in>set ys. unat nu \<le> hsize h' a" using r(6) n(2) order_trans by blast
  have le: "ubrk h \<le> ubrk h'" using r(4) by simp
  show ?thesis
  proof (cases "grow (ubrk h) (nu' * 8)")
    case True
    then have "morecore grow nu h = Some (Some f, h')" using run r(1) f by simp
    then show ?thesis using r(2,3,5) f fr big le by blast
  qed (simp add: run)
qed

text \<open>What a successful \<open>malloc\<close> does: the block \<open>ap - 1 \<dots> ap - 1 + n\<close> comes from the free units or from
  the new ones, and leaves the free list.\<close>

definition gives :: "uheap \<Rightarrow> nat list \<Rightarrow> nat \<Rightarrow> nat \<Rightarrow> uheap \<Rightarrow> bool" where
  "gives h xs n ap h' \<longleftrightarrow> 0 < ap \<and> hsize h' (ap - 1) = n \<and> base_at h' = base_at h \<and> ubrk h \<le> ubrk h'
     \<and> {ap - 1..<ap - 1 + n} \<subseteq> units h xs \<union> {ubrk h..<ubrk h'}
     \<and> (\<exists>ys. heap_ok h' ys \<and> units h' ys = (units h xs \<union> {ubrk h..<ubrk h'}) - {ap - 1..<ap - 1 + n})
     \<and> (\<forall>a. a \<notin> insert (base_at h) (units h xs \<union> {ubrk h..<ubrk h'}) \<longrightarrow> hsize h' a = hsize h a)"

lemma malloc_found_gives:
  assumes "heap_ok h xs" "freep h = Some f" "a \<in> set xs" "unat nu \<le> hsize h a" "0 < unat nu"
  shows "\<exists>ap h'. malloc_loop grow nu h f (hptr h f) = Some (Some ap, h') \<and> ubrk h' = ubrk h \<and> gives h xs (unat nu) ap h'"
proof -
  from malloc_found [OF assms] obtain us pp p vs where
    s: "base_at h # xs = us @ pp # p # vs" "unat nu \<le> hsize h p"
      "malloc_loop grow nu h f (hptr h f) = Some (case malloc_take h (unat nu) pp p of (r, h) \<Rightarrow> (Some r, h))" by blast
  obtain ap h' where r: "malloc_take h (unat nu) pp p = (ap, h')" by fastforce
  from malloc_take_ok [OF assms(1) s(1) assms(5) s(2) r] have "ubrk h' = ubrk h \<and> gives h xs (unat nu) ap h'"
    unfolding gives_def by auto
  then show ?thesis using s(3) r by simp
qed

lemma malloc_loop_ok:
  assumes ok: "heap_ok h xs" and f: "freep h = Some f" and nu: "unat nu < 2 ^ 28" "0 < unat nu"
  shows "malloc_loop grow nu h f (hptr h f) = Some (None, h) \<or>
    (\<exists>ap h'. malloc_loop grow nu h f (hptr h f) = Some (Some ap, h') \<and> gives h xs (unat nu) ap h')"
proof (cases "\<exists>a\<in>set xs. unat nu \<le> hsize h a")
  case True
  then show ?thesis using malloc_found_gives [OF ok f _ _ nu(2)] by blast
next
  case False
  then have run: "malloc_loop grow nu h f (hptr h f) = (case morecore grow nu h of None \<Rightarrow> None
     | Some (None, h) \<Rightarrow> Some (None, h) | Some (Some p, h) \<Rightarrow> malloc_loop grow nu h p (hptr h p))"
    using malloc_full [OF ok f _ nu(2)] by (simp add: not_le)
  from morecore_ok [OF ok nu, of grow] show ?thesis
  proof (elim disjE exE conjE)
    assume "morecore grow nu h = Some (None, h)"
    then show ?thesis using run by simp
  next
    fix h1 f1 ys
    assume m: "morecore grow nu h = Some (Some f1, h1)" "freep h1 = Some f1" "heap_ok h1 ys" "base_at h1 = base_at h"
      "ubrk h \<le> ubrk h1" "units h1 ys = units h xs \<union> {ubrk h..<ubrk h1}" "\<exists>a\<in>set ys. unat nu \<le> hsize h1 a"
      "\<forall>a. a \<notin> insert (base_at h) (units h xs \<union> {ubrk h..<ubrk h1}) \<longrightarrow> hsize h1 a = hsize h a"
    from m(7) malloc_found_gives [OF m(3,2) _ _ nu(2), of _ grow] obtain ap h' where
      g: "malloc_loop grow nu h1 f1 (hptr h1 f1) = Some (Some ap, h')" "ubrk h' = ubrk h1" "gives h1 ys (unat nu) ap h'"
      by blast
    have "gives h xs (unat nu) ap h'" 
      using g(3) m(5,8) unfolding gives_def m(4,6) g(2) atLeastLessThan_empty [OF order_refl] Un_empty_right by metis
    then show ?thesis using run m(1) g(1) by simp
  qed
qed

section \<open>A program that uses the heap\<close>

text \<open>
  \<open>live\<close> maps the pointers the program holds to the sizes it asked for. The program asks for blocks, frees blocks it
  holds, and writes what it likes into them: \<open>payload\<close> is the memory it may write, the headers excluded.
\<close>

definition blk :: "nat \<Rightarrow> u32 \<Rightarrow> nat set" where
  "blk ap nb = {ap - 1..<ap - 1 + unat (nunits_of nb)}"

definition payload :: "(nat \<rightharpoonup> u32) \<Rightarrow> nat set" where
  "payload live = {a. \<exists>ap nb. live ap = Some nb \<and> a \<in> blk ap nb - {ap - 1}}"

definition malloc_max :: nat where
  "malloc_max = 2 ^ 31 - 16"

inductive heap_use :: "(nat \<Rightarrow> u32 \<Rightarrow> bool) \<Rightarrow> uheap \<Rightarrow> (nat \<rightharpoonup> u32) \<Rightarrow> bool" for grow where
  start: "freep h = None \<Longrightarrow> base_at h < ubrk h \<Longrightarrow> heap_use grow h Map.empty"
| malloc: "heap_use grow h live \<Longrightarrow> unat nb \<le> malloc_max \<Longrightarrow> umalloc grow nb h = Some (Some ap, h')
    \<Longrightarrow> heap_use grow h' (live(ap \<mapsto> nb))"
| malloc_fail: "heap_use grow h live \<Longrightarrow> unat nb \<le> malloc_max \<Longrightarrow> umalloc grow nb h = Some (None, h')
    \<Longrightarrow> heap_use grow h' live"
| free: "heap_use grow h live \<Longrightarrow> live ap = Some nb \<Longrightarrow> ufree h ap = Some h' \<Longrightarrow> heap_use grow h' (live(ap := None))"
| store: "heap_use grow h live \<Longrightarrow> (\<And>a. a \<notin> payload live \<Longrightarrow> hp a = hptr h a \<and> hz a = hsize h a)
    \<Longrightarrow> heap_use grow (h\<lparr>hptr := hp, hsize := hz\<rparr>) live"

definition live_ok :: "uheap \<Rightarrow> nat list \<Rightarrow> nat \<Rightarrow> u32 \<Rightarrow> bool" where
  "live_ok h xs ap nb \<longleftrightarrow> base_at h < ap - 1 \<and> unat nb \<le> malloc_max \<and> hsize h (ap - 1) = unat (nunits_of nb)
     \<and> ap - 1 + unat (nunits_of nb) \<le> ubrk h \<and> blk ap nb \<inter> units h xs = {}"

definition lives_apart :: "(nat \<rightharpoonup> u32) \<Rightarrow> bool" where
  "lives_apart live \<longleftrightarrow> (\<forall>ap nb ap' nb'. live ap = Some nb \<longrightarrow> live ap' = Some nb' \<longrightarrow> ap \<noteq> ap' \<longrightarrow> blk ap nb \<inter> blk ap' nb' = {})"

definition heap_inv :: "uheap \<Rightarrow> (nat \<rightharpoonup> u32) \<Rightarrow> bool" where
  "heap_inv h live \<longleftrightarrow> (freep h = None \<and> base_at h < ubrk h \<and> live = Map.empty) \<or>
     (\<exists>xs. heap_ok h xs \<and> (\<forall>ap nb. live ap = Some nb \<longrightarrow> live_ok h xs ap nb) \<and> lives_apart live)"

lemma nunits_bounds:
  assumes "unat nb \<le> malloc_max"
  shows "unat (nunits_of nb) = (unat nb + 7) div 8 + 1" "0 < unat (nunits_of nb)" "unat (nunits_of nb) < 2 ^ 28"
    "unat nb \<le> 8 * (unat (nunits_of nb) - 1)"
proof -
  have m: "unat nb < 2 ^ 31 - 15" using assms by (simp add: malloc_max_def)
  show e: "unat (nunits_of nb) = (unat nb + 7) div 8 + 1" by (rule nunits_of_unat [OF m])
  show "0 < unat (nunits_of nb)" "unat (nunits_of nb) < 2 ^ 28" "unat nb \<le> 8 * (unat (nunits_of nb) - 1)"
    unfolding e using m by simp_all
qed

definition first_use :: "uheap \<Rightarrow> uheap" where
  "first_use h = h\<lparr>hptr := (hptr h)(base_at h := base_at h), freep := Some (base_at h), hsize := (hsize h)(base_at h := 0)\<rparr>"

lemma umalloc_cases:
  assumes "heap_inv h live" "unat nb \<le> malloc_max"
  obtains h0 xs where "heap_ok h0 xs" "\<And>ap nb. live ap = Some nb \<Longrightarrow> live_ok h0 xs ap nb" "lives_apart live"
    "umalloc grow nb h = Some (None, h0) \<or>
      (\<exists>ap h'. umalloc grow nb h = Some (Some ap, h') \<and> gives h0 xs (unat (nunits_of nb)) ap h')"
proof -
  note n = nunits_bounds [OF assms(2)]
  have run: "umalloc grow nb h0 = Some (None, h0) \<or>
      (\<exists>ap h'. umalloc grow nb h0 = Some (Some ap, h') \<and> gives h0 xs (unat (nunits_of nb)) ap h')"
    if ok: "heap_ok h0 xs" for h0 xs
  proof -
    obtain f where f: "freep h0 = Some f" using ok by (auto simp: heap_ok_def)
    then have "umalloc grow nb h0 = malloc_loop grow (nunits_of nb) h0 f (hptr h0 f)" by (simp add: umalloc_def)
    then show ?thesis using malloc_loop_ok [OF ok f n(3,2)] by metis
  qed
  show thesis
  proof (cases "freep h")
    case None
    then have h: "base_at h < ubrk h" "live = Map.empty" using assms(1) by (auto simp: heap_inv_def heap_ok_def)
    then have ok: "heap_ok (first_use h) []" by (simp add: heap_ok_def first_use_def)
    have "umalloc grow nb (first_use h) = umalloc grow nb h" using None by (simp add: umalloc_def first_use_def)
    then show thesis using that [OF ok] run [OF ok] h by (simp add: lives_apart_def)
  next
    case (Some f)
    then obtain xs where "heap_ok h xs" "\<forall>ap nb. live ap = Some nb \<longrightarrow> live_ok h xs ap nb" "lives_apart live"
      using assms(1) by (auto simp: heap_inv_def)
    then show thesis using that run by blast
  qed
qed

lemma live_facts:
  assumes "heap_ok h xs" "live_ok h xs ap nb"
  shows "ap - 1 \<in> blk ap nb" "blk ap nb \<subseteq> {base_at h<..<ubrk h}" "blk ap nb \<inter> units h xs = {}" "0 < ap"
  using assms(2) nunits_bounds(2) [of nb] by (auto simp: live_ok_def blk_def)

lemma units_range: "heap_ok h xs \<Longrightarrow> units h xs \<subseteq> {base_at h<..<ubrk h}"
  using heap_ok_size by (fastforce simp: units_def)

lemma live_ok_keep:
  assumes ok: "heap_ok h xs" and l: "live_ok h xs ap nb" and b: "base_at h' = base_at h" "ubrk h \<le> ubrk h'"
    and u: "units h' ys \<inter> blk ap nb = {}" and s: "hsize h' (ap - 1) = hsize h (ap - 1)"
  shows "live_ok h' ys ap nb"
  using l b u s unfolding live_ok_def by (auto simp: Int_commute)

lemma malloc_inv:
  assumes ok: "heap_ok h xs" and l: "\<And>ap nb. live ap = Some nb \<Longrightarrow> live_ok h xs ap nb" and ap: "lives_apart live"
    and nb: "unat nb \<le> malloc_max" and g: "gives h xs (unat (nunits_of nb)) p h'"
  shows "heap_inv h' (live(p \<mapsto> nb))"
proof -
  from g obtain ys where
    g: "0 < p" "hsize h' (p - 1) = unat (nunits_of nb)" "base_at h' = base_at h" "ubrk h \<le> ubrk h'"
      "blk p nb \<subseteq> units h xs \<union> {ubrk h..<ubrk h'}" "heap_ok h' ys"
      "units h' ys = (units h xs \<union> {ubrk h..<ubrk h'}) - blk p nb"
      "\<forall>a. a \<notin> insert (base_at h) (units h xs \<union> {ubrk h..<ubrk h'}) \<longrightarrow> hsize h' a = hsize h a"
    unfolding gives_def blk_def [symmetric] by blast
  have old: "blk q nc \<inter> (units h xs \<union> {ubrk h..<ubrk h'}) = {}" if "live q = Some nc" for q nc
    using live_facts(2,3) [OF ok l [OF that]] by force
  have keep: "live_ok h' ys q nc" if q: "live q = Some nc" for q nc
  proof (rule live_ok_keep [OF ok l [OF q] g(3,4)])
    show "units h' ys \<inter> blk q nc = {}" using old [OF q] g(7) by blast
    have "q - 1 \<notin> insert (base_at h) (units h xs \<union> {ubrk h..<ubrk h'})"
      using live_facts(1,2) [OF ok l [OF q]] old [OF q] by fastforce
    then show "hsize h' (q - 1) = hsize h (q - 1)" using g(8) by blast
  qed
  have base: "base_at h < ubrk h" using ok by (simp add: heap_ok_def)
  have pos: "0 < unat (nunits_of nb)" by (rule nunits_bounds(2) [OF nb])
  have "p - 1 \<in> blk p nb" "p - 1 + unat (nunits_of nb) - 1 \<in> blk p nb" using pos by (auto simp: blk_def)
  then have m: "p - 1 \<in> units h xs \<union> {ubrk h..<ubrk h'}" "p - 1 + unat (nunits_of nb) - 1 \<in> units h xs \<union> {ubrk h..<ubrk h'}"
    using g(5) by blast+
  have "base_at h < p - 1" using m(1) units_range [OF ok] base by fastforce
  moreover have "p - 1 + unat (nunits_of nb) - 1 < ubrk h'" using m(2) units_range [OF ok] g(4) by fastforce
  then have "p - 1 + unat (nunits_of nb) \<le> ubrk h'" using pos by linarith
  moreover have "blk p nb \<inter> units h' ys = {}" using g(7) by blast
  ultimately have new: "live_ok h' ys p nb" using g(2,3) nb by (simp add: live_ok_def)
  have "blk q nc \<inter> blk p nb = {}" if "live q = Some nc" for q nc using old [OF that] g(5) by blast
  then have "lives_apart (live(p \<mapsto> nb))"
    using ap unfolding lives_apart_def by (auto simp: Int_commute split: if_splits)
  then show ?thesis using g(6) keep new unfolding heap_inv_def by (intro disjI2 exI [of _ ys]) simp
qed

lemma free_inv:
  assumes inv: "heap_inv h live" and a: "live ap = Some nb"
  shows "\<exists>h'. ufree h ap = Some h' \<and> heap_inv h' (live(ap := None))"
proof -
  from inv a obtain xs where ok: "heap_ok h xs" and l: "\<And>ap nb. live ap = Some nb \<Longrightarrow> live_ok h xs ap nb"
    and apt: "lives_apart live" unfolding heap_inv_def by auto
  have lo: "live_ok h xs ap nb" by (rule l [OF a])
  define bp where "bp = ap - 1"
  have bp: "base_at h < bp" "0 < hsize h bp" "bp + hsize h bp \<le> ubrk h" "{bp..<bp + hsize h bp} = blk ap nb" "bp + 1 = ap"
    using lo nunits_bounds(2) [of nb] by (auto simp: live_ok_def bp_def blk_def)
  have "{bp..<bp + hsize h bp} \<inter> units h xs = {}" using live_facts(3) [OF ok lo] bp(4) by simp
  from ufree_ok [OF ok bp(1-3) this] obtain h' ys where
    r: "ufree h ap = Some h'" "heap_ok h' ys" "units h' ys = units h xs \<union> blk ap nb" "ubrk h' = ubrk h" "base_at h' = base_at h"
      "\<forall>a. a \<notin> insert (base_at h) (units h xs \<union> blk ap nb) \<longrightarrow> hsize h' a = hsize h a"
    unfolding bp(4,5) by blast
  have keep: "live_ok h' ys q nc" if q: "live q = Some nc" "q \<noteq> ap" for q nc
  proof (rule live_ok_keep [OF ok l [OF q(1)] r(5)])
    have d: "blk q nc \<inter> blk ap nb = {}" using apt q a unfolding lives_apart_def by blast
    then show "units h' ys \<inter> blk q nc = {}" using r(3) live_facts(3) [OF ok l [OF q(1)]] by blast
    have "q - 1 \<notin> insert (base_at h) (units h xs \<union> blk ap nb)"
      using live_facts(1-3) [OF ok l [OF q(1)]] d by fastforce
    then show "hsize h' (q - 1) = hsize h (q - 1)" using r(6) by blast
  qed (simp add: r(4))
  have "lives_apart (live(ap := None))" using apt unfolding lives_apart_def by auto
  then have "heap_inv h' (live(ap := None))"
    using r(2) keep unfolding heap_inv_def by (intro disjI2 exI [of _ ys]) simp
  then show ?thesis using r(1) by blast
qed

lemma store_inv:
  assumes inv: "heap_inv h live" and w: "\<And>a. a \<notin> payload live \<Longrightarrow> hp a = hptr h a \<and> hz a = hsize h a"
  shows "heap_inv (h\<lparr>hptr := hp, hsize := hz\<rparr>) live"
proof (cases "freep h")
  case None
  then show ?thesis using inv by (auto simp: heap_inv_def heap_ok_def)
next
  case (Some f)
  with inv obtain xs where ok: "heap_ok h xs" and l: "\<And>ap nb. live ap = Some nb \<Longrightarrow> live_ok h xs ap nb"
    and apt: "lives_apart live" unfolding heap_inv_def by auto
  let ?h = "h\<lparr>hptr := hp, hsize := hz\<rparr>"
  have np: "a \<notin> payload live" if a: "a \<in> insert (base_at h) (units h xs)" for a
    using live_facts(2,3) [OF ok l] a unfolding payload_def by fastforce
  have nodes: "hp a = hptr h a \<and> hz a = hsize h a" if a: "a \<in> set (base_at h # xs)" for a
    using a heap_ok_size [OF ok, of a] by (intro w np) (auto simp: units_def)
  have "lseg hp (base_at h # xs) (base_at h)"
    using ok nodes unfolding heap_ok_def by (blast intro: lseg_cong)
  moreover have "sorted_wrt (apart hz) (base_at h # xs)"
    by (rule sorted_wrt_mono_rel [of _ "apart (hsize h)"]) (use ok nodes in \<open>auto simp: heap_ok_def apart_def\<close>)
  ultimately have ok': "heap_ok ?h xs" using ok nodes unfolding heap_ok_def by simp
  have u: "units ?h xs = units h xs" using nodes by (simp add: units_def)
  have "live_ok ?h xs q nc" if q: "live q = Some nc" for q nc
  proof (rule live_ok_keep [OF ok l [OF q]])
    show "units ?h xs \<inter> blk q nc = {}" using u live_facts(3) [OF ok l [OF q]] by blast
    have "q - 1 \<notin> payload live"
    proof
      assume "q - 1 \<in> payload live"
      then obtain r nd where r: "live r = Some nd" "q - 1 \<in> blk r nd" "q - 1 \<noteq> r - 1" by (auto simp: payload_def)
      then have "blk q nc \<inter> blk r nd = {}" using apt q unfolding lives_apart_def by blast
      then show False using r(2) live_facts(1) [OF ok l [OF q]] by blast
    qed
    then show "hsize ?h (q - 1) = hsize h (q - 1)" using w by simp
  qed simp_all
  then show ?thesis using ok' apt unfolding heap_inv_def by blast
qed

lemma heap_use_inv: "heap_use grow h live \<Longrightarrow> heap_inv h live"
proof (induction rule: heap_use.induct)
  case (start h)
  then show ?case by (simp add: heap_inv_def)
next
  case (malloc h live nb ap h')
  from malloc.IH malloc.hyps(2) show ?case
  proof (rule umalloc_cases [where grow = grow])
    fix h0 xs
    assume a: "heap_ok h0 xs" "\<And>ap nb. live ap = Some nb \<Longrightarrow> live_ok h0 xs ap nb" "lives_apart live"
      "umalloc grow nb h = Some (None, h0) \<or>
        (\<exists>ap h'. umalloc grow nb h = Some (Some ap, h') \<and> gives h0 xs (unat (nunits_of nb)) ap h')"
    then have "gives h0 xs (unat (nunits_of nb)) ap h'" using malloc.hyps(3) by simp
    with a(1-3) malloc.hyps(2) show ?thesis by (rule malloc_inv)
  qed
next
  case (malloc_fail h live nb h')
  from malloc_fail.IH malloc_fail.hyps(2) show ?case
    by (rule umalloc_cases [where grow = grow]) (use malloc_fail.hyps(3) in \<open>auto simp: heap_inv_def\<close>)
next
  case (free h live ap nb h')
  with free_inv [OF free.IH free.hyps(2)] show ?case by (auto simp only: option.inject)
next
  case (store h live hp hz)
  then show ?case using store_inv by blast
qed

lemma malloc_returns:
  assumes "heap_inv h live" "unat nb \<le> malloc_max"
  shows "\<exists>r h'. umalloc grow nb h = Some (r, h')"
  by (rule umalloc_cases [OF assms, where grow = grow]) auto

text \<open>Sizes near the top of the 32-bit range: the request wraps around and a block without room is returned.\<close>

lemma nunits_wraps: "nunits_of 0xFFFFFFFF = 1" "nunits_of 0xFFFFFFF9 = 1"
  by (simp_all add: nunits_of_def)

end
