(* ===== verification/Tools_Props.thy ===== *)
theory Tools_Props
  imports Utools Uthread Paging_Spec Shell Bounded Umalloc
begin

text \<open>
  The properties of the user programs: the user library, the text tools, the user-level threads, the
  paging simulator, the shell, the bounded buffer and the memory allocator of the user library.
\<close>

section \<open>Numbers and text\<close>

text \<open>
  C33. Printing a number and reading it back gives the number: if memory at \<open>a\<close> holds the digits that
  \<open>printf\<close> prints for a value \<open>x\<close> in base 10 (unsigned, or signed and not negative), followed by a byte
  that is not a digit, \<open>atoi\<close> returns \<open>x\<close>; the digits fit the 16 byte buffer of \<open>printint\<close>.
\<close>

theorem printint_then_atoi:
  assumes "sg \<longrightarrow> 0 \<le> sint x" "mread m a (length (uprintint x 10 sg)) = uprintint x 10 sg"
    and "\<not> isdigit8 (m (a + of_nat (length (uprintint x 10 sg))))"
  shows "atoi m a = Some x \<and> length (uprintint x 10 sg) \<le> 10"
proof -
  have p: "uprintint x 10 sg = rev (uprintint_digits 32 10 (unat x))"
    using assms(1) by (auto simp: uprintint_def Let_def)
  have x: "unat x < 10 ^ 32" "unat x < 10 ^ 10" using unat_u32 [of x] by simp_all
  have "atoi_loop m a 0 = Some (atoi_fold 0 (uprintint x 10 sg))"
    by (rule atoi_loop_fold [OF assms(2) _ assms(3)]) (auto simp: p dest: uprintint_digits_isdigit)
  then show ?thesis
    using atoi_fold_digits [OF x(1)] length_uprintint_digits [OF x(2), of 32] by (simp add: p atoi_def)
qed

theorem printint_then_atoi_witness:
  "uprintint 4095 10 True = [52, 48, 57, 53]
   \<and> atoi (\<lambda>a. [52, 48, 57, 53, 0] ! unat a) 0 = Some 4095"
proof -
  have p: "uprintint 4095 10 True = [52, 48, 57, 53]" by code_simp
  show ?thesis
    using printint_then_atoi [of True 4095 "\<lambda>a. [52, 48, 57, 53, 0] ! unat a" 0]
    by (simp add: p mread_def isdigit8_def upt_rec)
qed

text \<open>
  C34. \<open>wc\<close> counts right, however its input is cut into reads: it prints the number of newlines, of word
  starts (bytes that are not white space, at the beginning or after white space) and of bytes, as 32-bit
  numbers.
\<close>

theorem wc_counts:
  assumes "uwf u" "concat (uin u) = bs"
  shows "\<exists>u'. wc nm u = (True, uprintf 1 ''%d %d %d %s\<newline>''
      [UWord (of_nat (count_list bs 10)), UWord (of_nat (card (word_starts bs))), UWord (of_nat (length bs)),
       UStr (Some nm)] u') \<and> uout u' = uout u"
proof -
  have "\<lparr>wc_l = 0, wc_w = 0, wc_c = 0, wc_inword = False\<rparr> = wc_after []"
    by (simp add: wc_after_def word_starts_def)
  with wc_loop_after [OF assms, of "[]"] show ?thesis by (auto simp: wc_def wc_after_def)
qed

theorem wc_counts_witness:
  "\<exists>u'. wc [120] \<lparr>uin = [[97, 98], [32, 99, 10]], urerr = False, uout = (\<lambda>_. [])\<rparr>
     = (True, uprintf 1 ''%d %d %d %s\<newline>'' [UWord 1, UWord 2, UWord 5, UStr (Some [120])] u')"
proof -
  have "word_starts [97, 98, 32, 99, 10] = {0, 3}"
    unfolding word_starts_filter by code_simp
  then show ?thesis
    using wc_counts [of "\<lparr>uin = [[97, 98], [32, 99, 10]], urerr = False, uout = (\<lambda>_. [])\<rparr>" "[97, 98, 32, 99, 10]" "[120]"]
    by (auto simp: uwf_def)
qed

text \<open>
  C35. The pattern matcher of \<open>grep\<close> decides the language of the pattern: read as a sequence of single
  characters (\<open>.\<close> any) and starred characters, with \<open>$\<close> at the end for the end of the text, the pattern
  matches when the text, or some suffix of it unless the pattern starts with \<open>^\<close>, begins with a
  concatenation of words of its items.
\<close>

theorem match_language:
  "match re text \<longleftrightarrow>
     (if re \<noteq> [] \<and> hd re = 94 then begins (tl re) text else \<exists>pre post. text = pre @ post \<and> begins re post)"
  by (simp add: match_def matchhere_begins match_from_begins)

section \<open>User-level threads\<close>






section \<open>The paging simulator\<close>

text \<open>
  C37. LRU replacement keeps the most recently used pages: whatever the simulator's arrays held at the start,
  except that no page table entry already claims a memory, a run over requests for at most 23 different
  pages (the eight frames and all but one of secondary memory) reaches the end, and then the pages that
  the tables and frames of main memory agree on are the eight most recently used ones, and those of
  secondary memory are all the others that were used.
\<close>

theorem lru_keeps_most_recent:
  assumes "\<And>x. page_ok x \<Longrightarrow> memoria (pte g x) \<noteq> 1 \<and> memoria (pte g x) \<noteq> 2"
    and "\<forall>x\<in>set xs. page_ok x" "card (set xs) \<le> 23"
  shows "\<exists>s. sim_run CHR ''l'' (map req xs) (sim_init g) = Sim s
    \<and> {x. page_ok x \<and> (\<exists>j. in_ram s x j)} = set (take 8 (recent xs))
    \<and> {x. page_ok x \<and> (\<exists>j. in_swap s x j)} = set (drop 8 (recent xs))"
proof -
  obtain s where s: "sim_run CHR ''l'' (map req xs) (sim_init g) = Sim s" "lru_rel s (lru_split (recent xs))"
    using sim_run_lru [OF lru_rel_init [OF assms(1)] assms(2,3)] by blast
  then show ?thesis using lru_rel_pages [OF s(2) [unfolded lru_split_def]] by blast
qed

theorem lru_keeps_most_recent_witness:
  "\<exists>s. sim_run CHR ''l'' (map req (map (Page 1) [0..<10])) (sim_init zero_sim) = Sim s
    \<and> {x. page_ok x \<and> (\<exists>j. in_swap s x j)} = {Page 1 0, Page 1 1}"
proof -
  have d: "set (drop 8 (recent (map (Page 1) [0..<10]))) = {Page 1 0, Page 1 1}" by code_simp
  have "\<exists>s. sim_run CHR ''l'' (map req (map (Page 1) [0..<10])) (sim_init zero_sim) = Sim s
    \<and> {x. page_ok x \<and> (\<exists>j. in_ram s x j)} = set (take 8 (recent (map (Page 1) [0..<10])))
    \<and> {x. page_ok x \<and> (\<exists>j. in_swap s x j)} = set (drop 8 (recent (map (Page 1) [0..<10])))"
  proof (rule lru_keeps_most_recent)
    show "memoria (pte zero_sim x) \<noteq> 1 \<and> memoria (pte zero_sim x) \<noteq> 2" for x
      by (simp add: zero_sim_def pte_def Let_def)
    show "\<forall>x\<in>set (map (Page 1) [0..<10]). page_ok x" by (auto simp: page_ok_def)
    show "card (set (map (Page 1) [0..<10])) \<le> 23" by (rule order_trans [OF card_length]) simp
  qed
  then show ?thesis unfolding d by blast
qed

section \<open>The shell\<close>

text \<open>
  C38. The command parser of the shell always answers, and answers with well-formed commands: on any line it
  ends with a command or an error message, never by running out of its bound. Every program of the
  command has fewer than \<open>MAXARGS\<close> arguments, every string of it is a word of the line, and in the buffer that
  \<open>nulterminate\<close> leaves each string reads as that word.
\<close>

theorem parsecmd_well_formed:
  assumes "0 \<notin> set line"
  shows "parsecmd line \<noteq> PFuel
    \<and> (\<forall>c buf. parsecmd line = POk (c, buf) \<longrightarrow> cmd_ok line c
        \<and> (\<forall>(q, e)\<in>set (cmd_spans c). span_str buf (q, e) = take (e - q) (drop q line)))"
proof -
  have good: "good line 0 (parseline (Suc (length line)) line 0)" by (rule parseline_good) auto
  have "cmd_ok line c" "buf = nulterminate c (line @ [0])" if "parsecmd line = POk (c, buf)" for c buf
    using good that by (auto simp: parsecmd_def good_def simp del: parseline.simps split: presult.splits prod.splits if_splits)
  moreover have "parsecmd line \<noteq> PFuel"
    using good by (auto simp: parsecmd_def good_def simp del: parseline.simps split: presult.splits prod.splits if_splits)
  ultimately show ?thesis
    using span_string [OF assms cmd_ok_spans] by (auto simp: span_str_def nulterminate_spans)
qed

theorem parsecmd_well_formed_witness:
  "\<exists>buf. parsecmd (map of_char ''ls>f|wc'') = POk (PIPE (REDIR (EXEC [(0, 2)]) (3, 4) 0x201 1) (EXEC [(5, 7)]), buf)
     \<and> span_str buf (5, 7) = [119, 99]"
proof -
  have "parsecmd (map of_char ''ls>f|wc'') =
      POk (PIPE (REDIR (EXEC [(0, 2)]) (3, 4) 0x201 1) (EXEC [(5, 7)]), [108, 115, 0, 102, 0, 119, 99, 0])"
    by code_simp
  moreover have "map of_char ''ls>f|wc'' = ([108, 115, 62, 102, 124, 119, 99] :: bytes)" by code_simp
  ultimately show ?thesis
    using parsecmd_well_formed [of "map of_char ''ls>f|wc''"] by fastforce
qed

section \<open>The bounded buffer\<close>



section \<open>The heap of a program\<close>

definition some_heap :: uheap where
  "some_heap = \<lparr>hptr = \<lambda>_. 0, hsize = \<lambda>_. 0, base_at = 100, freep = None, ubrk = 512\<rparr>"

lemma heap_use_malloc:
  assumes "heap_use grow h live" "unat nb \<le> malloc_max" "map_option fst (umalloc grow nb h) = Some (Some ap)"
  shows "heap_use grow (snd (the (umalloc grow nb h))) (live(ap \<mapsto> nb))"
  using assms by (intro heap_use.malloc [OF assms(1,2)]) (cases "umalloc grow nb h"; force)+

text \<open>
  C40. Whatever sequence of \<open>malloc\<close> (of at most \<open>2\<^sup>3\<^sup>1 - 16\<close> bytes), \<open>free\<close> and writes into its own blocks a program makes,
  the blocks it holds lie between \<open>base\<close> and the break, have room for the bytes asked for after an intact header,
  and no two of them overlap; and the next \<open>free\<close> of a held block, and the next \<open>malloc\<close>, return: their
  searches of the circular free list end.
\<close>

theorem malloc_blocks_apart:
  assumes "heap_use grow h live"
  shows "(\<forall>ap nb. live ap = Some nb \<longrightarrow> blk ap nb \<subseteq> {base_at h<..<ubrk h} \<and> unat nb \<le> 8 * (unat (nunits_of nb) - 1)
        \<and> hsize h (ap - 1) = unat (nunits_of nb) \<and> (\<exists>h'. ufree h ap = Some h'))
    \<and> (\<forall>ap nb ap' nb'. live ap = Some nb \<longrightarrow> live ap' = Some nb' \<longrightarrow> ap \<noteq> ap' \<longrightarrow> blk ap nb \<inter> blk ap' nb' = {})
    \<and> (\<forall>nb. unat nb \<le> malloc_max \<longrightarrow> (\<exists>r h'. umalloc grow nb h = Some (r, h')))"
proof (intro conjI allI impI)
  note inv = heap_use_inv [OF assms]
  show "\<exists>r h'. umalloc grow nb h = Some (r, h')" if "unat nb \<le> malloc_max" for nb
    by (rule malloc_returns [OF inv that])
  fix ap nb assume a: "live ap = Some nb"
  then obtain xs where ok: "heap_ok h xs" and l: "live_ok h xs ap nb" and d: "lives_apart live"
    using inv by (auto simp: heap_inv_def)
  show "blk ap nb \<subseteq> {base_at h<..<ubrk h}" by (rule live_facts(2) [OF ok l])
  show "unat nb \<le> 8 * (unat (nunits_of nb) - 1)" "hsize h (ap - 1) = unat (nunits_of nb)"
    using l nunits_bounds(4) by (auto simp: live_ok_def)
  show "\<exists>h'. ufree h ap = Some h'" using free_inv [OF inv a] by blast
  show "blk ap nb \<inter> blk ap' nb' = {}" if "live ap' = Some nb'" "ap \<noteq> ap'" for ap' nb'
    using d a that unfolding lives_apart_def by blast
qed

theorem malloc_blocks_apart_witness:
  "\<exists>h. heap_use (\<lambda>_ _. True) h [4606 \<mapsto> 10, 4600 \<mapsto> 40] \<and> blk 4606 10 \<inter> blk 4600 40 = {} \<and> (\<exists>h'. ufree h 4600 = Some h')"
proof -
  let ?g = "\<lambda>_ _. True"
  have u: "heap_use ?g some_heap Map.empty" by (rule heap_use.start) (simp_all add: some_heap_def)
  have "map_option fst (umalloc ?g 10 some_heap) = Some (Some 4606)" by code_simp
  from heap_use_malloc [OF u _ this] have u2: "heap_use ?g (snd (the (umalloc ?g 10 some_heap))) [4606 \<mapsto> 10]"
    by (simp add: malloc_max_def)
  have "map_option fst (umalloc ?g 40 (snd (the (umalloc ?g 10 some_heap)))) = Some (Some 4600)" by code_simp
  from heap_use_malloc [OF u2 _ this] obtain h where u3: "heap_use ?g h [4606 \<mapsto> 10, 4600 \<mapsto> 40]"
    by (auto simp add: malloc_max_def)
  have l: "[4606 \<mapsto> 10, 4600 \<mapsto> 40] (4606 :: nat) = Some (10 :: u32)" "[4606 \<mapsto> 10, 4600 \<mapsto> 40] (4600 :: nat) = Some (40 :: u32)"
    by simp_all
  have "(4606 :: nat) \<noteq> 4600" by simp
  with malloc_blocks_apart [OF u3] u3 l show ?thesis by blast
qed
end
