(* ===== verification/Spec2Isabelle.thy ===== *)
theory Spec2Isabelle
  imports Fs_Props Image_Props Kernel_Props Io_Props User_Props Tools_Props
begin

text \<open>
  A verification of the xv6 kernel of this repository (\<^verbatim>\<open>src/xv6\<close>), of its user programs and user library,
  and of laboratory programs that build on them (\<^verbatim>\<open>src/lab-05\<close>, \<^verbatim>\<open>src/lab-07\<close>).

  \<^bold>\<open>The program.\<close> A process enters the kernel through \<open>trap\<close> (\<^verbatim>\<open>trap.c\<close>), which runs \<open>syscall\<close>
  (\<^verbatim>\<open>syscall.c\<close>) or an interrupt handler. The system calls (\<^verbatim>\<open>sysfile.c\<close>, \<^verbatim>\<open>sysproc.c\<close>) fetch their arguments from
  user memory and call the layers below: open files (\<^verbatim>\<open>file.c\<close>) over pipes (\<^verbatim>\<open>pipe.c\<close>), the console
  (\<^verbatim>\<open>console.c\<close>, \<^verbatim>\<open>kbd.c\<close>) and inodes (\<^verbatim>\<open>fs.c\<close>); inodes over the write-ahead log (\<^verbatim>\<open>log.c\<close>); the log over the
  buffer cache (\<^verbatim>\<open>bio.c\<close>); the cache over the disk (\<^verbatim>\<open>memide.c\<close>). Processes (\<^verbatim>\<open>proc.c\<close>, \<^verbatim>\<open>exec.c\<close>) own page tables
  (\<^verbatim>\<open>vm.c\<close>) made of pages of the allocator (\<^verbatim>\<open>kalloc.c\<close>). All of them synchronise by spin locks
  (\<^verbatim>\<open>spinlock.c\<close>), by \<open>sleep\<close> and \<open>wakeup\<close> (\<^verbatim>\<open>proc.c\<close>), and by sleep locks (\<^verbatim>\<open>sleeplock.c\<close>). User programs
  use the kernel through \<open>read\<close>, \<open>write\<close>, \<open>sbrk\<close> and the like.

  \<^bold>\<open>How the code is represented.\<close>
  \<^item> A kernel function is a function in the monad of \<open>KMonad\<close>: from a state to an outcome \<open>Ret\<close> (value and
    state), \<open>Panic\<close>, \<open>Switch\<close> (the CPU is given away in \<open>sched\<close>), \<open>Hang\<close> (it spins for ever) or \<open>Undef\<close>
    (undefined behaviour of C: an index outside an array, a null pointer). The state is one record that every layer extends with its
    own variables. Properties about returning are stated with \<open>wp\<close>, which demands the outcome \<open>Ret\<close>.
  \<^item> A call that can sleep ends with \<open>Switch\<close>. What it does when the process runs again is a definition of
    its own (\<open>acquiresleep_resume\<close>, \<open>begin_op_resume\<close>, \<open>pipewrite_resume\<close>, \<open>piperead_resume\<close>, \<open>wait_resume\<close>, \<open>sys_sleep_resume\<close>, \<open>scheduler_resume\<close>),
    and the loop body both share ends in \<open>_try\<close>. Other processes may change the state in between.
  \<^item> Pointers into the kernel's tables are indices; physical memory, page tables and the free list of pages
    are bytes and words at addresses, as in the code. Machine integers are words of their width.
  \<^item> User programs run over an explicit state of their own: the files they read and write (\<open>Uio\<close>), a heap
    (\<open>Umalloc\<close>), memory and registers (\<open>Uthread\<close>). Two concurrent threads are a step relation (\<open>Bounded\<close>), as are
    several CPUs on a spin lock (\<open>spin_step\<close>).

  \<^bold>\<open>The theories, from the bottom up.\<close>
  \<^item> \<open>Prelude\<close>: machine types, little-endian layout, reads and writes inside byte lists, shared list lemmas.
    \<open>KMonad\<close>: the monad, its rules \<open>kwp\<close> (total correctness) and \<open>keeps_rules\<close> (invariants). \<open>Ring\<close>: circular doubly
    linked lists. \<open>Fifo\<close>: the contract of a bounded queue as the locale \<open>fifo\<close>, interpreted on the pipe
    (\<open>pipeq\<close>, in \<open>Pipe\<close>) and on the console input buffer (\<open>conq\<close>, in \<open>Console_Line\<close>).
  \<^item> \<open>Spinlock\<close>, \<open>Proc_Table\<close>, \<open>Sleeplock\<close>: \<^verbatim>\<open>spinlock.c\<close>, the process table with \<open>sched\<close>, \<open>sleep\<close>,
    \<open>wakeup\<close>, \<open>kill\<close> and the scheduler of \<^verbatim>\<open>proc.c\<close>, \<^verbatim>\<open>sleeplock.c\<close>. Mutual exclusion, no lost wakeup, hand-over.
  \<^item> \<open>Kstring\<close>: \<^verbatim>\<open>string.c\<close> and the string functions of \<^verbatim>\<open>ulib.c\<close>, over memory.
  \<^item> \<open>Kalloc\<close>: \<^verbatim>\<open>kalloc.c\<close>; the chain of free pages refines a stack.
  \<^item> \<open>Bio\<close>, \<open>Bio_View\<close>: \<^verbatim>\<open>bio.c\<close> and \<^verbatim>\<open>memide.c\<close>; what a client sees through the cache.
  \<^item> \<open>Log\<close>, \<open>Log_Spec\<close>, \<open>Log_Crash\<close>: \<^verbatim>\<open>log.c\<close>; its disk writes in order, recovery, and crash safety.
  \<^item> \<open>Inode\<close>, \<open>Fs\<close>: \<^verbatim>\<open>fs.c\<close> (bitmap, inodes; contents, directories, paths). \<open>Trans\<close>, \<open>Inode_Spec\<close>, \<open>Fs_Spec\<close>,
    \<open>Dir_Spec\<close>: the rules of code inside a transaction, and what the operations do to the blocks it sees.
  \<^item> \<open>Mkfs\<close>, \<open>Mkfs_Spec\<close>: \<^verbatim>\<open>mkfs.c\<close>, which makes the first image; the invariant of the image and when the program finishes.
  \<^item> \<open>Console\<close>, \<open>Console_Line\<close>, \<open>Kbd\<close>: \<^verbatim>\<open>console.c\<close>, \<^verbatim>\<open>kbd.c\<close>; refinement of a line editor.
  \<^item> \<open>Pipe\<close>, \<open>File\<close>: \<^verbatim>\<open>pipe.c\<close>, \<^verbatim>\<open>file.c\<close>. \<open>Vm\<close>, \<open>Vm_Spec\<close>: \<^verbatim>\<open>vm.c\<close>; page tables as partial maps.
  \<^item> \<open>Proc\<close>, \<open>Exec\<close>: the rest of \<^verbatim>\<open>proc.c\<close>, \<^verbatim>\<open>exec.c\<close>. \<open>Sysargs\<close>, \<open>Sysfile\<close>, \<open>Trap\<close>: \<^verbatim>\<open>syscall.c\<close>, \<^verbatim>\<open>sysfile.c\<close>,
    \<^verbatim>\<open>sysproc.c\<close>, \<^verbatim>\<open>trap.c\<close>.
  \<^item> \<open>Uio\<close>, \<open>Utools\<close>, \<open>Shell\<close>: \<^verbatim>\<open>printf.c\<close>, \<open>gets\<close>; \<^verbatim>\<open>wc.c\<close>, \<^verbatim>\<open>cat.c\<close>, \<^verbatim>\<open>echo.c\<close>, \<^verbatim>\<open>grep.c\<close>; \<^verbatim>\<open>sh.c\<close>.
    \<open>Uthread\<close>: \<^verbatim>\<open>uthreadlib.c\<close>, \<^verbatim>\<open>uthread_switch.S\<close>. \<open>Umalloc\<close>: \<^verbatim>\<open>umalloc.c\<close>.
  \<^item> \<open>Paging\<close>, \<open>Paging_Spec\<close>: \<^verbatim>\<open>src/lab-07/sim.c\<close> and its refinement of LRU replacement. \<open>Bounded\<close>:
    \<^verbatim>\<open>src/lab-05/buf.c\<close>.
  \<^item> \<open>Example\<close>: concrete kernel states, on which the hypotheses of the properties hold.

  \<^bold>\<open>The properties.\<close> \<open>Fs_Props\<close> and \<open>Image_Props\<close> (C1 to C9): crash safety of the log, allocation of blocks, files, directories,
  inodes, and the image of \<open>mkfs\<close> read by the kernel. \<open>Kernel_Props\<close> (C10 to C22): locks, sleeping, scheduling, processes, pages, memory routines. \<open>Io_Props\<close> (C23 to C28):
  pipes, console, keyboard. \<open>User_Props\<close> (C29 to C32): address spaces, system call arguments, open files. \<open>Tools_Props\<close>
  (C33 to C40): the user library, tools, threads, shell, allocator and the laboratory programs.

  \<^bold>\<open>Bounds and fuel.\<close> Loops are structural recursion over what they scan (table indices, offsets,
  descriptors), or \<open>function\<close>s with a termination proof. Loops that end only under an invariant are \<open>partial_function\<close>s whose value \<open>None\<close> is
  not returning; C33 and C40 show that \<open>atoi\<close>, \<open>malloc\<close> and \<open>free\<close> return. The one fuel argument is the nesting
  depth of the parser of the shell: the length of the line is enough, as C38 shows. \<open>umalloc\<close> is specified up to
  \<open>malloc_max\<close> bytes, the largest request for which the arithmetic of \<^verbatim>\<open>umalloc.c\<close> does not wrap and \<open>sbrk\<close> does not see a negative
  number.

  \<^bold>\<open>Not modelled.\<close>
  \<^item> Start-up and devices (\<^verbatim>\<open>main.c\<close>, \<^verbatim>\<open>bootmain.c\<close>, \<^verbatim>\<open>mp.c\<close>, \<^verbatim>\<open>lapic.c\<close>, \<^verbatim>\<open>ioapic.c\<close>, \<^verbatim>\<open>picirq.c\<close>, \<^verbatim>\<open>uart.c\<close>, the assembly files
    but \<^verbatim>\<open>uthread_switch.S\<close>): port and memory-mapped I/O whose effect is in the hardware.
  \<^item> \<^verbatim>\<open>usertests.c\<close>, \<^verbatim>\<open>forktest.c\<close>, \<^verbatim>\<open>stressfs.c\<close>: tests of the kernel.
  \<^item> The kernel stack that \<open>swtch\<close> uses, the recording of call stacks in locks, and the interleaving of several
    processes inside the file system: C1 to C9 speak of one process inside a transaction.
\<close>

end
